(* ===== verification/Prelude.thy ===== *)
theory Prelude
  imports Main "HOL-Library.Word" "HOL-Library.Sublist"
begin

text \<open>
  Shared vocabulary of the development: the fixed-width integer types of the C sources, the bit
  idioms the device models use (\<open>x & (1 << n)\<close>, \<open>x |= 1 << n\<close>, \<open>x &= ~(1 << n)\<close>), a few
  facts on searching a list in order, and the transition-system interface through which every
  component gets its run and reachability lemmas.
\<close>

unbundle bit_operations_syntax

section \<open>Types of the C sources\<close>

type_synonym u8 = "8 word"
type_synonym u16 = "16 word"
type_synonym u32 = "32 word"
type_synonym u64 = "64 word"

named_theorems c_simps \<open>unfolding of the C idioms used by every component\<close>
named_theorems bit_simps \<open>bits of set, cleared and masked words\<close>
named_theorems inv_intros \<open>operations that keep a component invariant\<close>

text \<open>Limits every part of the hypervisor shares.\<close>

definition VM_MAXCPU :: nat where "VM_MAXCPU = 64"
definition XHYVE_PAGE_SHIFT :: nat where "XHYVE_PAGE_SHIFT = 12"
definition XHYVE_PAGE_SIZE :: nat where "XHYVE_PAGE_SIZE = 4096"

section \<open>Bit idioms\<close>

text \<open>
  The single-bit idioms are the library's \<^const>\<open>bit\<close>, \<^const>\<open>set_bit\<close> and \<^const>\<open>unset_bit\<close>:
  the test \<open>(w & (1 << n)) != 0\<close> is \<open>bit w n\<close>, and the assignments \<open>w |= 1 << n\<close> and
  \<open>w &= ~(1 << n)\<close> are \<open>set_bit n w\<close> and \<open>unset_bit n w\<close>. The lemmas below say so.
\<close>

lemma and_shift_eq_bit:
  fixes w :: "'a::len word"
  assumes "n < LENGTH('a)"
  shows "w AND push_bit n 1 \<noteq> 0 \<longleftrightarrow> bit w n"
  using assms by (simp add: and_exp_eq_0_iff_not_bit)

lemma or_shift_eq_set_bit: "w OR push_bit n 1 = set_bit n (w :: 'a::len word)"
  by (simp add: set_bit_eq_or)

lemma and_not_shift_eq_unset_bit: "w AND NOT (push_bit n 1) = unset_bit n (w :: 'a::len word)"
  by (simp add: unset_bit_eq_and_not)

lemma bit_set_bit_word [bit_simps]:
  "bit (set_bit n w :: 'a::len word) i \<longleftrightarrow> bit w i \<or> (i = n \<and> n < LENGTH('a))"
  by (auto simp: bit_set_bit_iff)

lemma bit_unset_bit_word [bit_simps]:
  "bit (unset_bit n w :: 'a::len word) i \<longleftrightarrow> bit w i \<and> i \<noteq> n"
  by (auto simp: bit_unset_bit_iff)

lemma unset_set_bit: "\<not> bit w n \<Longrightarrow> unset_bit n (set_bit n w) = (w :: 'a::len word)"
  by (rule bit_eqI) (auto simp: bit_simps)

lemma set_bit_absorb: "bit w n \<Longrightarrow> set_bit n w = (w :: 'a::len word)"
  by (rule bit_eqI) (auto simp: bit_simps)

lemma bit_set_bit_zero: "bit (set_bit n (0 :: 'a::len word)) i \<longleftrightarrow> i = n \<and> n < LENGTH('a)"
  unfolding bit_set_bit_word by simp

lemma unset_set_bit_zero: "unset_bit n (set_bit n 0) = (0 :: 'a::len word)"
  by (rule unset_set_bit) simp

lemmas unset_bit_exp [simp] = unset_set_bit_zero [simplified]

lemma word_eq_zero_bits: "(w :: 'a::len word) = 0 \<longleftrightarrow> (\<forall>i < LENGTH('a). \<not> bit w i)"
  by (metis bit_0_eq bit_word_eqI bot_apply bot_bool_def)

text \<open>The idiom \<open>x & 7\<close> keeps the three low bits.\<close>

lemma and_7_int: "x AND 7 = x mod 8" for x :: int
proof -
  have m: "mask 3 = (7 :: int)" by (simp add: mask_eq_exp_minus_1)
  have "x AND 7 = take_bit 3 x" by (simp only: take_bit_eq_mask m)
  then show ?thesis by (simp add: take_bit_eq_mod)
qed

lemma nat_and_7_less: "nat (x AND 7) < 8" for x :: int
  by (simp add: and_7_int)

lemma and_not_plus_and: "(x AND NOT m) + (x AND m) = x" for x m :: int
proof -
  have "(x AND NOT m) AND (x AND m) = 0" by (rule bit_eqI) (auto simp: bit_and_iff bit_not_iff)
  then have "(x AND NOT m) + (x AND m) = (x AND NOT m) OR (x AND m)" by (rule disjunctive_add_eq_or)
  also have "\<dots> = x" by (rule bit_eqI) (auto simp: bit_and_iff bit_or_iff bit_not_iff)
  finally show ?thesis .
qed

lemma and_not_7_int: "x AND NOT 7 = x - x mod 8" for x :: int
  using and_not_plus_and[of x 7] unfolding and_7_int by linarith

lemma and_7_word: "w AND 7 = take_bit 3 (w :: 'a::len word)"
proof -
  have m: "mask 3 = (7 :: 'a word)" by (simp add: mask_eq_exp_minus_1)
  show ?thesis by (simp only: take_bit_eq_mask m)
qed

lemma unat_and_7_less: "unat (w AND 7) < 8" for w :: "'a::len word"
proof -
  have "unat (w AND 7) = take_bit 3 (unat w)" by (simp only: and_7_word unsigned_take_bit_eq)
  also have "\<dots> < 8" by (simp add: take_bit_eq_mod)
  finally show ?thesis .
qed

lemma unat_bound: "unat (w :: 'a::len word) < 2 ^ LENGTH('a)"
  by (rule unsigned_less)

lemma unat_plus_one:
  fixes w :: "'a::len word"
  assumes "Suc (unat w) < 2 ^ LENGTH('a)"
  shows "unat (w + 1) = Suc (unat w)"
  using assms by (simp add: unat_word_ariths)

lemma unat_up: "unat (ucast y :: u64) = unat y" for y :: u32
  using unsigned_less[where 'a = nat and w = y] by (simp add: unsigned_ucast_eq take_bit_nat_eq_self)

section \<open>Searching a list in order\<close>

text \<open>The loops of the sources that return the first index or the first pin satisfying a condition
  are \<^const>\<open>List.find\<close> over the list of candidates in loop order.\<close>

lemma find_skip: "(\<And>y. y \<in> set ys \<Longrightarrow> \<not> P y) \<Longrightarrow> List.find P (ys @ zs) = List.find P zs"
  by (induction ys) auto

lemma find_SomeD: "List.find P xs = Some x \<Longrightarrow> x \<in> set xs \<and> P x"
  by (auto simp: find_Some_iff)

lemma find_cong_pred: "(\<And>x. x \<in> set xs \<Longrightarrow> P x = Q x) \<Longrightarrow> List.find P xs = List.find Q xs"
  by (induction xs) auto

lemma find_upt_Some_iff:
  "List.find P [m..<n] = Some i \<longleftrightarrow> m \<le> i \<and> i < n \<and> P i \<and> (\<forall>j. m \<le> j \<longrightarrow> j < i \<longrightarrow> \<not> P j)"
proof
  assume "List.find P [m..<n] = Some i"
  then obtain k where k: "k < n - m" "P ([m..<n] ! k)" "i = [m..<n] ! k"
    "\<And>j. j < k \<Longrightarrow> \<not> P ([m..<n] ! j)"
    by (auto simp: find_Some_iff)
  have "\<not> P j" if "m \<le> j" "j < i" for j
    using k(1,3) k(4)[of "j - m"] that by simp
  with k show "m \<le> i \<and> i < n \<and> P i \<and> (\<forall>j. m \<le> j \<longrightarrow> j < i \<longrightarrow> \<not> P j)" by simp
next
  assume *: "m \<le> i \<and> i < n \<and> P i \<and> (\<forall>j. m \<le> j \<longrightarrow> j < i \<longrightarrow> \<not> P j)"
  then have "[m..<n] = [m..<i] @ i # [Suc i..<n]"
    using upt_add_eq_append[of m i "n - i"] by (simp add: upt_conv_Cons)
  with * show "List.find P [m..<n] = Some i"
    using find_skip[of "[m..<i]" P "i # [Suc i..<n]"] by simp
qed

lemma find_upt_None_iff: "List.find P [m..<n] = None \<longleftrightarrow> (\<forall>i. m \<le> i \<longrightarrow> i < n \<longrightarrow> \<not> P i)"
  by (auto simp: find_None_iff)

section \<open>Runs of a component\<close>

text \<open>
  A component whose operations are numbered by a type of events has a run over a list of events.
  The interface asks only that the initial states satisfy the invariant and that each operation
  keeps it; the run and reachability facts follow once for every component.
\<close>

locale machine =
  fixes start :: "'s \<Rightarrow> bool"
    and step :: "'e \<Rightarrow> 's \<Rightarrow> 's"
    and invar :: "'s \<Rightarrow> bool"
  assumes invar_start: "start s \<Longrightarrow> invar s"
    and invar_step: "invar s \<Longrightarrow> invar (step e s)"
begin

lemma invar_fold: "invar s \<Longrightarrow> invar (fold step es s)"
  by (induction es arbitrary: s) (auto intro: invar_step)

lemma run_invar: "start s \<Longrightarrow> invar (fold step es s)"
  by (blast intro: invar_start invar_fold)

lemma run_append: "fold step (es @ fs) s = fold step fs (fold step es s)"
  by simp

end

text \<open>The same for a component whose operations may end the program: a run stops at the first that does.\<close>

fun run_opt :: "('e \<Rightarrow> 's \<Rightarrow> 's option) \<Rightarrow> 'e list \<Rightarrow> 's \<Rightarrow> 's option" where
  "run_opt step [] s = Some s"
| "run_opt step (e # es) s = (case step e s of None \<Rightarrow> None | Some t \<Rightarrow> run_opt step es t)"

locale partial_machine =
  fixes start :: "'s \<Rightarrow> bool"
    and step :: "'e \<Rightarrow> 's \<Rightarrow> 's option"
    and invar :: "'s \<Rightarrow> bool"
  assumes invar_start: "start s \<Longrightarrow> invar s"
    and invar_step: "invar s \<Longrightarrow> step e s = Some t \<Longrightarrow> invar t"
begin

lemma invar_run: "invar s \<Longrightarrow> run_opt step es s = Some t \<Longrightarrow> invar t"
  by (induction es arbitrary: s) (auto split: option.splits intro: invar_step)

lemma run_invar: "start s \<Longrightarrow> run_opt step es s = Some t \<Longrightarrow> invar t"
  by (blast intro: invar_start invar_run)

end

end
