(* ===== verification/Libc.thy ===== *)
theory Libc
  imports Prelude
begin

text \<open>
  What the HyperCog sources use of the C library and of the operating system: error numbers,
  \<^verbatim>\<open>calloc\<close>/\<^verbatim>\<open>malloc\<close>/\<^verbatim>\<open>free\<close>, \<^verbatim>\<open>time\<close>, C strings with \<^verbatim>\<open>strncpy\<close> and \<^verbatim>\<open>strstr\<close>, and the
  \<^verbatim>\<open>snprintf\<close> conversions \<^verbatim>\<open>%d %u %lu %ld %s %.2f\<close>. Whether an allocation succeeds and what the
  clock reads are decided by the environment: the \<open>os\<close> record carries an arbitrary sequence of
  outcomes for each, so every theorem holds for all of them, failures included.
\<close>

section \<open>Error numbers and faults\<close>

text \<open>The values of \<^verbatim>\<open>errno.h\<close> the sources return; \<open>OK\<close> is the return value 0.\<close>

datatype errno = OK | EINVAL | ENOMEM | ENOENT | ENOTSUP | EALREADY | EBUSY | E2BIG | EFAULT

text \<open>What C leaves undefined is a fault of the model, not a value: a dereference of a null or
  freed pointer, or a write past the end of a block.\<close>

datatype fault = NullDeref | Dangling nat | HeapOverflow nat

section \<open>Allocation and time\<close>

type_synonym addr = nat

text \<open>
  \<open>os_mem k\<close> says whether the \<open>k\<close>-th allocation succeeds, \<open>os_clock k\<close> is what the \<open>k\<close>-th call of
  \<^verbatim>\<open>time(NULL)\<close> returns; \<open>os_live\<close> is the set of blocks allocated and not freed. Addresses are
  handed out in increasing order, so a new block is never one that was live before.
\<close>

record os =
  os_mem :: "nat \<Rightarrow> bool"
  os_allocs :: nat
  os_clock :: "nat \<Rightarrow> u64"
  os_ticks :: nat
  os_next :: addr
  os_live :: "addr set"

definition os_wf :: "os \<Rightarrow> bool" where
  "os_wf os \<longleftrightarrow> finite (os_live os) \<and> (\<forall>a \<in> os_live os. a < os_next os)"

definition calloc :: "os \<Rightarrow> addr option \<times> os" where
  "calloc os =
     (let os' = os\<lparr>os_allocs := Suc (os_allocs os)\<rparr> in
      if os_mem os (os_allocs os)
      then (Some (os_next os),
            os'\<lparr>os_next := Suc (os_next os), os_live := insert (os_next os) (os_live os)\<rparr>)
      else (None, os'))"

definition free :: "addr \<Rightarrow> os \<Rightarrow> os" where
  "free a os = os\<lparr>os_live := os_live os - {a}\<rparr>"

definition time :: "os \<Rightarrow> u64 \<times> os" where
  "time os = (os_clock os (os_ticks os), os\<lparr>os_ticks := Suc (os_ticks os)\<rparr>)"

text \<open>An environment in which every allocation succeeds and the clock always reads \<open>t\<close>.\<close>

definition os_plain :: "u64 \<Rightarrow> os" where
  "os_plain t = \<lparr>os_mem = (\<lambda>_. True), os_allocs = 0, os_clock = (\<lambda>_. t), os_ticks = 0,
                 os_next = 1, os_live = {}\<rparr>"

lemma os_wf_plain [simp]: "os_wf (os_plain t)"
  by (simp add: os_wf_def os_plain_def)

lemma calloc_None_live: "calloc os = (None, os') \<Longrightarrow> os_live os' = os_live os"
  by (auto simp: calloc_def Let_def split: if_splits)

lemma calloc_Some_live:
  "calloc os = (Some a, os') \<Longrightarrow> a = os_next os \<and> os_live os' = insert a (os_live os)
     \<and> os_next os' = Suc a"
  by (auto simp: calloc_def Let_def split: if_splits)

lemma calloc_fresh: "os_wf os \<Longrightarrow> calloc os = (Some a, os') \<Longrightarrow> a \<notin> os_live os"
  by (auto simp: os_wf_def dest!: calloc_Some_live)

lemma calloc_wf: "os_wf os \<Longrightarrow> calloc os = (r, os') \<Longrightarrow> os_wf os'"
  by (fastforce simp: os_wf_def calloc_def Let_def split: if_splits)

lemma free_wf: "os_wf os \<Longrightarrow> os_wf (free a os)"
  by (auto simp: os_wf_def free_def)

lemma free_live [simp]: "os_live (free a os) = os_live os - {a}"
  by (simp add: free_def)

lemma free_next [simp]: "os_next (free a os) = os_next os"
  by (simp add: free_def)

lemma time_live [simp]: "os_live (snd (time os)) = os_live os"
  by (simp add: time_def)

lemma time_next [simp]: "os_next (snd (time os)) = os_next os"
  by (simp add: time_def)

lemma time_wf [simp]: "os_wf (snd (time os)) = os_wf os"
  by (simp add: time_def os_wf_def)

section \<open>C strings\<close>

text \<open>
  A C string is the list of the characters before its terminating NUL. \<^verbatim>\<open>strncpy(dst, src, n - 1)\<close>
  followed by \<^verbatim>\<open>dst[n - 1] = 0\<close>, and \<^verbatim>\<open>snprintf(dst, n, "%s", src)\<close>, both leave the first \<open>n - 1\<close>
  characters. \<^verbatim>\<open>strstr\<close> returns the offset of the first occurrence.
\<close>

definition cstrcpy :: "nat \<Rightarrow> string \<Rightarrow> string" where
  "cstrcpy n src = take (n - 1) src"

fun strstr :: "string \<Rightarrow> string \<Rightarrow> nat option" where
  "strstr [] needle = (if needle = [] then Some 0 else None)"
| "strstr (c # hay) needle =
     (if prefix needle (c # hay) then Some 0 else map_option Suc (strstr hay needle))"

lemma strstr_sublist: "strstr hay needle \<noteq> None \<longleftrightarrow> sublist needle hay"
proof (induction hay)
  case Nil
  then show ?case by simp
next
  case (Cons c hay)
  show ?case
  proof (cases "prefix needle (c # hay)")
    case True
    then show ?thesis by (simp add: prefix_imp_sublist)
  next
    case False
    with Cons.IH show ?thesis
      by (auto simp: sublist_Cons_right)
  qed
qed

lemma strstr_refl [simp]: "strstr s s \<noteq> None"
  unfolding strstr_sublist by simp

lemma strstr_length: "strstr hay needle \<noteq> None \<Longrightarrow> length needle \<le> length hay"
  unfolding strstr_sublist by (rule sublist_length_le)

lemma cstrcpy_length: "0 < n \<Longrightarrow> length (cstrcpy n s) < n"
  by (cases n) (auto simp: cstrcpy_def)

lemma cstrcpy_id: "length s < n \<Longrightarrow> cstrcpy n s = s"
  by (simp add: cstrcpy_def)

section \<open>Numbers in decimal\<close>

definition digit :: "nat \<Rightarrow> char" where
  "digit d = char_of (48 + d)"

fun dec_nat :: "nat \<Rightarrow> string" where
  "dec_nat n = (if n < 10 then [digit n] else dec_nat (n div 10) @ [digit (n mod 10)])"

declare dec_nat.simps [simp del]

text \<open>The two branches as rewrite rules that evaluate on numerals.\<close>

lemma dec_nat_small: "n < 10 \<Longrightarrow> dec_nat n = [digit n]"
  by (simp add: dec_nat.simps)

lemma dec_nat_large: "\<not> n < 10 \<Longrightarrow> dec_nat n = dec_nat (n div 10) @ [digit (n mod 10)]"
  by (subst dec_nat.simps) simp

lemmas dec_nat_eval = dec_nat_small dec_nat_large

lemma digit_eval:
  "digit 0 = CHR ''0''" "digit 1 = CHR ''1''" "digit (Suc 0) = CHR ''1''" "digit 2 = CHR ''2''"
  "digit 3 = CHR ''3''" "digit 4 = CHR ''4''" "digit 5 = CHR ''5''" "digit 6 = CHR ''6''"
  "digit 7 = CHR ''7''" "digit 8 = CHR ''8''" "digit 9 = CHR ''9''"
  by code_simp+

text \<open>\<^verbatim>\<open>%u\<close> and \<^verbatim>\<open>%lu\<close>, \<^verbatim>\<open>%d\<close> and \<^verbatim>\<open>%ld\<close>.\<close>

definition fmt_u :: "'a::len word \<Rightarrow> string" where
  "fmt_u w = dec_nat (unat w)"

definition fmt_int :: "int \<Rightarrow> string" where
  "fmt_int i = (if i < 0 then CHR ''-'' # dec_nat (nat (- i)) else dec_nat (nat i))"

definition fmt_d :: "'a::len word \<Rightarrow> string" where
  "fmt_d w = fmt_int (sint w)"

fun undec :: "nat \<Rightarrow> string \<Rightarrow> nat" where
  "undec acc [] = acc"
| "undec acc (c # cs) = undec (10 * acc + (of_char c - 48)) cs"

lemma undec_append: "undec acc (s @ t) = undec (undec acc s) t"
  by (induction s arbitrary: acc) auto

lemma of_char_digit: "d < 10 \<Longrightarrow> of_char (digit d) - (48 :: nat) = d"
  by (simp add: digit_def)

lemma undec_dec_nat: "undec 0 (dec_nat n) = n"
proof (induction n rule: dec_nat.induct)
  case (1 n)
  show ?case
  proof (cases "n < 10")
    case True
    then show ?thesis by (subst dec_nat.simps) (simp add: of_char_digit)
  next
    case False
    with 1 have "undec 0 (dec_nat (n div 10)) = n div 10" by simp
    moreover have "of_char (digit (n mod 10)) - 48 = n mod 10"
      by (rule of_char_digit) simp
    ultimately show ?thesis
      using False by (subst dec_nat.simps) (simp add: undec_append)
  qed
qed

lemma dec_nat_inject: "dec_nat m = dec_nat n \<Longrightarrow> m = n"
  by (metis undec_dec_nat)

lemma dec_nat_digits: "c \<in> set (dec_nat n) \<Longrightarrow> \<exists>d < 10. c = digit d"
proof (induction n rule: dec_nat.induct)
  case (1 n)
  show ?case
  proof (cases "n < 10")
    case True
    with 1(2) show ?thesis by (subst (asm) dec_nat.simps) auto
  next
    case False
    with 1(2) have "c \<in> set (dec_nat (n div 10)) \<or> c = digit (n mod 10)"
      by (subst (asm) dec_nat.simps) auto
    with 1(1)[OF False] show ?thesis
      by (metis mod_less_divisor zero_less_numeral)
  qed
qed

lemma digit_not_minus:
  assumes "d < 10"
  shows "digit d \<noteq> CHR ''-''"
proof
  assume "digit d = CHR ''-''"
  then have "of_char (digit d) = (45 :: nat)" by simp
  with assms show False by (simp add: digit_def)
qed

lemma dec_nat_not_minus: "dec_nat n \<noteq> CHR ''-'' # s"
  using dec_nat_digits[of "CHR ''-''" n] digit_not_minus by fastforce

lemma fmt_int_inject: "fmt_int i = fmt_int j \<Longrightarrow> i = j"
  using dec_nat_not_minus[of "nat i"] dec_nat_not_minus[of "nat j"]
  by (auto simp: fmt_int_def split: if_splits dest!: dec_nat_inject sym[of "CHR ''-'' # _"])

lemma length_dec_nat: "n < 10 ^ k \<Longrightarrow> 0 < k \<Longrightarrow> length (dec_nat n) \<le> k"
proof (induction k arbitrary: n)
  case (Suc k)
  show ?case
  proof (cases "n < 10")
    case True
    then show ?thesis by (subst dec_nat.simps) simp
  next
    case False
    then have "0 < k" using Suc.prems by (cases k) auto
    moreover have "n div 10 < 10 ^ k" using Suc.prems by (simp add: less_mult_imp_div_less)
    ultimately have "length (dec_nat (n div 10)) \<le> k" using Suc.IH by simp
    with False show ?thesis by (subst dec_nat.simps) simp
  qed
qed simp

lemma length_fmt_u64: "length (fmt_u (w :: u64)) \<le> 20"
proof -
  have "unat w < 2 ^ 64" using unat_bound[of w] by simp
  then have "unat w < 10 ^ 20" by simp
  then show ?thesis unfolding fmt_u_def by (rule length_dec_nat) simp
qed

lemma length_fmt_u32: "length (fmt_u (w :: u32)) \<le> 10"
proof -
  have "unat w < 2 ^ 32" using unat_bound[of w] by simp
  then have "unat w < 10 ^ 10" by simp
  then show ?thesis unfolding fmt_u_def by (rule length_dec_nat) simp
qed

lemma length_fmt_int:
  assumes "\<bar>i\<bar> < 10 ^ k" and "0 < k"
  shows "length (fmt_int i) \<le> Suc k"
proof -
  have "nat \<bar>i\<bar> < 10 ^ k" using assms(1) by (simp add: nat_less_iff)
  then have "length (dec_nat (nat \<bar>i\<bar>)) \<le> k" using assms(2) by (rule length_dec_nat)
  then show ?thesis by (cases "i < 0") (simp_all add: fmt_int_def)
qed

lemma length_fmt_d16: "length (fmt_d (w :: u16)) \<le> 6"
  unfolding fmt_d_def
  using sint_greater_eq[of w] sint_less[of w] by (intro order_trans[OF length_fmt_int[of _ 5]]) auto

lemma length_fmt_d32: "length (fmt_d (w :: u32)) \<le> 11"
  unfolding fmt_d_def
  using sint_greater_eq[of w] sint_less[of w] by (intro order_trans[OF length_fmt_int[of _ 10]]) auto

section \<open>Single-precision floats\<close>

text \<open>
  A \<^verbatim>\<open>float\<close> is its IEEE-754 bit pattern. The sources only store, copy and print it with \<^verbatim>\<open>%.2f\<close>:
  the exact value \<open>mant * 2 ^ (ex - 150)\<close> is rounded to hundredths, ties to even.
\<close>

type_synonym float32 = u32

definition float_one :: float32 where
  "float_one = 0x3f800000"

definition float_zero :: float32 where
  "float_zero = 0"

definition div_round_even :: "nat \<Rightarrow> nat \<Rightarrow> nat" where
  "div_round_even a b =
     (let q = a div b; r = a mod b in
      if 2 * r < b then q else if b < 2 * r then Suc q else if even q then q else Suc q)"

definition float_hundredths :: "float32 \<Rightarrow> nat" where
  "float_hundredths w =
     (let e = unat (drop_bit 23 w AND 255); m = unat (w AND 0x7fffff);
          mant = (if e = 0 then m else m + 2 ^ 23); ex = max e 1
      in if 150 \<le> ex then mant * 100 * 2 ^ (ex - 150)
         else div_round_even (mant * 100) (2 ^ (150 - ex)))"

definition fmt_f2 :: "float32 \<Rightarrow> string" where
  "fmt_f2 w =
     (let e = unat (drop_bit 23 w AND 255); m = unat (w AND 0x7fffff);
          sgn = (if bit w 31 then ''-'' else []); n = float_hundredths w
      in if e = 255 then (if m = 0 then sgn @ ''inf'' else ''nan'')
         else sgn @ dec_nat (n div 100) @ ''.'' @ [digit (n mod 100 div 10), digit (n mod 10)])"

lemma unat_and_mask_less:
  "unat (w AND mask n :: 'a::len word) < 2 ^ n"
proof -
  have "w AND mask n = take_bit n w" by (simp add: take_bit_eq_mask)
  then show ?thesis by (metis unsigned_take_bit_eq take_bit_nat_less_exp)
qed

lemma div_round_even_le: "0 < b \<Longrightarrow> div_round_even a b \<le> Suc (a div b)"
  by (simp add: div_round_even_def Let_def)

lemma float_hundredths_bound: "float_hundredths w < 2 ^ 129 * 100"
proof -
  define e where "e = unat (drop_bit 23 w AND 255)"
  define m where "m = unat (w AND 0x7fffff)"
  define mant where "mant = (if e = 0 then m else m + 2 ^ 23)"
  have "e < 256" "m < 2 ^ 23"
    using unat_and_mask_less[of "drop_bit 23 w" 8] unat_and_mask_less[of w 23]
    by (simp_all add: e_def m_def mask_eq_exp_minus_1)
  then have mant: "mant < 2 ^ 24" by (simp add: mant_def)
  have eq: "float_hundredths w =
      (if 150 \<le> max e 1 then mant * 100 * 2 ^ (max e 1 - 150)
       else div_round_even (mant * 100) (2 ^ (150 - max e 1)))"
    by (simp only: float_hundredths_def Let_def e_def m_def mant_def)
  show ?thesis
  proof (cases "150 \<le> max e 1")
    case True
    have "(2::nat) ^ (max e 1 - 150) \<le> 2 ^ 105"
      using \<open>e < 256\<close> by (intro power_increasing) auto
    then have "mant * 100 * 2 ^ (max e 1 - 150) \<le> mant * 100 * 2 ^ 105"
      by (rule mult_le_mono2)
    also have "\<dots> < 2 ^ 24 * 100 * 2 ^ 105" using mant by simp
    finally show ?thesis
      unfolding eq if_P[OF True] by simp
  next
    case False
    have "div_round_even (mant * 100) (2 ^ (150 - max e 1)) \<le> Suc (mant * 100 div 2 ^ (150 - max e 1))"
      by (rule div_round_even_le) simp
    also have "\<dots> \<le> Suc (mant * 100)" by simp
    also have "\<dots> < 2 ^ 129 * 100" using mant by simp
    finally show ?thesis
      unfolding eq if_not_P[OF False] .
  qed
qed

lemma length_fmt_f2: "length (fmt_f2 w) \<le> 43"
proof -
  have "float_hundredths w div 100 < 10 ^ 39"
    using float_hundredths_bound[of w] by (simp add: less_mult_imp_div_less)
  then have "length (dec_nat (float_hundredths w div 100)) \<le> 39"
    by (rule length_dec_nat) simp
  then show ?thesis by (simp add: fmt_f2_def Let_def)
qed

end
