(* ===== verification/Atomspace.thy ===== *)
theory Atomspace
  imports Libc
begin

text \<open>
  The AtomSpace of \<^verbatim>\<open>src/src/lib/atomspace.c\<close> and \<^verbatim>\<open>src/src/include/xhyve/atomspace.h\<close>: a bounded
  array of atoms, filled from the front, with a 64-bit handle counter. Pointers to an AtomSpace are
  \<open>option\<close> values (\<open>None\<close> is \<^verbatim>\<open>NULL\<close>), a pointer into the atom array is the slot's index. Each
  operation threads the environment of \<^theory_text>\<open>Libc\<close>, so that allocation failure is a branch of it.
\<close>

section \<open>Data\<close>

datatype atom_type =
    ATOM_TYPE_NODE | ATOM_TYPE_LINK | ATOM_TYPE_CONCEPT | ATOM_TYPE_PREDICATE | ATOM_TYPE_VARIABLE
  | ATOM_TYPE_EVALUATION | ATOM_TYPE_INHERITANCE | ATOM_TYPE_SIMILARITY | ATOM_TYPE_MAX

type_synonym atom_handle = u64

record truth_value =
  strength :: float32
  confidence :: float32

record attention_value =
  sti :: u16
  lti :: u16
  vlti :: u16

text \<open>\<open>outgoing\<close> is the pointer field, \<open>targets\<close> the contents of the block it points to.\<close>

record atom =
  handle :: atom_handle
  atype :: atom_type
  name :: string
  tv :: truth_value
  av :: attention_value
  outgoing :: "addr option"
  targets :: "atom_handle list"
  outgoing_count :: u32
  timestamp :: u64
  distributed :: bool

record atomspace =
  atoms :: "nat \<Rightarrow> atom"
  atoms_addr :: "addr option"
  atom_count :: u32
  atom_capacity :: u32
  next_handle :: atom_handle
  distributed_mode :: bool
  node_id :: string

record query_result =
  qr_addr :: addr
  handles_addr :: "addr option"
  handles :: "atom_handle list"
  count :: u32

definition ATOMSPACE_MAX_NODES :: u32 where "ATOMSPACE_MAX_NODES = 1024"
definition ATOMSPACE_MAX_LINKS :: u32 where "ATOMSPACE_MAX_LINKS = 2048"
definition ATOMSPACE_NAME_MAX :: nat where "ATOMSPACE_NAME_MAX = 256"

lemmas atomspace_consts = ATOMSPACE_MAX_NODES_def ATOMSPACE_MAX_LINKS_def ATOMSPACE_NAME_MAX_def

text \<open>A slot of a freshly \<^verbatim>\<open>calloc\<close>ed array: every byte is zero.\<close>

definition zero_atom :: atom where
  "zero_atom = \<lparr>handle = 0, atype = ATOM_TYPE_NODE, name = [],
     tv = \<lparr>strength = 0, confidence = 0\<rparr>, av = \<lparr>sti = 0, lti = 0, vlti = 0\<rparr>,
     outgoing = None, targets = [], outgoing_count = 0, timestamp = 0, distributed = False\<rparr>"

definition set_atom :: "nat \<Rightarrow> atom \<Rightarrow> atomspace \<Rightarrow> atomspace" where
  "set_atom i a as = as\<lparr>atoms := (atoms as)(i := a)\<rparr>"

section \<open>Operations\<close>

definition atomspace_init ::
  "bool \<Rightarrow> bool \<Rightarrow> os \<Rightarrow> errno \<times> (addr \<times> atomspace) option \<times> os" where
  "atomspace_init out dist os =
     (if \<not> out then (EINVAL, None, os)
      else case calloc os of
        (None, os1) \<Rightarrow> (ENOMEM, None, os1)
      | (Some sp, os1) \<Rightarrow>
          (case calloc os1 of
             (None, os2) \<Rightarrow> (ENOMEM, None, free sp os2)
           | (Some ab, os2) \<Rightarrow>
               let space = \<lparr>atoms = (\<lambda>_. zero_atom), atoms_addr = Some ab, atom_count = 0,
                            atom_capacity = ATOMSPACE_MAX_NODES + ATOMSPACE_MAX_LINKS,
                            next_handle = 1, distributed_mode = dist, node_id = []\<rparr>
               in if dist
                  then let (t, os3) = time os2
                       in (OK, Some (sp, space\<lparr>node_id := cstrcpy 64 (''hypervisor-'' @ fmt_u t)\<rparr>), os3)
                  else (OK, Some (sp, space), os2)))"

definition atomspace_destroy :: "(addr \<times> atomspace) option \<Rightarrow> os \<Rightarrow> os" where
  "atomspace_destroy p os =
     (case p of
        None \<Rightarrow> os
      | Some (sp, as) \<Rightarrow>
          let os1 = (case atoms_addr as of
                       None \<Rightarrow> os
                     | Some ab \<Rightarrow>
                         free ab (fold (\<lambda>i os. case outgoing (atoms as i) of
                                                 None \<Rightarrow> os | Some b \<Rightarrow> free b os)
                                       [0..<unat (atom_count as)] os))
          in free sp os1)"

definition atomspace_get_atom :: "atomspace option \<Rightarrow> atom_handle \<Rightarrow> nat option" where
  "atomspace_get_atom p h =
     (case p of
        None \<Rightarrow> None
      | Some as \<Rightarrow>
          if h = 0 then None
          else List.find (\<lambda>i. handle (atoms as i) = h) [0..<unat (atom_count as)])"

definition atomspace_broadcast_atom ::
  "atomspace option \<Rightarrow> atom_handle \<Rightarrow> errno \<times> atomspace option" where
  "atomspace_broadcast_atom p h =
     (case p of
        None \<Rightarrow> (EINVAL, None)
      | Some as \<Rightarrow>
          if \<not> distributed_mode as then (EINVAL, Some as)
          else case atomspace_get_atom (Some as) h of
                 None \<Rightarrow> (ENOENT, Some as)
               | Some i \<Rightarrow> (OK, Some (set_atom i ((atoms as i)\<lparr>distributed := True\<rparr>) as)))"

definition atomspace_add_node ::
  "atomspace option \<Rightarrow> atom_type \<Rightarrow> string option \<Rightarrow> os \<Rightarrow> atom_handle \<times> atomspace option \<times> os" where
  "atomspace_add_node p ty nm os =
     (case (p, nm) of
        (Some as, Some s) \<Rightarrow>
          if atom_capacity as \<le> atom_count as then (0, p, os)
          else
            let i = unat (atom_count as); h = next_handle as; (t, os1) = time os;
                a = (atoms as i)\<lparr>handle := h, atype := ty, name := cstrcpy ATOMSPACE_NAME_MAX s,
                      tv := \<lparr>strength = float_one, confidence = float_one\<rparr>,
                      av := \<lparr>sti = 0, lti = 0, vlti = 0\<rparr>,
                      outgoing := None, targets := [], outgoing_count := 0,
                      timestamp := t, distributed := distributed_mode as\<rparr>;
                as1 = (set_atom i a as)\<lparr>next_handle := h + 1, atom_count := atom_count as + 1\<rparr>;
                p2 = (if distributed_mode as then snd (atomspace_broadcast_atom (Some as1) h)
                      else Some as1)
            in (h, p2, os1)
      | _ \<Rightarrow> (0, p, os))"

text \<open>\<open>out\<close> is the memory the argument \<^verbatim>\<open>outgoing\<close> points to, read at the indices below \<open>cnt\<close>. When the
  copy of the outgoing set cannot be allocated the slot has been partly written and the handle is
  used up, but the atom is not counted.\<close>

definition atomspace_add_link ::
  "atomspace option \<Rightarrow> atom_type \<Rightarrow> (nat \<Rightarrow> atom_handle) option \<Rightarrow> u32 \<Rightarrow> os
     \<Rightarrow> atom_handle \<times> atomspace option \<times> os" where
  "atomspace_add_link p ty out cnt os =
     (case (p, out) of
        (Some as, Some mem) \<Rightarrow>
          if cnt = 0 then (0, p, os)
          else if atom_capacity as \<le> atom_count as then (0, p, os)
          else
            let i = unat (atom_count as); h = next_handle as;
                a0 = (atoms as i)\<lparr>handle := h, atype := ty,
                       name := cstrcpy ATOMSPACE_NAME_MAX (''Link-'' @ fmt_u h)\<rparr>;
                as0 = as\<lparr>next_handle := h + 1\<rparr>
            in (case calloc os of
                  (None, os1) \<Rightarrow> (0, Some (set_atom i (a0\<lparr>outgoing := None, targets := []\<rparr>) as0), os1)
                | (Some b, os1) \<Rightarrow>
                    let (t, os2) = time os1;
                        a = a0\<lparr>outgoing := Some b, targets := map mem [0..<unat cnt],
                               outgoing_count := cnt,
                               tv := \<lparr>strength = float_one, confidence = float_one\<rparr>,
                               av := \<lparr>sti = 0, lti = 0, vlti = 0\<rparr>,
                               timestamp := t, distributed := distributed_mode as\<rparr>;
                        as1 = (set_atom i a as0)\<lparr>atom_count := atom_count as + 1\<rparr>;
                        p2 = (if distributed_mode as then snd (atomspace_broadcast_atom (Some as1) h)
                              else Some as1)
                    in (h, p2, os2))
      | _ \<Rightarrow> (0, p, os))"

definition atomspace_set_tv ::
  "atomspace option \<Rightarrow> atom_handle \<Rightarrow> truth_value \<Rightarrow> errno \<times> atomspace option" where
  "atomspace_set_tv p h v =
     (case (p, atomspace_get_atom p h) of
        (Some as, Some i) \<Rightarrow>
          let as1 = set_atom i ((atoms as i)\<lparr>tv := v\<rparr>) as
          in (OK, if distributed_mode as then snd (atomspace_broadcast_atom (Some as1) h) else Some as1)
      | _ \<Rightarrow> (ENOENT, p))"

definition atomspace_set_av ::
  "atomspace option \<Rightarrow> atom_handle \<Rightarrow> attention_value \<Rightarrow> errno \<times> atomspace option" where
  "atomspace_set_av p h v =
     (case (p, atomspace_get_atom p h) of
        (Some as, Some i) \<Rightarrow> (OK, Some (set_atom i ((atoms as i)\<lparr>av := v\<rparr>) as))
      | _ \<Rightarrow> (ENOENT, p))"

definition atomspace_sync_start :: "atomspace option \<Rightarrow> errno" where
  "atomspace_sync_start p =
     (case p of None \<Rightarrow> EINVAL | Some as \<Rightarrow> if \<not> distributed_mode as then ENOTSUP else OK)"

definition atomspace_sync_stop :: "atomspace option \<Rightarrow> errno" where
  "atomspace_sync_stop p = (case p of None \<Rightarrow> EINVAL | Some _ \<Rightarrow> OK)"

definition atomspace_receive_atom :: "atomspace option \<Rightarrow> atom option \<Rightarrow> errno \<times> atomspace option" where
  "atomspace_receive_atom p a =
     (case (p, a) of (Some _, Some _) \<Rightarrow> (OK, p) | _ \<Rightarrow> (EINVAL, p))"

definition query_matches :: "atomspace \<Rightarrow> string \<Rightarrow> atom_handle list" where
  "query_matches as pat =
     map (\<lambda>i. handle (atoms as i))
       (filter (\<lambda>i. strstr (name (atoms as i)) pat \<noteq> None) [0..<unat (atom_count as)])"

definition atomspace_query ::
  "atomspace option \<Rightarrow> string option \<Rightarrow> os \<Rightarrow> query_result option \<times> os" where
  "atomspace_query p pattern os =
     (case (p, pattern) of
        (Some as, Some pat) \<Rightarrow>
          (case calloc os of
             (None, os1) \<Rightarrow> (None, os1)
           | (Some r, os1) \<Rightarrow>
               (case calloc os1 of
                  (None, os2) \<Rightarrow> (None, free r os2)
                | (Some tmp, os2) \<Rightarrow>
                    let hs = query_matches as pat;
                        empty = \<lparr>qr_addr = r, handles_addr = None, handles = [], count = 0\<rparr>
                    in if hs = [] then (Some empty, free tmp os2)
                       else (case calloc os2 of
                               (None, os3) \<Rightarrow> (Some empty, free tmp os3)
                             | (Some b, os3) \<Rightarrow>
                                 (Some (empty\<lparr>handles_addr := Some b, handles := hs,
                                              count := of_nat (length hs)\<rparr>),
                                  free tmp os3))))
      | _ \<Rightarrow> (None, os))"

definition atomspace_free_query_result :: "query_result option \<Rightarrow> os \<Rightarrow> os" where
  "atomspace_free_query_result r os =
     (case r of
        None \<Rightarrow> os
      | Some q \<Rightarrow>
          free (qr_addr q) (case handles_addr q of None \<Rightarrow> os | Some b \<Rightarrow> free b os))"

lemmas atomspace_op_defs =
  atomspace_init_def atomspace_destroy_def atomspace_get_atom_def atomspace_broadcast_atom_def
  atomspace_add_node_def atomspace_add_link_def atomspace_set_tv_def atomspace_set_av_def
  atomspace_sync_start_def atomspace_sync_stop_def atomspace_receive_atom_def
  atomspace_query_def atomspace_free_query_result_def query_matches_def set_atom_def
  zero_atom_def


section \<open>The representation invariant\<close>

text \<open>
  The atoms in use occupy the slots below \<open>atom_count\<close>; their handles are nonzero, below the counter
  and strictly increasing with the slot, names fit their buffer, and in distributed mode every atom
  is marked as synchronised.
\<close>

definition slot_ok :: "atomspace \<Rightarrow> nat \<Rightarrow> bool" where
  "slot_ok as i \<longleftrightarrow>
     handle (atoms as i) \<noteq> 0 \<and> handle (atoms as i) < next_handle as
     \<and> length (name (atoms as i)) < ATOMSPACE_NAME_MAX
     \<and> length (targets (atoms as i)) = unat (outgoing_count (atoms as i))
     \<and> (outgoing (atoms as i) = None \<longleftrightarrow> outgoing_count (atoms as i) = 0)
     \<and> (distributed_mode as \<longrightarrow> distributed (atoms as i))"

definition as_inv :: "atomspace \<Rightarrow> bool" where
  "as_inv as \<longleftrightarrow>
     atom_capacity as = 3072 \<and> unat (atom_count as) \<le> 3072 \<and> atoms_addr as \<noteq> None
     \<and> next_handle as \<noteq> 0
     \<and> (\<forall>i < unat (atom_count as). slot_ok as i)
     \<and> (\<forall>j < unat (atom_count as). \<forall>i < j. handle (atoms as i) < handle (atoms as j))"

text \<open>How many handles can still be given out before the 64-bit counter wraps.\<close>

definition handle_room :: "atomspace \<Rightarrow> nat" where
  "handle_room as = 2 ^ 64 - 1 - unat (next_handle as)"

text \<open>The abstract content of an AtomSpace: which atom a handle denotes.\<close>

definition lookup :: "atomspace \<Rightarrow> atom_handle \<Rightarrow> atom option" where
  "lookup as h = map_option (atoms as) (atomspace_get_atom (Some as) h)"

lemma as_inv_slot: "as_inv as \<Longrightarrow> i < unat (atom_count as) \<Longrightarrow> slot_ok as i"
  by (simp add: as_inv_def)

lemma as_inv_handle_inj:
  assumes "as_inv as" "i < unat (atom_count as)" "j < unat (atom_count as)"
    and "handle (atoms as i) = handle (atoms as j)"
  shows "i = j"
proof (rule ccontr)
  assume "i \<noteq> j"
  then have "i < j \<or> j < i" by linarith
  with assms show False unfolding as_inv_def by (metis order_less_irrefl)
qed

lemma get_atom_Some_iff:
  assumes "as_inv as"
  shows "atomspace_get_atom (Some as) h = Some i \<longleftrightarrow>
           i < unat (atom_count as) \<and> handle (atoms as i) = h"
proof
  assume "atomspace_get_atom (Some as) h = Some i"
  then show "i < unat (atom_count as) \<and> handle (atoms as i) = h"
    by (auto simp: atomspace_get_atom_def find_upt_Some_iff split: if_splits)
next
  assume *: "i < unat (atom_count as) \<and> handle (atoms as i) = h"
  then have "h \<noteq> 0" using as_inv_slot[OF assms] by (auto simp: slot_ok_def)
  moreover have "handle (atoms as j) \<noteq> h" if "j < i" for j
    using as_inv_handle_inj[OF assms, of j i] * that by auto
  ultimately show "atomspace_get_atom (Some as) h = Some i"
    using * by (auto simp: atomspace_get_atom_def find_upt_Some_iff)
qed

lemma get_atom_None_iff:
  assumes "as_inv as"
  shows "atomspace_get_atom (Some as) h = None \<longleftrightarrow>
           (\<forall>i < unat (atom_count as). handle (atoms as i) \<noteq> h)"
  using get_atom_Some_iff[OF assms, of h] by (metis not_Some_eq)

lemma lookup_handle: "lookup as h = Some a \<Longrightarrow> handle a = h"
  by (auto simp: lookup_def atomspace_get_atom_def find_upt_Some_iff split: if_splits)

lemma lookup_slot:
  assumes "as_inv as" "i < unat (atom_count as)"
  shows "lookup as (handle (atoms as i)) = Some (atoms as i)"
  using get_atom_Some_iff[OF assms(1)] assms(2) by (auto simp: lookup_def)

lemma lookup_Some_iff:
  assumes "as_inv as"
  shows "lookup as h = Some a \<longleftrightarrow> (\<exists>i < unat (atom_count as). atoms as i = a \<and> handle a = h)"
  unfolding lookup_def map_option_eq_Some get_atom_Some_iff[OF assms] by auto

lemma lookup_next_handle: "as_inv as \<Longrightarrow> lookup as (next_handle as) = None"
  unfolding lookup_def
  by (auto simp: get_atom_None_iff slot_ok_def dest!: as_inv_slot)

section \<open>Adding an atom\<close>

text \<open>Both additions, when they succeed, write one complete atom behind the last one.\<close>

definition push_atom :: "atom \<Rightarrow> atomspace \<Rightarrow> atomspace" where
  "push_atom a as =
     as\<lparr>atoms := (atoms as)(unat (atom_count as) := a),
        atom_count := atom_count as + 1, next_handle := next_handle as + 1\<rparr>"

definition atom_ok :: "atomspace \<Rightarrow> atom \<Rightarrow> bool" where
  "atom_ok as a \<longleftrightarrow>
     handle a = next_handle as \<and> length (name a) < ATOMSPACE_NAME_MAX
     \<and> length (targets a) = unat (outgoing_count a)
     \<and> (outgoing a = None \<longleftrightarrow> outgoing_count a = 0)
     \<and> distributed a = distributed_mode as"

lemma count_less_unat:
  "as_inv as \<Longrightarrow> \<not> atom_capacity as \<le> atom_count as \<Longrightarrow> unat (atom_count as) < 3072"
  by (simp add: as_inv_def word_le_nat_alt)

lemma push_atom_sel [simp]:
  "atoms (push_atom a as) = (atoms as)(unat (atom_count as) := a)"
  "next_handle (push_atom a as) = next_handle as + 1"
  "atom_capacity (push_atom a as) = atom_capacity as"
  "atoms_addr (push_atom a as) = atoms_addr as"
  "distributed_mode (push_atom a as) = distributed_mode as"
  "node_id (push_atom a as) = node_id as"
  by (simp_all add: push_atom_def)

lemma push_atom_count:
  "unat (atom_count as) < 3072 \<Longrightarrow> unat (atom_count (push_atom a as)) = Suc (unat (atom_count as))"
  by (simp add: push_atom_def unat_plus_one)

lemma room_next_handle:
  assumes "0 < handle_room as"
  shows "unat (next_handle as + 1) = Suc (unat (next_handle as))"
  using assms by (simp add: handle_room_def unat_plus_one)

lemma push_atom_room:
  "0 < handle_room as \<Longrightarrow> Suc (handle_room (push_atom a as)) = handle_room as"
  using room_next_handle[of as] by (simp add: handle_room_def)

lemma less_next_handle:
  "0 < handle_room as \<Longrightarrow> h \<le> next_handle as \<Longrightarrow> h < next_handle as + 1"
  by (simp add: room_next_handle word_less_nat_alt word_le_nat_alt)

lemma push_atom_inv [inv_intros]:
  assumes inv: "as_inv as" and lt: "unat (atom_count as) < 3072"
    and room: "0 < handle_room as" and ok: "atom_ok as a"
  shows "as_inv (push_atom a as)"
proof -
  let ?n = "unat (atom_count as)" and ?as = "push_atom a as"
  note cnt = push_atom_count[OF lt, of a]
  have nz: "next_handle as \<noteq> 0" using inv by (simp add: as_inv_def)
  have "next_handle ?as \<noteq> 0"
    using room_next_handle[OF room] by (metis push_atom_sel(2) nat.distinct(1) unat_0)
  moreover have "slot_ok ?as i" if "i < Suc ?n" for i
  proof (cases "i = ?n")
    case True
    with ok nz less_next_handle[OF room, of "next_handle as"] show ?thesis
      by (auto simp: slot_ok_def atom_ok_def)
  next
    case False
    with that have "slot_ok as i" using as_inv_slot[OF inv] by simp
    with False show ?thesis
      using less_next_handle[OF room, of "handle (atoms as i)"]
      by (auto simp: slot_ok_def)
  qed
  moreover have "handle (atoms ?as i) < handle (atoms ?as j)" if "j < Suc ?n" "i < j" for i j
  proof (cases "j = ?n")
    case True
    with that have "slot_ok as i" using as_inv_slot[OF inv] by simp
    with True that ok show ?thesis by (simp add: slot_ok_def atom_ok_def)
  next
    case False
    with that inv show ?thesis by (simp add: as_inv_def)
  qed
  ultimately show ?thesis
    using inv lt cnt by (simp add: as_inv_def)
qed

lemma push_atom_lookup:
  assumes inv: "as_inv as" and lt: "unat (atom_count as) < 3072"
    and room: "0 < handle_room as" and ok: "atom_ok as a"
  shows "lookup (push_atom a as) = (lookup as)(next_handle as \<mapsto> a)"
proof (rule ext)
  fix h
  note inv' = push_atom_inv[OF assms]
  show "lookup (push_atom a as) h = ((lookup as)(next_handle as \<mapsto> a)) h"
  proof (cases "h = next_handle as")
    case True
    then show ?thesis
      using lookup_Some_iff[OF inv', of h a] push_atom_count[OF lt, of a] ok
      by (auto simp: atom_ok_def)
  next
    case False
    with ok have ne: "handle a \<noteq> h" by (simp add: atom_ok_def)
    have "lookup (push_atom a as) h = Some b \<longleftrightarrow> lookup as h = Some b" for b
    proof -
      have "lookup (push_atom a as) h = Some b \<longleftrightarrow>
              (\<exists>i < Suc (unat (atom_count as)). atoms (push_atom a as) i = b \<and> handle b = h)"
        using lookup_Some_iff[OF inv'] push_atom_count[OF lt, of a] by simp
      also have "\<dots> \<longleftrightarrow> (\<exists>i < unat (atom_count as). atoms as i = b \<and> handle b = h)"
        unfolding Ex_less_Suc push_atom_sel using ne by (metis fun_upd_apply nat_neq_iff)
      finally show ?thesis using lookup_Some_iff[OF inv] by simp
    qed
    then have "lookup (push_atom a as) h = lookup as h"
      by (metis not_Some_eq)
    with False show ?thesis by simp
  qed
qed

lemma broadcast_pushed:
  assumes inv: "as_inv as" and lt: "unat (atom_count as) < 3072"
    and room: "0 < handle_room as" and ok: "atom_ok as a" and dm: "distributed_mode as"
  shows "atomspace_broadcast_atom (Some (push_atom a as)) (next_handle as) = (OK, Some (push_atom a as))"
proof -
  have "atomspace_get_atom (Some (push_atom a as)) (next_handle as) = Some (unat (atom_count as))"
    using get_atom_Some_iff[OF push_atom_inv[OF inv lt room ok]] push_atom_count[OF lt, of a] ok
    by (auto simp: atom_ok_def)
  moreover have "a\<lparr>distributed := True\<rparr> = a"
    using ok dm by (simp add: atom_ok_def)
  ultimately show ?thesis
    using dm by (simp add: atomspace_broadcast_atom_def set_atom_def push_atom_def)
qed

text \<open>The atoms the two additions write, and the state after an abandoned link.\<close>

definition new_node :: "atomspace \<Rightarrow> atom_type \<Rightarrow> string \<Rightarrow> u64 \<Rightarrow> atom" where
  "new_node as ty s t =
     \<lparr>handle = next_handle as, atype = ty, name = cstrcpy ATOMSPACE_NAME_MAX s,
      tv = \<lparr>strength = float_one, confidence = float_one\<rparr>, av = \<lparr>sti = 0, lti = 0, vlti = 0\<rparr>,
      outgoing = None, targets = [], outgoing_count = 0,
      timestamp = t, distributed = distributed_mode as\<rparr>"

definition new_link ::
  "atomspace \<Rightarrow> atom_type \<Rightarrow> (nat \<Rightarrow> atom_handle) \<Rightarrow> u32 \<Rightarrow> addr \<Rightarrow> u64 \<Rightarrow> atom" where
  "new_link as ty mem cnt b t =
     \<lparr>handle = next_handle as, atype = ty,
      name = cstrcpy ATOMSPACE_NAME_MAX (''Link-'' @ fmt_u (next_handle as)),
      tv = \<lparr>strength = float_one, confidence = float_one\<rparr>, av = \<lparr>sti = 0, lti = 0, vlti = 0\<rparr>,
      outgoing = Some b, targets = map mem [0..<unat cnt], outgoing_count = cnt,
      timestamp = t, distributed = distributed_mode as\<rparr>"

definition abandon_link :: "atom \<Rightarrow> atomspace \<Rightarrow> atomspace" where
  "abandon_link a as =
     as\<lparr>atoms := (atoms as)(unat (atom_count as) := a), next_handle := next_handle as + 1\<rparr>"

lemma new_node_ok: "atom_ok as (new_node as ty s t)"
  by (simp add: atom_ok_def new_node_def atomspace_consts cstrcpy_length)

lemma new_link_ok: "cnt \<noteq> 0 \<Longrightarrow> atom_ok as (new_link as ty mem cnt b t)"
  by (simp add: atom_ok_def new_link_def atomspace_consts cstrcpy_length)

lemma add_node_eq:
  assumes "as_inv as" "0 < handle_room as"
  shows "atomspace_add_node (Some as) ty (Some s) os =
           (if unat (atom_count as) < 3072
            then (next_handle as, Some (push_atom (new_node as ty s (fst (time os))) as), snd (time os))
            else (0, Some as, os))"
proof (cases "unat (atom_count as) < 3072")
  case True
  have full: "\<not> atom_capacity as \<le> atom_count as"
    using assms(1) True by (simp add: as_inv_def word_le_nat_alt)
  have push: "(set_atom (unat (atom_count as)) (new_node as ty s t) as)
                \<lparr>next_handle := next_handle as + 1, atom_count := atom_count as + 1\<rparr>
              = push_atom (new_node as ty s t) as" for t
    by (simp add: set_atom_def push_atom_def)
  have bc: "(if distributed_mode as
             then snd (atomspace_broadcast_atom (Some (push_atom (new_node as ty s t) as)) (next_handle as))
             else Some (push_atom (new_node as ty s t) as))
            = Some (push_atom (new_node as ty s t) as)" for t
    using broadcast_pushed[OF assms(1) True assms(2) new_node_ok[of as ty s t]] by simp
  have node: "(atoms as i)\<lparr>handle := next_handle as, atype := ty, name := cstrcpy ATOMSPACE_NAME_MAX s,
                tv := \<lparr>strength = float_one, confidence = float_one\<rparr>,
                av := \<lparr>sti = 0, lti = 0, vlti = 0\<rparr>, outgoing := None, targets := [],
                outgoing_count := 0, timestamp := t, distributed := distributed_mode as\<rparr>
              = new_node as ty s t" for i t
    by (rule atom.equality) (simp_all add: new_node_def)
  show ?thesis
    by (simp only: atomspace_add_node_def Let_def case_prod_beta prod.case option.case fst_conv snd_conv
          if_P[OF True] if_not_P[OF full] node push bc)
next
  case False
  then have "atom_capacity as \<le> atom_count as"
    using assms(1) by (simp add: as_inv_def word_le_nat_alt)
  with False show ?thesis by (simp add: atomspace_add_node_def)
qed

lemma add_link_eq:
  assumes "as_inv as" "0 < handle_room as"
  shows "\<exists>a. atomspace_add_link (Some as) ty (Some mem) cnt os =
           (if cnt = 0 \<or> \<not> unat (atom_count as) < 3072 then (0, Some as, os)
            else case calloc os of
              (None, os1) \<Rightarrow> (0, Some (abandon_link a as), os1)
            | (Some b, os1) \<Rightarrow>
                (next_handle as, Some (push_atom (new_link as ty mem cnt b (fst (time os1))) as),
                 snd (time os1)))"
proof (cases "cnt = 0 \<or> \<not> unat (atom_count as) < 3072")
  case True
  then have "cnt = 0 \<or> atom_capacity as \<le> atom_count as"
    using assms(1) by (auto simp: as_inv_def word_le_nat_alt)
  with True show ?thesis by (auto simp: atomspace_add_link_def)
next
  case False
  then have cnt: "cnt \<noteq> 0" and lt: "unat (atom_count as) < 3072" by auto
  have full: "\<not> atom_capacity as \<le> atom_count as"
    using assms(1) lt by (simp add: as_inv_def word_le_nat_alt)
  have push: "(abandon_link a as)\<lparr>atom_count := atom_count as + 1\<rparr> = push_atom a as" for a
    by (simp add: abandon_link_def push_atom_def)
  have bc: "(if distributed_mode as
             then snd (atomspace_broadcast_atom (Some (push_atom (new_link as ty mem cnt b t) as)) (next_handle as))
             else Some (push_atom (new_link as ty mem cnt b t) as))
            = Some (push_atom (new_link as ty mem cnt b t) as)" for b t
    using broadcast_pushed[OF assms(1) lt assms(2) new_link_ok[OF cnt, of as ty mem b t]] by simp
  have link: "(atoms as i)\<lparr>handle := next_handle as, atype := ty,
                name := cstrcpy ATOMSPACE_NAME_MAX (''Link-'' @ fmt_u (next_handle as)),
                outgoing := Some b, targets := map mem [0..<unat cnt], outgoing_count := cnt,
                tv := \<lparr>strength = float_one, confidence = float_one\<rparr>,
                av := \<lparr>sti = 0, lti = 0, vlti = 0\<rparr>,
                timestamp := t, distributed := distributed_mode as\<rparr>
              = new_link as ty mem cnt b t" for i b t
    by (rule atom.equality) (simp_all add: new_link_def)
  have drop: "set_atom (unat (atom_count as)) a (as\<lparr>next_handle := next_handle as + 1\<rparr>) = abandon_link a as" for a
    by (simp add: set_atom_def abandon_link_def)
  show ?thesis
    by (rule exI[where x = "(atoms as (unat (atom_count as)))\<lparr>handle := next_handle as, atype := ty,
           name := cstrcpy ATOMSPACE_NAME_MAX (''Link-'' @ fmt_u (next_handle as)),
           outgoing := None, targets := []\<rparr>"])
      (simp only: atomspace_add_link_def Let_def case_prod_beta prod.case option.case fst_conv snd_conv
          if_not_P[OF False] if_not_P[OF cnt] if_not_P[OF full] link push bc drop)
qed

lemma abandon_link_sel [simp]:
  "atom_count (abandon_link a as) = atom_count as"
  "next_handle (abandon_link a as) = next_handle as + 1"
  "distributed_mode (abandon_link a as) = distributed_mode as"
  "atoms_addr (abandon_link a as) = atoms_addr as"
  by (simp_all add: abandon_link_def)

lemma abandon_link_atoms: "i < unat (atom_count as) \<Longrightarrow> atoms (abandon_link a as) i = atoms as i"
  by (simp add: abandon_link_def)

lemma abandon_link_inv [inv_intros]:
  assumes inv: "as_inv as" and room: "0 < handle_room as"
  shows "as_inv (abandon_link a as)"
proof -
  have "next_handle as + 1 \<noteq> 0"
    using room_next_handle[OF room] by (metis nat.distinct(1) unat_0)
  moreover have "slot_ok (abandon_link a as) i" if "i < unat (atom_count as)" for i
    using as_inv_slot[OF inv that] less_next_handle[OF room, of "handle (atoms as i)"] that
    by (auto simp: slot_ok_def abandon_link_atoms)
  ultimately show ?thesis
    using inv by (auto simp: as_inv_def abandon_link_def slot_ok_def)
qed

lemma abandon_link_lookup: "lookup (abandon_link a as) = lookup as"
proof (rule ext)
  fix h
  have "List.find (\<lambda>i. handle (atoms (abandon_link a as) i) = h) [0..<unat (atom_count as)]
      = List.find (\<lambda>i. handle (atoms as i) = h) [0..<unat (atom_count as)]"
    by (rule find_cong_pred) (simp add: abandon_link_atoms)
  then show "lookup (abandon_link a as) h = lookup as h"
    by (auto simp: lookup_def atomspace_get_atom_def abandon_link_atoms
          dest!: find_SomeD split: option.splits intro!: option.map_cong)
qed

lemma abandon_link_room: "0 < handle_room as \<Longrightarrow> Suc (handle_room (abandon_link a as)) = handle_room as"
  using room_next_handle[of as] by (simp add: handle_room_def)

section \<open>The store interface and its clients\<close>

text \<open>
  What a client of the AtomSpace may rely on when it adds atoms: a request either yields a handle
  larger than every handle in use, bound to an atom that fits the request, with every other binding
  kept, or it yields 0 and no binding changes. A request that needs no allocation of its own (\<open>simple\<close>) fails only because
  the store is full, and a full store refuses everything. \<open>room\<close> counts the handles left before
  the counter wraps.
\<close>

locale atom_store =
  fixes invar :: "'s \<Rightarrow> bool"
    and room :: "'s \<Rightarrow> nat"
    and look :: "'s \<Rightarrow> atom_handle \<Rightarrow> atom option"
    and full :: "'s \<Rightarrow> bool"
    and add :: "'r \<Rightarrow> 's \<Rightarrow> atom_handle \<times> 's"
    and simple :: "'r \<Rightarrow> bool"
    and fits :: "'r \<Rightarrow> atom \<Rightarrow> bool"
  assumes add_invar: "invar s \<Longrightarrow> 0 < room s \<Longrightarrow> add r s = (h, s') \<Longrightarrow> invar s'"
    and add_room: "invar s \<Longrightarrow> 0 < room s \<Longrightarrow> add r s = (h, s') \<Longrightarrow> room s \<le> Suc (room s')"
    and add_zero: "invar s \<Longrightarrow> 0 < room s \<Longrightarrow> add r s = (0, s') \<Longrightarrow> look s' = look s"
    and add_new: "invar s \<Longrightarrow> 0 < room s \<Longrightarrow> add r s = (h, s') \<Longrightarrow> h \<noteq> 0 \<Longrightarrow>
      (\<forall>g a. look s g = Some a \<longrightarrow> g < h)
      \<and> (\<exists>a. fits r a \<and> handle a = h \<and> look s' = (look s)(h \<mapsto> a))"
    and add_full: "invar s \<Longrightarrow> full s \<Longrightarrow> add r s = (0, s)"
    and simple_zero: "invar s \<Longrightarrow> 0 < room s \<Longrightarrow> simple r \<Longrightarrow> add r s = (0, s') \<Longrightarrow> full s'"
begin

text \<open>
  Two nodes and a link between them: the shape of every fact HyperCog records about a VM. Between
  the two nodes the client may do something that does not concern the store, such as reading the
  clock, and compute the second node from it.
\<close>

definition neutral :: "('s \<Rightarrow> 's) \<Rightarrow> bool" where
  "neutral f \<longleftrightarrow>
     (\<forall>s. invar (f s) = invar s \<and> room (f s) = room s \<and> look (f s) = look s \<and> full (f s) = full s)"

definition add_pair :: "'r \<Rightarrow> ('s \<Rightarrow> 's) \<Rightarrow> ('s \<Rightarrow> 'r) \<Rightarrow> (atom_handle \<Rightarrow> atom_handle \<Rightarrow> 'r) \<Rightarrow> 's
    \<Rightarrow> (atom_handle \<times> atom_handle \<times> atom_handle) \<times> 's" where
  "add_pair r1 f r2 r3 s =
     (let (h1, s1) = add r1 s; (h2, s2) = add (r2 s1) (f s1); (h3, s3) = add (r3 h1 h2) s2
      in ((h1, h2, h3), s3))"

lemma add_keeps:
  assumes "invar s" "0 < room s" "add r s = (h, s')" "look s g = Some a"
  shows "look s' g = Some a"
proof (cases "h = 0")
  case True
  with assms show ?thesis by (metis add_zero)
next
  case False
  with add_new[OF assms(1-3)] assms(4) show ?thesis by (metis fun_upd_apply order_less_irrefl)
qed

lemma add_fresh: "invar s \<Longrightarrow> 0 < room s \<Longrightarrow> add r s = (h, s') \<Longrightarrow> h \<noteq> 0 \<Longrightarrow> look s h = None"
  using add_new by (metis not_Some_eq order_less_irrefl)

lemma add_pair_ok:
  assumes "invar s" "3 \<le> room s" "simple r1" "\<And>s. simple (r2 s)" "neutral f"
    and "add_pair r1 f r2 r3 s = ((h1, h2, h3), s3)" "h3 \<noteq> 0"
  shows "invar s3 \<and> h1 \<noteq> 0 \<and> h2 \<noteq> 0 \<and> h1 < h2 \<and> h2 < h3
    \<and> (\<forall>g a. look s g = Some a \<longrightarrow> g < h1)
    \<and> (\<exists>a1 a2 a3. fits r1 a1 \<and> fits (r2 (snd (add r1 s))) a2 \<and> fits (r3 h1 h2) a3
          \<and> look s3 = (look s)(h1 \<mapsto> a1, h2 \<mapsto> a2, h3 \<mapsto> a3))"
proof -
  obtain s1 s2 where e: "add r1 s = (h1, s1)" "add (r2 s1) (f s1) = (h2, s2)"
      "add (r3 h1 h2) s2 = (h3, s3)"
    using assms(6) by (auto simp: add_pair_def Let_def split: prod.splits)
  have f: "invar (f s1) = invar s1" "room (f s1) = room s1" "look (f s1) = look s1" "full (f s1) = full s1"
    using assms(5) by (auto simp: neutral_def)
  have r0: "0 < room s" using assms(2) by simp
  have i1: "invar (f s1)" and r1: "2 \<le> room (f s1)"
    using add_invar[OF assms(1) r0 e(1)] add_room[OF assms(1) r0 e(1)] assms(2) f by auto
  then have r1': "0 < room (f s1)" by simp
  have i2: "invar s2" and r2: "0 < room s2"
    using add_invar[OF i1 r1' e(2)] add_room[OF i1 r1' e(2)] r1 by auto
  have nf2: "\<not> full s2" using add_full[OF i2] e(3) assms(7) by auto
  have h2: "h2 \<noteq> 0" using simple_zero[OF i1 r1' assms(4)] e(2) nf2 by blast
  then have "\<not> full s1" using add_full[OF i1] e(2) f by auto
  then have h1: "h1 \<noteq> 0" using simple_zero[OF assms(1) r0 assms(3)] e(1) by blast
  obtain a1 where a1: "\<forall>g a. look s g = Some a \<longrightarrow> g < h1" "fits r1 a1" "look s1 = (look s)(h1 \<mapsto> a1)"
    using add_new[OF assms(1) r0 e(1) h1] by blast
  obtain a2 where a2: "\<forall>g a. look s1 g = Some a \<longrightarrow> g < h2" "fits (r2 s1) a2" "look s2 = (look s1)(h2 \<mapsto> a2)"
    using add_new[OF i1 r1' e(2) h2] f by auto
  obtain a3 where a3: "\<forall>g a. look s2 g = Some a \<longrightarrow> g < h3" "fits (r3 h1 h2) a3" "look s3 = (look s2)(h3 \<mapsto> a3)"
    using add_new[OF i2 r2 e(3) assms(7)] by blast
  have "h1 < h2" using a2(1) a1(3) by simp
  moreover have "h2 < h3" using a3(1) a2(3) by simp
  ultimately show ?thesis
    using a1 a2 a3 h1 h2 add_invar[OF i2 r2 e(3)] e(1) by auto
qed

lemma add_pair_keeps:
  assumes "invar s" "3 \<le> room s" "neutral f" "add_pair r1 f r2 r3 s = (hs, s3)"
  shows "invar s3 \<and> (look s g = Some a \<longrightarrow> look s3 g = Some a)"
proof -
  obtain h1 h2 h3 s1 s2
    where e: "add r1 s = (h1, s1)" "add (r2 s1) (f s1) = (h2, s2)" "add (r3 h1 h2) s2 = (h3, s3)"
    using assms(4) by (auto simp: add_pair_def Let_def split: prod.splits)
  have f: "invar (f s1) = invar s1" "room (f s1) = room s1" "look (f s1) = look s1"
    using assms(3) by (auto simp: neutral_def)
  have r0: "0 < room s" using assms(2) by simp
  have i1: "invar (f s1)" and r1: "2 \<le> room (f s1)"
    using add_invar[OF assms(1) r0 e(1)] add_room[OF assms(1) r0 e(1)] assms(2) f by auto
  have i2: "invar s2" and r2: "0 < room s2"
    using add_invar[OF i1 _ e(2)] add_room[OF i1 _ e(2)] r1 by auto
  have "look s3 g = Some a" if "look s g = Some a"
  proof -
    from add_keeps[OF assms(1) r0 e(1) that] have "look (f s1) g = Some a" by (simp add: f)
    from add_keeps[OF i1 _ e(2) this] r1 have "look s2 g = Some a" by simp
    from add_keeps[OF i2 r2 e(3) this] show ?thesis .
  qed
  with add_invar[OF i2 r2 e(3)] show ?thesis by blast
qed

end

text \<open>The AtomSpace provides the interface.\<close>

datatype atom_request = AddNode atom_type string | AddLink atom_type "nat \<Rightarrow> atom_handle" u32

fun as_add :: "atom_request \<Rightarrow> atomspace \<times> os \<Rightarrow> atom_handle \<times> (atomspace \<times> os)" where
  "as_add (AddNode ty s) (as, os) =
     (case atomspace_add_node (Some as) ty (Some s) os of
        (h, p, os') \<Rightarrow> (h, (case p of None \<Rightarrow> as | Some as' \<Rightarrow> as'), os'))"
| "as_add (AddLink ty mem cnt) (as, os) =
     (case atomspace_add_link (Some as) ty (Some mem) cnt os of
        (h, p, os') \<Rightarrow> (h, (case p of None \<Rightarrow> as | Some as' \<Rightarrow> as'), os'))"

fun as_simple :: "atom_request \<Rightarrow> bool" where
  "as_simple (AddNode _ _) = True"
| "as_simple (AddLink _ _ _) = False"

fun as_fits :: "atom_request \<Rightarrow> atom \<Rightarrow> bool" where
  "as_fits (AddNode ty s) a \<longleftrightarrow>
     atype a = ty \<and> name a = cstrcpy ATOMSPACE_NAME_MAX s \<and> targets a = [] \<and> outgoing a = None
     \<and> tv a = \<lparr>strength = float_one, confidence = float_one\<rparr>"
| "as_fits (AddLink ty mem cnt) a \<longleftrightarrow>
     atype a = ty \<and> targets a = map mem [0..<unat cnt] \<and> outgoing_count a = cnt
     \<and> name a = cstrcpy ATOMSPACE_NAME_MAX (''Link-'' @ fmt_u (handle a))
     \<and> tv a = \<lparr>strength = float_one, confidence = float_one\<rparr>"

lemma new_node_fits: "as_fits (AddNode ty s) (new_node as ty s t)"
  by (simp add: new_node_def)

lemma new_link_fits: "as_fits (AddLink ty mem cnt) (new_link as ty mem cnt b t)"
  by (simp add: new_link_def)

lemma as_inv_next: "as_inv as \<Longrightarrow> next_handle as \<noteq> 0"
  by (simp add: as_inv_def)

lemma as_add_cases:
  assumes "as_inv as" "0 < handle_room as" "as_add r (as, os) = (h, as', os')"
  obtains (full) "h = 0" "as' = as" "as_simple r \<Longrightarrow> 3072 \<le> unat (atom_count as)"
  | (abandoned) a where "h = 0" "as' = abandon_link a as" "\<not> as_simple r"
  | (pushed) a where "h = next_handle as" "as' = push_atom a as" "unat (atom_count as) < 3072"
      "atom_ok as a" "as_fits r a"
proof (cases r)
  case (AddNode ty s)
  show ?thesis
  proof (cases "unat (atom_count as) < 3072")
    case True
    with AddNode assms(3) add_node_eq[OF assms(1,2), of ty s os] show ?thesis
      by (intro pushed[of "new_node as ty s (fst (time os))"])
        (use new_node_ok new_node_fits in auto)
  next
    case False
    with AddNode assms(3) add_node_eq[OF assms(1,2), of ty s os] show ?thesis
      by (intro full) auto
  qed
next
  case (AddLink ty mem cnt)
  obtain a where eq: "atomspace_add_link (Some as) ty (Some mem) cnt os =
           (if cnt = 0 \<or> \<not> unat (atom_count as) < 3072 then (0, Some as, os)
            else case calloc os of
              (None, os1) \<Rightarrow> (0, Some (abandon_link a as), os1)
            | (Some b, os1) \<Rightarrow>
                (next_handle as, Some (push_atom (new_link as ty mem cnt b (fst (time os1))) as),
                 snd (time os1)))"
    using add_link_eq[OF assms(1,2)] by blast
  show ?thesis
  proof (cases "cnt = 0 \<or> \<not> unat (atom_count as) < 3072")
    case True
    with eq AddLink assms(3) show ?thesis by (auto intro: full)
  next
    case False
    show ?thesis
    proof (cases "fst (calloc os)")
      case None
      with eq AddLink assms(3) False show ?thesis
        by (cases "calloc os") (auto intro: abandoned)
    next
      case (Some b)
      with eq AddLink assms(3) False show ?thesis
        by (cases "calloc os")
          (auto intro!: pushed[of "new_link as ty mem cnt b (fst (time (snd (calloc os))))"]
            new_link_ok new_link_fits simp del: as_fits.simps)
    qed
  qed
qed


interpretation store: atom_store
  "\<lambda>(as, os). as_inv as" "\<lambda>(as, os). handle_room as" "\<lambda>(as, os). lookup as"
  "\<lambda>(as, os). 3072 \<le> unat (atom_count as)" as_add as_simple as_fits
proof (unfold_locales, goal_cases)
  case (1 s r h s')
  then show ?case
    by (cases s; cases s'; simp) (metis as_add_cases push_atom_inv abandon_link_inv)
next
  case (2 s r h s')
  then show ?case
    by (cases s; cases s'; simp)
      (metis as_add_cases push_atom_room abandon_link_room le_refl le_SucI)
next
  case (3 s r s')
  then obtain as os as' os' where s: "s = (as, os)" "s' = (as', os')" by (metis surj_pair)
  from 3 s have *: "as_inv as" "0 < handle_room as" "as_add r (as, os) = (0, as', os')" by auto
  then show ?case
    unfolding s prod.case
    by (cases rule: as_add_cases) (use as_inv_next[OF *(1)] in \<open>auto simp: abandon_link_lookup\<close>)
next
  case (4 s r h s')
  then obtain as os as' os' where s: "s = (as, os)" "s' = (as', os')" by (metis surj_pair)
  from 4 s have *: "as_inv as" "0 < handle_room as" "as_add r (as, os) = (h, as', os')" by auto
  from * show ?case
  proof (cases rule: as_add_cases)
    case (pushed a)
    have "g < next_handle as" if "lookup as g = Some b" for g b
      using that lookup_Some_iff[OF *(1), of g b] as_inv_slot[OF *(1)] by (auto simp: slot_ok_def)
    with s pushed push_atom_lookup[OF *(1) pushed(3) *(2) pushed(4)]
    show ?thesis by (auto simp: atom_ok_def)
  qed (use 4 in auto)
next
  case (5 s r)
  then obtain as os where s: "s = (as, os)" by (metis surj_pair)
  with 5 have "atom_capacity as \<le> atom_count as" by (simp add: as_inv_def word_le_nat_alt)
  with s show ?case
    by (cases r) (simp_all add: atomspace_add_node_def atomspace_add_link_def)
next
  case (6 s r s')
  then obtain as os as' os' where s: "s = (as, os)" "s' = (as', os')" by (metis surj_pair)
  from 6 s have *: "as_inv as" "0 < handle_room as" "as_add r (as, os) = (0, as', os')"
    and "as_simple r" by auto
  from * \<open>as_simple r\<close> show ?case
    unfolding s prod.case
    by (cases rule: as_add_cases) (use as_inv_next[OF *(1)] in auto)
qed

section \<open>Updating an atom in place\<close>

lemma set_atom_sel [simp]:
  "atoms (set_atom i a as) = (atoms as)(i := a)"
  "atom_count (set_atom i a as) = atom_count as"
  "next_handle (set_atom i a as) = next_handle as"
  "atom_capacity (set_atom i a as) = atom_capacity as"
  "atoms_addr (set_atom i a as) = atoms_addr as"
  "distributed_mode (set_atom i a as) = distributed_mode as"
  by (simp_all add: set_atom_def)

text \<open>An update that leaves the handle, the name and the outgoing set of the atom alone.\<close>

definition same_shape :: "atom \<Rightarrow> atom \<Rightarrow> bool" where
  "same_shape a b \<longleftrightarrow>
     handle b = handle a \<and> name b = name a \<and> outgoing b = outgoing a \<and> targets b = targets a
     \<and> outgoing_count b = outgoing_count a \<and> (distributed a \<longrightarrow> distributed b)"

lemma set_atom_inv [inv_intros]:
  assumes "as_inv as" "i < unat (atom_count as)" "same_shape (atoms as i) a"
  shows "as_inv (set_atom i a as)"
  using assms by (auto simp: as_inv_def slot_ok_def same_shape_def)

lemma set_atom_lookup:
  assumes inv: "as_inv as" and lt: "i < unat (atom_count as)" and same: "same_shape (atoms as i) a"
  shows "lookup (set_atom i a as) = (lookup as)(handle a \<mapsto> a)"
proof (rule ext)
  fix h
  have g: "atomspace_get_atom (Some (set_atom i a as)) h = atomspace_get_atom (Some as) h"
  proof -
    have "List.find (\<lambda>j. handle (atoms (set_atom i a as) j) = h) [0..<unat (atom_count as)]
        = List.find (\<lambda>j. handle (atoms as j) = h) [0..<unat (atom_count as)]"
      using same by (intro find_cong_pred) (simp add: same_shape_def)
    then show ?thesis by (simp add: atomspace_get_atom_def)
  qed
  show "lookup (set_atom i a as) h = ((lookup as)(handle a \<mapsto> a)) h"
  proof (cases "h = handle a")
    case True
    then have "atomspace_get_atom (Some as) h = Some i"
      using get_atom_Some_iff[OF inv] lt same by (simp add: same_shape_def)
    with True g show ?thesis by (simp add: lookup_def)
  next
    case False
    then have "atomspace_get_atom (Some as) h \<noteq> Some i"
      using get_atom_Some_iff[OF inv] same by (auto simp: same_shape_def)
    with False g show ?thesis by (cases "atomspace_get_atom (Some as) h") (auto simp: lookup_def)
  qed
qed

lemma broadcast_eq:
  assumes "as_inv as"
  shows "snd (atomspace_broadcast_atom (Some as) h) = Some as"
proof (cases "distributed_mode as \<and> atomspace_get_atom (Some as) h \<noteq> None")
  case True
  then obtain i where i: "atomspace_get_atom (Some as) h = Some i" by auto
  then have "i < unat (atom_count as)" using get_atom_Some_iff[OF assms] by blast
  with True have "distributed (atoms as i)" using as_inv_slot[OF assms] by (simp add: slot_ok_def)
  then have "(atoms as i)\<lparr>distributed := True\<rparr> = atoms as i" by simp
  with True i show ?thesis by (simp add: atomspace_broadcast_atom_def set_atom_def)
qed (auto simp: atomspace_broadcast_atom_def split: option.split)

lemma set_tv_eq:
  assumes "as_inv as"
  shows "atomspace_set_tv (Some as) h v =
           (case atomspace_get_atom (Some as) h of
              None \<Rightarrow> (ENOENT, Some as)
            | Some i \<Rightarrow> (OK, Some (set_atom i ((atoms as i)\<lparr>tv := v\<rparr>) as)))"
proof (cases "atomspace_get_atom (Some as) h")
  case None
  then show ?thesis by (simp add: atomspace_set_tv_def)
next
  case (Some i)
  then have "i < unat (atom_count as)" using get_atom_Some_iff[OF assms] by blast
  then have "as_inv (set_atom i ((atoms as i)\<lparr>tv := v\<rparr>) as)"
    using assms by (intro set_atom_inv) (simp_all add: same_shape_def)
  with Some broadcast_eq show ?thesis by (simp add: atomspace_set_tv_def Let_def)
qed

lemma set_tv_effect:
  assumes "as_inv as" "lookup as h = Some a"
  shows "\<exists>as'. atomspace_set_tv (Some as) h v = (OK, Some as') \<and> as_inv as'
           \<and> lookup as' = (lookup as)(h \<mapsto> a\<lparr>tv := v\<rparr>)"
proof -
  obtain i where i: "atomspace_get_atom (Some as) h = Some i" "a = atoms as i"
    using assms(2) by (auto simp: lookup_def)
  then have lt: "i < unat (atom_count as)" and hd: "handle a = h"
    using get_atom_Some_iff[OF assms(1)] by auto
  have same: "same_shape (atoms as i) ((atoms as i)\<lparr>tv := v\<rparr>)" by (simp add: same_shape_def)
  show ?thesis
    using set_tv_eq[OF assms(1), of h v] i set_atom_inv[OF assms(1) lt same]
      set_atom_lookup[OF assms(1) lt same] hd by simp
qed

section \<open>Queries\<close>

lemma set_query_matches:
  "set (query_matches as pat) =
     {handle (atoms as i) |i. i < unat (atom_count as) \<and> sublist pat (name (atoms as i))}"
  by (auto simp: query_matches_def strstr_sublist[symmetric])

lemma sorted_query_matches:
  assumes "as_inv as"
  shows "sorted_wrt (<) (query_matches as pat)"
proof -
  have "sorted_wrt (\<lambda>i j. handle (atoms as i) < handle (atoms as j)) [0..<n]"
    if "n \<le> unat (atom_count as)" for n
    using that assms by (induction n) (auto simp: sorted_wrt_append as_inv_def)
  then show ?thesis
    by (auto simp: query_matches_def sorted_wrt_map intro: sorted_wrt_filter)
qed

lemma query_matches_count:
  assumes "as_inv as"
  shows "unat (of_nat (length (query_matches as pat)) :: u32) = length (query_matches as pat)"
proof -
  have "length (query_matches as pat) \<le> unat (atom_count as)"
    by (simp add: query_matches_def order_trans[OF length_filter_le])
  also have "\<dots> \<le> 3072" using assms by (simp add: as_inv_def)
  finally show ?thesis by (simp add: unat_of_nat)
qed

lemma query_lookup:
  assumes "as_inv as" "h \<in> set (query_matches as pat)"
  shows "\<exists>a. lookup as h = Some a \<and> sublist pat (name a)"
  using assms lookup_slot[OF assms(1)] by (auto simp: set_query_matches)

text \<open>When no allocation fails the result is complete.\<close>

definition mem_ok :: "os \<Rightarrow> bool" where
  "mem_ok os \<longleftrightarrow> (\<forall>k. os_mem os k)"

lemma mem_ok_calloc: "mem_ok os \<Longrightarrow> \<exists>a os'. calloc os = (Some a, os') \<and> mem_ok os'"
  by (simp add: mem_ok_def calloc_def Let_def)

lemma mem_ok_free [simp]: "mem_ok (free a os) = mem_ok os"
  by (simp add: mem_ok_def free_def)

lemma mem_ok_plain [simp]: "mem_ok (os_plain t)"
  by (simp add: mem_ok_def os_plain_def)

lemma query_ok:
  assumes "as_inv as" "mem_ok os"
  shows "\<exists>q os'. atomspace_query (Some as) (Some pat) os = (Some q, os') \<and> mem_ok os'
           \<and> handles q = query_matches as pat \<and> unat (count q) = length (handles q)"
proof -
  obtain r os1 where 1: "calloc os = (Some r, os1)" "mem_ok os1" using mem_ok_calloc assms(2) by blast
  obtain t os2 where 2: "calloc os1 = (Some t, os2)" "mem_ok os2" using mem_ok_calloc 1(2) by blast
  obtain b os3 where 3: "calloc os2 = (Some b, os3)" "mem_ok os3" using mem_ok_calloc 2(2) by blast
  show ?thesis
    using 1 2 3 query_matches_count[OF assms(1), of pat]
    by (cases "query_matches as pat = []") (simp_all add: atomspace_query_def Let_def)
qed

lemma query_release:
  assumes "os_wf os" "atomspace_query p pat os = (r, os')"
  shows "os_live (atomspace_free_query_result r os') = os_live os"
  using assms
  by (auto simp: atomspace_query_def atomspace_free_query_result_def calloc_def free_def Let_def os_wf_def
        split: option.splits if_splits)

lemma query_wf:
  assumes "os_wf os" "atomspace_query p pat os = (r, os')"
  shows "os_wf os'"
proof -
  have "os_live os' \<subseteq> os_live os \<union> {os_next os ..< os_next os'}"
    using assms(2)
    by (auto simp: atomspace_query_def calloc_def free_def Let_def split: option.splits if_splits)
  moreover have "os_next os \<le> os_next os'"
    using assms(2)
    by (auto simp: atomspace_query_def calloc_def free_def Let_def split: option.splits if_splits)
  moreover have "finite (os_live os')"
    using calculation(1) assms(1) by (meson finite_Un finite_atLeastLessThan finite_subset os_wf_def)
  ultimately show ?thesis using assms(1) by (fastforce simp: os_wf_def)
qed

lemma free_query_wf: "os_wf os \<Longrightarrow> os_wf (atomspace_free_query_result r os)"
  by (auto simp: atomspace_free_query_result_def free_wf split: option.split)

section \<open>Ownership of memory\<close>

text \<open>The blocks reachable from an AtomSpace, besides the structure itself.\<close>

definition owned :: "atomspace \<Rightarrow> addr set" where
  "owned as = set_option (atoms_addr as)
     \<union> (\<Union>i < unat (atom_count as). set_option (outgoing (atoms as i)))"

definition owns :: "addr set \<Rightarrow> addr \<Rightarrow> atomspace \<Rightarrow> os \<Rightarrow> bool" where
  "owns L sp as os \<longleftrightarrow>
     os_wf os \<and> os_live os = L \<union> insert sp (owned as) \<and> L \<inter> insert sp (owned as) = {}"

lemma fold_free_live:
  "os_live (fold (\<lambda>i os. case f i of None \<Rightarrow> os | Some b \<Rightarrow> free b os) xs os)
     = os_live os - (\<Union>i \<in> set xs. set_option (f i))"
  by (induction xs arbitrary: os) (auto split: option.split)

lemma destroy_live:
  assumes "atoms_addr as \<noteq> None"
  shows "os_live (atomspace_destroy (Some (sp, as)) os) = os_live os - insert sp (owned as)"
  using assms
  by (auto simp: atomspace_destroy_def Let_def fold_free_live owned_def lessThan_atLeast0)

lemma owns_destroy:
  assumes "as_inv as" "owns L sp as os"
  shows "os_live (atomspace_destroy (Some (sp, as)) os) = L"
proof -
  have "atoms_addr as \<noteq> None" using assms(1) by (simp add: as_inv_def)
  from destroy_live[OF this] assms(2) show ?thesis by (auto simp: owns_def)
qed

lemma owned_push:
  assumes "unat (atom_count as) < 3072"
  shows "owned (push_atom a as) = owned as \<union> set_option (outgoing a)"
  using assms by (auto simp: owned_def push_atom_count lessThan_Suc)

lemma owned_abandon [simp]: "owned (abandon_link a as) = owned as"
  by (simp add: owned_def abandon_link_atoms)

lemma owned_set_atom:
  "outgoing a = outgoing (atoms as i) \<Longrightarrow> owned (set_atom i a as) = owned as"
  by (auto simp: owned_def split: if_splits)

lemma owns_time: "owns L sp as (snd (time os)) = owns L sp as os"
  by (simp add: owns_def)

lemma owns_calloc_None: "owns L sp as os \<Longrightarrow> calloc os = (None, os') \<Longrightarrow> owns L sp as os'"
  by (auto simp: owns_def dest: calloc_None_live calloc_wf)

lemma owns_add:
  assumes "as_inv as" "0 < handle_room as" "owns L sp as os" "as_add r (as, os) = (h, as', os')"
  shows "owns L sp as' os'"
proof (cases r)
  case (AddNode ty s)
  have "owns L sp (push_atom (new_node as ty s t) as) os" if "unat (atom_count as) < 3072" for t
    using assms(3) that by (simp add: owns_def owned_push new_node_def)
  with AddNode assms(3,4) add_node_eq[OF assms(1,2), of ty s os] show ?thesis
    by (auto simp: owns_time split: if_splits)
next
  case (AddLink ty mem cnt)
  obtain a where eq: "atomspace_add_link (Some as) ty (Some mem) cnt os =
           (if cnt = 0 \<or> \<not> unat (atom_count as) < 3072 then (0, Some as, os)
            else case calloc os of
              (None, os1) \<Rightarrow> (0, Some (abandon_link a as), os1)
            | (Some b, os1) \<Rightarrow>
                (next_handle as, Some (push_atom (new_link as ty mem cnt b (fst (time os1))) as),
                 snd (time os1)))"
    using add_link_eq[OF assms(1,2)] by blast
  show ?thesis
  proof (cases "cnt = 0 \<or> \<not> unat (atom_count as) < 3072")
    case True
    with eq AddLink assms(3,4) show ?thesis by auto
  next
    case False
    obtain q os1 where q: "calloc os = (q, os1)" by fastforce
    show ?thesis
    proof (cases q)
      case None
      with q eq AddLink assms(3,4) False owns_calloc_None[of L sp as os os1] show ?thesis
        by (auto simp: owns_def)
    next
      case (Some b)
      with q have c: "calloc os = (Some b, os1)" by simp
      have wf: "os_wf os" using assms(3) by (simp add: owns_def)
      have "as' = push_atom (new_link as ty mem cnt b (fst (time os1))) as" "os' = snd (time os1)"
        using c eq AddLink assms(4) False by auto
      moreover have "owns L sp (push_atom (new_link as ty mem cnt b t) as) os1" for t
        using assms(3) calloc_wf[OF wf c] calloc_fresh[OF wf c] calloc_Some_live[OF c] False
        by (auto simp: owns_def owned_push new_link_def)
      ultimately show ?thesis by (simp add: owns_time)
    qed
  qed
qed

section \<open>Runs of AtomSpace operations\<close>

text \<open>The operations a client may issue in any order; a query is followed by the release of its
  result, as every caller in the sources does.\<close>

datatype as_op =
    OpNode atom_type string
  | OpLink atom_type "nat \<Rightarrow> atom_handle" u32
  | OpSetTv atom_handle truth_value
  | OpSetAv atom_handle attention_value
  | OpBroadcast atom_handle
  | OpQuery string

fun as_step :: "as_op \<Rightarrow> atomspace \<times> os \<Rightarrow> atomspace \<times> os" where
  "as_step (OpNode ty s) (as, os) = snd (as_add (AddNode ty s) (as, os))"
| "as_step (OpLink ty mem cnt) (as, os) = snd (as_add (AddLink ty mem cnt) (as, os))"
| "as_step (OpSetTv h v) (as, os) =
     ((case snd (atomspace_set_tv (Some as) h v) of None \<Rightarrow> as | Some as' \<Rightarrow> as'), os)"
| "as_step (OpSetAv h v) (as, os) =
     ((case snd (atomspace_set_av (Some as) h v) of None \<Rightarrow> as | Some as' \<Rightarrow> as'), os)"
| "as_step (OpBroadcast h) (as, os) =
     ((case snd (atomspace_broadcast_atom (Some as) h) of None \<Rightarrow> as | Some as' \<Rightarrow> as'), os)"
| "as_step (OpQuery pat) (as, os) =
     (case atomspace_query (Some as) (Some pat) os of
        (r, os') \<Rightarrow> (as, atomspace_free_query_result r os'))"

definition as_good :: "addr set \<Rightarrow> addr \<Rightarrow> nat \<Rightarrow> atomspace \<times> os \<Rightarrow> bool" where
  "as_good L sp k s \<longleftrightarrow>
     as_inv (fst s) \<and> unat (next_handle (fst s)) \<le> Suc k \<and> owns L sp (fst s) (snd s)"

lemma as_good_room: "as_good L sp k (as, os) \<Longrightarrow> k < 2 ^ 64 - 2 \<Longrightarrow> 0 < handle_room as"
  by (simp add: as_good_def handle_room_def)

lemma as_good_add:
  assumes "as_good L sp k (as, os)" "k < 2 ^ 64 - 2"
  shows "as_good L sp (Suc k) (snd (as_add r (as, os)))"
proof -
  obtain h as' os' where e: "as_add r (as, os) = (h, as', os')" by (metis surj_pair)
  have inv: "as_inv as" and own: "owns L sp as os" and le: "unat (next_handle as) \<le> Suc k"
    using assms(1) by (auto simp: as_good_def)
  note room = as_good_room[OF assms]
  have "as_inv as'" using store.add_invar[of "(as, os)" r h "(as', os')"] inv room e by simp
  moreover have "owns L sp as' os'" using owns_add[OF inv room own e] .
  moreover have "unat (next_handle as') \<le> Suc (Suc k)"
    using inv room e
    by (cases rule: as_add_cases) (use le room_next_handle[OF room] in auto)
  ultimately show ?thesis using e by (simp add: as_good_def)
qed

lemma as_good_set:
  assumes "as_good L sp k (as, os)" "i < unat (atom_count as)"
    and "same_shape (atoms as i) a"
  shows "as_good L sp (Suc k) (set_atom i a as, os)"
proof -
  have "outgoing a = outgoing (atoms as i)" using assms(3) by (simp add: same_shape_def)
  from owned_set_atom[OF this] assms show ?thesis
    by (auto simp: as_good_def owns_def set_atom_inv)
qed

lemma as_good_mono: "as_good L sp k s \<Longrightarrow> as_good L sp (Suc k) s"
  by (simp add: as_good_def)

lemma as_good_step:
  assumes good: "as_good L sp k s" and k: "k < 2 ^ 64 - 2"
  shows "as_good L sp (Suc k) (as_step op s)"
proof -
  obtain as os where s: "s = (as, os)" by (metis surj_pair)
  have inv: "as_inv as" and own: "owns L sp as os" using good s by (auto simp: as_good_def)
  have slot: "atomspace_get_atom (Some as) h = Some i \<Longrightarrow> i < unat (atom_count as)" for h i
    using get_atom_Some_iff[OF inv] by blast
  show ?thesis
  proof (cases op)
    case (OpSetTv h v)
    then show ?thesis
      using good s slot set_tv_eq[OF inv, of h v]
      by (auto split: option.split simp: as_good_mono same_shape_def intro!: as_good_set)
  next
    case (OpSetAv h v)
    then show ?thesis
      using good s slot
      by (auto simp: atomspace_set_av_def as_good_mono same_shape_def split: option.split intro!: as_good_set)
  next
    case (OpBroadcast h)
    then show ?thesis
      using good s broadcast_eq[OF inv] by (simp add: as_good_mono)
  next
    case (OpQuery pat)
    obtain r os' where q: "atomspace_query (Some as) (Some pat) os = (r, os')" by fastforce
    have wf: "os_wf os" using own by (simp add: owns_def)
    with q have "owns L sp as (atomspace_free_query_result r os')"
      using own query_release[OF wf q] free_query_wf[OF query_wf[OF wf q]] by (simp add: owns_def)
    with OpQuery good s q show ?thesis by (simp add: as_good_def)
  qed (use good s k as_good_add in \<open>auto simp del: as_add.simps\<close>)
qed

text \<open>The counted run: the first component is the number of operations so far.\<close>

fun as_count_step :: "as_op \<Rightarrow> nat \<times> atomspace \<times> os \<Rightarrow> nat \<times> atomspace \<times> os" where
  "as_count_step op (k, s) = (Suc k, as_step op s)"

definition as_started :: "addr set \<Rightarrow> addr \<Rightarrow> nat \<times> atomspace \<times> os \<Rightarrow> bool" where
  "as_started L sp ks \<longleftrightarrow>
     fst ks = 0 \<and> (\<exists>dist os as os'. atomspace_init True dist os = (OK, Some (sp, as), os')
        \<and> os_wf os \<and> os_live os = L \<and> snd ks = (as, os'))"

lemma init_good:
  assumes "atomspace_init True dist os = (OK, Some (sp, as), os')" "os_wf os"
  shows "as_good (os_live os) sp 0 (as, os')"
proof -
  obtain ab os1 os2 where c: "calloc os = (Some sp, os1)" "calloc os1 = (Some ab, os2)"
    and as: "atoms_addr as = Some ab" "atom_count as = 0" "atom_capacity as = 3072" "next_handle as = 1"
    and os': "os' = os2 \<or> os' = snd (time os2)"
    using assms(1)
    by (auto simp: atomspace_init_def Let_def atomspace_consts split: prod.splits option.splits if_splits)
  have wf1: "os_wf os1" and wf2: "os_wf os2" using calloc_wf assms(2) c by blast+
  have "os_live os2 = os_live os \<union> {sp, ab}" "sp \<notin> os_live os" "ab \<notin> insert sp (os_live os)"
    using calloc_Some_live[OF c(1)] calloc_Some_live[OF c(2)] calloc_fresh[OF assms(2) c(1)]
      calloc_fresh[OF wf1 c(2)] by auto
  then have "owns (os_live os) sp as os2"
    using wf2 as by (auto simp: owns_def owned_def)
  with os' have "owns (os_live os) sp as os'" by (auto simp: owns_time)
  with as show ?thesis by (simp add: as_good_def as_inv_def)
qed

interpretation as_run: machine "as_started L sp" as_count_step
  "\<lambda>(k, s). k < 2 ^ 64 - 1 \<longrightarrow> as_good L sp k s" for L sp
proof (unfold_locales, goal_cases)
  case (1 ks)
  then show ?case by (auto simp: as_started_def intro: init_good)
next
  case (2 ks op)
  then show ?case by (cases ks) (auto intro!: as_good_step)
qed

lemma fold_as_count: "fold as_count_step ops (k, s) = (k + length ops, fold as_step ops s)"
  by (induction ops arbitrary: k s) auto

lemma as_run_good:
  assumes "atomspace_init True dist os = (OK, Some (sp, as), os')" "os_wf os"
    and "length ops < 2 ^ 64 - 1"
  shows "as_good (os_live os) sp (length ops) (fold as_step ops (as, os'))"
proof -
  have "as_started (os_live os) sp (0, as, os')"
    using assms(1,2) by (auto simp: as_started_def)
  from as_run.run_invar[OF this, of ops] show ?thesis
    unfolding fold_as_count prod.case add_0 using assms(3) by blast
qed

section \<open>A filled AtomSpace\<close>

text \<open>The AtomSpace of a node that is not distributed after \<open>n\<close> additions of the same node: the
  closed form of a run, used to instantiate the theorems at large states.\<close>

definition filled :: "string \<Rightarrow> u64 \<Rightarrow> nat \<Rightarrow> atomspace" where
  "filled s t n =
     \<lparr>atoms = (\<lambda>i. if i < n
        then \<lparr>handle = of_nat (Suc i), atype = ATOM_TYPE_CONCEPT, name = cstrcpy ATOMSPACE_NAME_MAX s,
              tv = \<lparr>strength = float_one, confidence = float_one\<rparr>, av = \<lparr>sti = 0, lti = 0, vlti = 0\<rparr>,
              outgoing = None, targets = [], outgoing_count = 0, timestamp = t, distributed = False\<rparr>
        else zero_atom),
      atoms_addr = Some 2, atom_count = of_nat n, atom_capacity = 3072,
      next_handle = of_nat (Suc n), distributed_mode = False, node_id = []\<rparr>"

lemma unat_of_nat_small: "n < 2 ^ LENGTH('a) \<Longrightarrow> unat (of_nat n :: 'a::len word) = n"
  by (simp add: unat_of_nat)

lemma filled_inv:
  assumes "n \<le> 3072"
  shows "as_inv (filled s t n)"
proof -
  have u: "unat (of_nat k :: u64) = k" if "k \<le> 3073" for k
    using that by (intro unat_of_nat_small) simp
  have c: "unat (of_nat n :: u32) = n" using assms by (intro unat_of_nat_small) simp
  have nz: "(of_nat (Suc i) :: u64) \<noteq> 0" if "i \<le> 3072" for i
  proof
    assume "(of_nat (Suc i) :: u64) = 0"
    then have "unat (of_nat (Suc i) :: u64) = 0" by simp
    with u[of "Suc i"] that show False by simp
  qed
  have lt: "(of_nat (Suc i) :: u64) < of_nat (Suc j)" if "i < j" "j \<le> 3072" for i j
    unfolding word_less_nat_alt using u[of "Suc i"] u[of "Suc j"] that by simp
  show ?thesis
    using assms c nz[OF assms] nz lt
    by (auto simp: as_inv_def filled_def slot_ok_def atomspace_consts cstrcpy_length simp del: of_nat_Suc)
qed

lemma filled_step:
  assumes "n < 3072" "\<And>k. os_clock os k = t"
  shows "atomspace_add_node (Some (filled s t n)) ATOM_TYPE_CONCEPT (Some s) os =
           (of_nat (Suc n), Some (filled s t (Suc n)), os\<lparr>os_ticks := Suc (os_ticks os)\<rparr>)"
proof -
  have c: "unat (of_nat n :: u32) = n" using assms(1) by (intro unat_of_nat_small) simp
  then have "\<not> (3072 :: u32) \<le> of_nat n" using assms(1) by (simp add: word_le_nat_alt)
  then show ?thesis
    using c assms(2)
    by (auto simp: atomspace_add_node_def filled_def Let_def time_def set_atom_def fun_eq_iff less_Suc_eq
          zero_atom_def algebra_simps)
qed

lemma filled_init:
  "atomspace_init True False (os_plain t) =
     (OK, Some (1, filled s t 0),
      (os_plain t)\<lparr>os_allocs := 2, os_next := 3, os_live := {1, 2}\<rparr>)"
  by (auto simp: atomspace_init_def calloc_def os_plain_def filled_def Let_def atomspace_consts
        numeral_2_eq_2 numeral_3_eq_3)

lemma filled_run:
  assumes "n \<le> 3072" "\<And>k. os_clock os k = t"
  shows "fold as_step (replicate n (OpNode ATOM_TYPE_CONCEPT s)) (filled s t 0, os) =
           (filled s t n, os\<lparr>os_ticks := os_ticks os + n\<rparr>)"
  using assms(1)
proof (induction n)
  case (Suc n)
  have "replicate (Suc n) (OpNode ATOM_TYPE_CONCEPT s) = replicate n (OpNode ATOM_TYPE_CONCEPT s) @ [OpNode ATOM_TYPE_CONCEPT s]"
    by (metis replicate_Suc replicate_append_same)
  then show ?case
    using Suc filled_step[of n "os\<lparr>os_ticks := os_ticks os + n\<rparr>" t s] assms(2) by simp
qed simp

lemma filled_matches:
  assumes "n \<le> 3072" "length s < ATOMSPACE_NAME_MAX"
  shows "query_matches (filled s t n) s = map (\<lambda>i. of_nat (Suc i)) [0..<n]"
proof -
  have c: "unat (of_nat n :: u32) = n" using assms(1) by (intro unat_of_nat_small) simp
  have "strstr (name (atoms (filled s t n) i)) s \<noteq> None" if "i < n" for i
    using that assms(2) by (simp add: filled_def cstrcpy_id)
  then have "filter (\<lambda>i. strstr (name (atoms (filled s t n) i)) s \<noteq> None) [0..<n] = [0..<n]"
    by (intro filter_True) simp
  moreover have "atom_count (filled s t n) = of_nat n"
    "i < n \<Longrightarrow> handle (atoms (filled s t n) i) = of_nat (Suc i)" for i
    by (simp_all add: filled_def)
  ultimately show ?thesis unfolding query_matches_def using c by simp
qed

section \<open>Properties\<close>

text \<open>
  C5 (invariant). Start from a freshly initialised AtomSpace and run any sequence of fewer than
  \<open>2 ^ 64 - 1\<close> operations, in any order and with any pattern of allocation failures. The number of
  atoms never exceeds the capacity, every stored name is terminated inside its buffer, and every
  stored atom has a nonzero handle under which \<^verbatim>\<open>atomspace_get_atom\<close> finds exactly that atom.
\<close>

theorem atomspace_run_handles:
  assumes "atomspace_init True dist os = (OK, Some (sp, as), os')" "os_wf os"
    and "length ops < 2 ^ 64 - 1"
  shows "unat (atom_count (fst (fold as_step ops (as, os')))) \<le> 3072
    \<and> (\<forall>i < unat (atom_count (fst (fold as_step ops (as, os')))).
         handle (atoms (fst (fold as_step ops (as, os'))) i) \<noteq> 0
         \<and> length (name (atoms (fst (fold as_step ops (as, os'))) i)) < 256
         \<and> atomspace_get_atom (Some (fst (fold as_step ops (as, os'))))
              (handle (atoms (fst (fold as_step ops (as, os'))) i)) = Some i)"
proof -
  have inv: "as_inv (fst (fold as_step ops (as, os')))"
    using as_run_good[OF assms] by (simp add: as_good_def)
  then show ?thesis
    using get_atom_Some_iff[OF inv] as_inv_slot[OF inv]
    by (auto simp: slot_ok_def atomspace_consts as_inv_def)
qed

definition demo_ops :: "as_op list" where
  "demo_ops = [OpNode ATOM_TYPE_CONCEPT ''Cat'', OpNode ATOM_TYPE_CONCEPT ''Animal'',
     OpLink ATOM_TYPE_INHERITANCE (\<lambda>i. of_nat (Suc i)) 2,
     OpSetTv 3 \<lparr>strength = float_zero, confidence = float_one\<rparr>, OpQuery ''a'']"

lemma demo_ops_length: "length demo_ops < 2 ^ 64 - 1"
  by (simp add: demo_ops_def)

theorem atomspace_run_handles_witness:
  "\<exists>as os'. atomspace_init True False (os_plain 7) = (OK, Some (1, as), os')
     \<and> unat (atom_count (fst (fold as_step demo_ops (as, os')))) \<le> 3072"
  using atomspace_run_handles[OF filled_init[of 7 "[]"] os_wf_plain demo_ops_length]
    filled_init[of 7 "[]"] by blast

text \<open>
  C12 (safety). Whatever operations a client ran, \<^verbatim>\<open>atomspace_destroy\<close> gives back every block the
  AtomSpace ever kept: the set of live blocks is again the one before \<^verbatim>\<open>atomspace_init\<close>.
\<close>

theorem atomspace_run_no_leak:
  assumes "atomspace_init True dist os = (OK, Some (sp, as), os')" "os_wf os"
    and "length ops < 2 ^ 64 - 1" and "fold as_step ops (as, os') = (as2, os2)"
  shows "os_live (atomspace_destroy (Some (sp, as2)) os2) = os_live os"
  using as_run_good[OF assms(1-3)] assms(4) by (intro owns_destroy) (simp_all add: as_good_def)

theorem atomspace_run_no_leak_witness:
  "\<exists>as os' as2 os2. atomspace_init True False (os_plain 7) = (OK, Some (1, as), os')
     \<and> fold as_step demo_ops (as, os') = (as2, os2)
     \<and> os_live (atomspace_destroy (Some (1, as2)) os2) = {}"
proof -
  obtain as2 os2 where f: "fold as_step demo_ops (filled [] 7 0,
      (os_plain 7)\<lparr>os_allocs := 2, os_next := 3, os_live := {1, 2}\<rparr>) = (as2, os2)"
    by (metis surj_pair)
  have "os_live (os_plain 7) = {}" by (simp add: os_plain_def)
  with atomspace_run_no_leak[OF filled_init[of 7 "[]"] os_wf_plain demo_ops_length f] f
    filled_init[of 7 "[]"] show ?thesis by metis
qed



end
