(* ===== verification/Hypergraphql.thy ===== *)
theory Hypergraphql
  imports Atomspace
begin

text \<open>
  The HypergraphQL layer of \<^verbatim>\<open>src/src/lib/hypergraphql.c\<close>: a server object that points to an
  AtomSpace, a keyword-driven query evaluator and resolvers that print atoms as JSON. The server
  keeps the address of its AtomSpace, which other parts of the program mutate, so the evaluator
  reads it through a store of live AtomSpaces. Writes through \<^verbatim>\<open>snprintf(json + offset, size - offset,
  ...)\<close> are modelled with the \<^verbatim>\<open>size_t\<close> subtraction of the source: once \<^verbatim>\<open>offset\<close> has passed the end
  of the block the difference wraps and the write is a \<^const>\<open>HeapOverflow\<close>.
\<close>

section \<open>Data\<close>

definition HGQL_MAX_QUERY_LEN :: nat where "HGQL_MAX_QUERY_LEN = 8192"
definition HGQL_MAX_RESPONSE_LEN :: nat where "HGQL_MAX_RESPONSE_LEN = 65536"

datatype hgql_query_type = HGQL_QUERY | HGQL_MUTATION | HGQL_SUBSCRIPTION

record hgql_query =
  qtype :: hgql_query_type
  query :: string
  variables :: string

record hgql_response =
  data :: string
  errors :: string
  has_errors :: bool

record hgql_server =
  srv_atomspace :: addr
  port :: u16
  running :: bool
  server_thread :: "addr option"

type_synonym spaces = "addr \<rightharpoonup> atomspace"

section \<open>The server\<close>

definition hgql_server_init ::
  "bool \<Rightarrow> addr option \<Rightarrow> u16 \<Rightarrow> os \<Rightarrow> errno \<times> (addr \<times> hgql_server) option \<times> os" where
  "hgql_server_init out as prt os =
     (case as of
        None \<Rightarrow> (EINVAL, None, os)
      | Some sp \<Rightarrow>
          if \<not> out then (EINVAL, None, os)
          else (case calloc os of
                  (None, os1) \<Rightarrow> (ENOMEM, None, os1)
                | (Some p, os1) \<Rightarrow>
                    (OK, Some (p, \<lparr>srv_atomspace = sp, port = prt, running = False,
                                   server_thread = None\<rparr>), os1)))"

definition hgql_server_start :: "hgql_server option \<Rightarrow> errno \<times> hgql_server option" where
  "hgql_server_start p =
     (case p of
        None \<Rightarrow> (EINVAL, None)
      | Some srv \<Rightarrow> if running srv then (EALREADY, Some srv) else (OK, Some (srv\<lparr>running := True\<rparr>)))"

definition hgql_server_stop :: "hgql_server option \<Rightarrow> errno \<times> hgql_server option" where
  "hgql_server_stop p =
     (case p of
        None \<Rightarrow> (EINVAL, None)
      | Some srv \<Rightarrow> if \<not> running srv then (OK, Some srv) else (OK, Some (srv\<lparr>running := False\<rparr>)))"

definition hgql_server_destroy :: "(addr \<times> hgql_server) option \<Rightarrow> os \<Rightarrow> os" where
  "hgql_server_destroy p os =
     (case p of
        None \<Rightarrow> os
      | Some (a, srv) \<Rightarrow>
          (let _ = (if running srv then snd (hgql_server_stop (Some srv)) else Some srv)
           in free a os))"

section \<open>Query evaluation\<close>

definition QUOTE :: string where "QUOTE = [CHR 0x22]"

definition quoted :: "string \<Rightarrow> string" where "quoted s = QUOTE @ s @ QUOTE"

definition atoms_reply :: "u32 \<Rightarrow> string" where
  "atoms_reply n =
     ''{'' @ quoted ''data'' @ '': {'' @ quoted ''atoms'' @ '': {'' @ quoted ''count'' @ '': '' @ fmt_u n @ ''}}}''"

definition pattern_reply :: string where
  "pattern_reply = ''{'' @ quoted ''data'' @ '': {'' @ quoted ''queryPattern'' @ '': []}}''"

definition unknown_reply :: string where
  "unknown_reply =
     ''{'' @ quoted ''errors'' @ '': [{'' @ quoted ''message'' @ '': '' @ quoted ''Unknown query'' @ ''}]}''"

definition hgql_execute_query ::
  "spaces \<Rightarrow> hgql_server option \<Rightarrow> hgql_query option \<Rightarrow> os
     \<Rightarrow> fault + (addr \<times> hgql_response) option \<times> os" where
  "hgql_execute_query spaces srv q os =
     (case (srv, q) of
        (Some s, Some qu) \<Rightarrow>
          (case calloc os of
             (None, os1) \<Rightarrow> Inr (None, os1)
           | (Some r, os1) \<Rightarrow>
               let resp = \<lparr>data = [], errors = [], has_errors = False\<rparr>
               in if strstr (query qu) ''atoms'' \<noteq> None
                  then (case spaces (srv_atomspace s) of
                          None \<Rightarrow> Inl (Dangling (srv_atomspace s))
                        | Some as \<Rightarrow>
                            Inr (Some (r, resp\<lparr>data := cstrcpy HGQL_MAX_RESPONSE_LEN
                                                          (atoms_reply (atom_count as))\<rparr>), os1))
                  else if strstr (query qu) ''queryPattern'' \<noteq> None
                  then Inr (Some (r, resp\<lparr>data := cstrcpy HGQL_MAX_RESPONSE_LEN pattern_reply\<rparr>), os1)
                  else Inr (Some (r, resp\<lparr>errors := cstrcpy 4096 unknown_reply, has_errors := True\<rparr>), os1))
      | _ \<Rightarrow> Inr (None, os))"

definition hgql_free_response :: "(addr \<times> hgql_response) option \<Rightarrow> os \<Rightarrow> os" where
  "hgql_free_response r os = (case r of None \<Rightarrow> os | Some (a, _) \<Rightarrow> free a os)"

section \<open>Resolvers\<close>

fun atom_type_code :: "atom_type \<Rightarrow> int" where
  "atom_type_code ATOM_TYPE_NODE = 0"
| "atom_type_code ATOM_TYPE_LINK = 1"
| "atom_type_code ATOM_TYPE_CONCEPT = 2"
| "atom_type_code ATOM_TYPE_PREDICATE = 3"
| "atom_type_code ATOM_TYPE_VARIABLE = 4"
| "atom_type_code ATOM_TYPE_EVALUATION = 5"
| "atom_type_code ATOM_TYPE_INHERITANCE = 6"
| "atom_type_code ATOM_TYPE_SIMILARITY = 7"
| "atom_type_code ATOM_TYPE_MAX = 8"

definition atom_json :: "atom \<Rightarrow> string" where
  "atom_json a =
     ''{''
     @ quoted ''handle'' @ '': '' @ fmt_u (handle a) @ '',''
     @ quoted ''type'' @ '': '' @ fmt_int (atom_type_code (atype a)) @ '',''
     @ quoted ''name'' @ '': '' @ quoted (name a) @ '',''
     @ quoted ''truthValue'' @ '': {'' @ quoted ''strength'' @ '': '' @ fmt_f2 (strength (tv a))
     @ '', '' @ quoted ''confidence'' @ '': '' @ fmt_f2 (confidence (tv a)) @ ''},''
     @ quoted ''attentionValue'' @ '': {'' @ quoted ''sti'' @ '': '' @ fmt_d (sti (av a))
     @ '', '' @ quoted ''lti'' @ '': '' @ fmt_d (lti (av a))
     @ '', '' @ quoted ''vlti'' @ '': '' @ fmt_d (vlti (av a)) @ ''},''
     @ quoted ''timestamp'' @ '': '' @ fmt_u (timestamp a)
     @ ''}''"

definition hgql_resolve_atom ::
  "atomspace option \<Rightarrow> atom_handle \<Rightarrow> os \<Rightarrow> (addr \<times> string) option \<times> os" where
  "hgql_resolve_atom p h os =
     (case (p, atomspace_get_atom p h) of
        (Some as, Some i) \<Rightarrow>
          (case calloc os of
             (None, os1) \<Rightarrow> (None, os1)
           | (Some j, os1) \<Rightarrow> (Some (j, cstrcpy 2048 (atom_json (atoms as i))), os1))
      | _ \<Rightarrow> (None, os))"

text \<open>A result whose \<open>count\<close> is positive has its handles at \<open>handles_addr\<close>.\<close>

definition hgql_resolve_node ::
  "atomspace option \<Rightarrow> string option \<Rightarrow> os \<Rightarrow> (addr \<times> string) option \<times> os" where
  "hgql_resolve_node p nm os =
     (case atomspace_query p nm os of
        (None, os1) \<Rightarrow> (None, atomspace_free_query_result None os1)
      | (Some q, os1) \<Rightarrow>
          if count q = 0 then (None, atomspace_free_query_result (Some q) os1)
          else (case hgql_resolve_atom p (handles q ! 0) os1 of
                  (json, os2) \<Rightarrow> (json, atomspace_free_query_result (Some q) os2)))"

definition hgql_resolve_link ::
  "atomspace option \<Rightarrow> atom_type \<Rightarrow> string option \<Rightarrow> (addr \<times> string) option" where
  "hgql_resolve_link p ty out = None"

text \<open>\<^verbatim>\<open>snprintf(json + off, size - off, "%s", s)\<close> on a block of \<open>size\<close> bytes that holds the string
  \<open>buf\<close>; the return value is added to the offset whether or not the text fitted.\<close>

definition snprintf_at :: "nat \<Rightarrow> string \<times> nat \<Rightarrow> string \<Rightarrow> fault + string \<times> nat" where
  "snprintf_at sz st s =
     (case st of (buf, off) \<Rightarrow>
        if sz < off then Inl (HeapOverflow off)
        else if off = sz then Inr (buf, off + length s)
        else Inr (take off buf @ take (sz - off - 1) s, off + length s))"

definition JSON_SIZE :: nat where "JSON_SIZE = 4096"

fun pattern_loop ::
  "atomspace option \<Rightarrow> atom_handle list \<Rightarrow> nat \<Rightarrow> string \<times> nat \<Rightarrow> os \<Rightarrow> fault + (string \<times> nat) \<times> os" where
  "pattern_loop p [] i st os = Inr (st, os)"
| "pattern_loop p (h # hs) i st os =
     (if \<not> snd st < JSON_SIZE - 100 then Inr (st, os)
      else case hgql_resolve_atom p h os of
             (None, os1) \<Rightarrow> pattern_loop p hs (Suc i) st os1
           | (Some (j, js), os1) \<Rightarrow>
               (case (if 0 < i then snprintf_at JSON_SIZE st '','' else Inr st) of
                  Inl f \<Rightarrow> Inl f
                | Inr st1 \<Rightarrow>
                    (case snprintf_at JSON_SIZE st1 js of
                       Inl f \<Rightarrow> Inl f
                     | Inr st2 \<Rightarrow> pattern_loop p hs (Suc i) st2 (free j os1))))"

definition hgql_resolve_query_pattern ::
  "atomspace option \<Rightarrow> string option \<Rightarrow> os \<Rightarrow> fault + (addr \<times> string) option \<times> os" where
  "hgql_resolve_query_pattern p pattern os =
     (case atomspace_query p pattern os of
        (None, os1) \<Rightarrow> Inr (None, os1)
      | (Some q, os1) \<Rightarrow>
          (case calloc os1 of
             (None, os2) \<Rightarrow> Inr (None, atomspace_free_query_result (Some q) os2)
           | (Some j, os2) \<Rightarrow>
               (case snprintf_at JSON_SIZE ([], 0) ''['' of
                  Inl f \<Rightarrow> Inl f
                | Inr st0 \<Rightarrow>
                    (case pattern_loop p (take (unat (count q)) (handles q)) 0 st0 os2 of
                       Inl f \<Rightarrow> Inl f
                     | Inr (st1, os3) \<Rightarrow>
                         (case snprintf_at JSON_SIZE st1 '']'' of
                            Inl f \<Rightarrow> Inl f
                          | Inr (buf, off) \<Rightarrow>
                              Inr (Some (j, buf), atomspace_free_query_result (Some q) os3))))))"

section \<open>The schema\<close>

definition schema_lines :: "string list" where
  "schema_lines =
    [''type Query {'',
     ''  atom(handle: ID!): Atom'',
     ''  node(name: String!): Node'',
     ''  queryPattern(pattern: String!): [Atom]'',
     ''  atoms: [Atom]'',
     ''}'', '''',
     ''type Mutation {'',
     ''  addNode(type: AtomType!, name: String!): Node'',
     ''  addLink(type: AtomType!, outgoing: [ID!]!): Link'',
     ''  setTruthValue(handle: ID!, strength: Float!, confidence: Float!): Atom'',
     ''}'', '''',
     ''enum AtomType {'',
     ''  NODE'', ''  LINK'', ''  CONCEPT'', ''  PREDICATE'', ''  VARIABLE'',
     ''  EVALUATION'', ''  INHERITANCE'', ''  SIMILARITY'',
     ''}'', '''',
     ''type TruthValue {'', ''  strength: Float!'', ''  confidence: Float!'', ''}'', '''',
     ''type AttentionValue {'', ''  sti: Int!'', ''  lti: Int!'', ''  vlti: Int!'', ''}'', '''',
     ''interface Atom {'',
     ''  handle: ID!'', ''  type: AtomType!'', ''  name: String!'', ''  truthValue: TruthValue!'',
     ''  attentionValue: AttentionValue!'', ''  timestamp: String!'',
     ''}'', '''',
     ''type Node implements Atom {'',
     ''  handle: ID!'', ''  type: AtomType!'', ''  name: String!'', ''  truthValue: TruthValue!'',
     ''  attentionValue: AttentionValue!'', ''  timestamp: String!'',
     ''}'', '''',
     ''type Link implements Atom {'',
     ''  handle: ID!'', ''  type: AtomType!'', ''  name: String!'', ''  truthValue: TruthValue!'',
     ''  attentionValue: AttentionValue!'', ''  timestamp: String!'', ''  outgoing: [Atom!]!'',
     ''}'']"

definition HGQL_SCHEMA :: string where
  "HGQL_SCHEMA = concat (map (\<lambda>l. l @ [CHR 0x0A]) schema_lines)"

definition hgql_get_schema :: "hgql_server option \<Rightarrow> string" where
  "hgql_get_schema srv = HGQL_SCHEMA"

section \<open>Printing an atom\<close>

lemma length_quoted [simp]: "length (quoted s) = length s + 2"
  by (simp add: quoted_def QUOTE_def)

lemma length_type_code: "length (fmt_int (atom_type_code ty)) \<le> 2"
  by (cases ty) (auto intro!: order_trans[OF length_fmt_int[of _ 1]])

text \<open>The buffer of 2048 bytes holds every atom whose name fits its own buffer.\<close>

lemma length_atom_json:
  assumes "length (name a) < ATOMSPACE_NAME_MAX"
  shows "length (atom_json a) < 2048"
  using assms length_fmt_u64[of "handle a"] length_fmt_u64[of "timestamp a"]
    length_type_code[of "atype a"] length_fmt_f2[of "strength (tv a)"] length_fmt_f2[of "confidence (tv a)"]
    length_fmt_d16[of "sti (av a)"] length_fmt_d16[of "lti (av a)"] length_fmt_d16[of "vlti (av a)"]
  by (simp add: atom_json_def atomspace_consts)

lemma lookup_json:
  assumes "as_inv as" "lookup as h = Some a"
  shows "cstrcpy 2048 (atom_json a) = atom_json a"
proof -
  obtain i where "i < unat (atom_count as)" "a = atoms as i"
    using assms lookup_Some_iff[OF assms(1)] by auto
  then have "length (name a) < ATOMSPACE_NAME_MAX"
    using as_inv_slot[OF assms(1)] by (simp add: slot_ok_def)
  from cstrcpy_id[OF length_atom_json[OF this]] show ?thesis .
qed

lemma resolve_atom_eq:
  assumes "as_inv as"
  shows "hgql_resolve_atom (Some as) h os =
           (case lookup as h of
              None \<Rightarrow> (None, os)
            | Some a \<Rightarrow> (case calloc os of
                (None, os1) \<Rightarrow> (None, os1)
              | (Some j, os1) \<Rightarrow> (Some (j, atom_json a), os1)))"
  using lookup_json[OF assms, of h]
  by (auto simp: hgql_resolve_atom_def lookup_def split: option.split prod.split)

section \<open>Printing the matches of a pattern\<close>

text \<open>The text the loop of \<^verbatim>\<open>hgql_resolve_query_pattern\<close> appends from its \<open>i\<close>-th iteration on.\<close>

fun joined :: "nat \<Rightarrow> string list \<Rightarrow> string" where
  "joined i [] = []"
| "joined i (j # js) = (if 0 < i then '','' else []) @ j @ joined (Suc i) js"

definition json_of :: "atomspace \<Rightarrow> atom_handle \<Rightarrow> string" where
  "json_of as h = (case lookup as h of None \<Rightarrow> [] | Some a \<Rightarrow> atom_json a)"

lemma snprintf_at_fits:
  "length buf + length s < sz \<Longrightarrow>
     snprintf_at sz (buf, length buf) s = Inr (buf @ s, length (buf @ s))"
  by (simp add: snprintf_at_def)

lemma joined_append: "joined i (xs @ ys) = joined i xs @ joined (i + length xs) ys"
  by (induction xs arbitrary: i) auto

text \<open>As long as the text stays below the loop's limit of \<^verbatim>\<open>json_size - 100\<close>, the loop appends it
  all; the remaining handles are then processed from the state reached.\<close>

lemma pattern_loop_prefix:
  assumes "as_inv as" "mem_ok os" "\<And>h. h \<in> set hs \<Longrightarrow> lookup as h \<noteq> None"
    and "length buf + length (joined i (map (json_of as) hs)) < JSON_SIZE - 100"
  shows "\<exists>os'. mem_ok os' \<and>
    pattern_loop (Some as) (hs @ rest) i (buf, length buf) os =
      pattern_loop (Some as) rest (i + length hs)
        (buf @ joined i (map (json_of as) hs), length (buf @ joined i (map (json_of as) hs))) os'"
  using assms(2,3,4)
proof (induction hs arbitrary: i buf os)
  case Nil
  then show ?case by auto
next
  case (Cons h hs)
  from Cons.prems(2)[of h] obtain a where a: "lookup as h = Some a" by auto
  obtain j os1 where c: "calloc os = (Some j, os1)" "mem_ok os1"
    using mem_ok_calloc Cons.prems(1) by blast
  define sep where "sep = (if 0 < i then '','' else ([] :: string))"
  have js: "json_of as h = atom_json a" using a by (simp add: json_of_def)
  have lim: "length buf + length sep + length (atom_json a)
               + length (joined (Suc i) (map (json_of as) hs)) < JSON_SIZE - 100"
    using Cons.prems(3) js by (simp add: sep_def)
  have sn1: "(if 0 < i then snprintf_at JSON_SIZE (buf, length buf) '','' else Inr (buf, length buf))
      = Inr (buf @ sep, length (buf @ sep))"
    using lim snprintf_at_fits[of buf "'',''" JSON_SIZE] by (simp add: sep_def)
  have sn2: "snprintf_at JSON_SIZE (buf @ sep, length (buf @ sep)) (atom_json a)
      = Inr (buf @ sep @ atom_json a, length (buf @ sep @ atom_json a))"
    using lim snprintf_at_fits[of "buf @ sep" "atom_json a" JSON_SIZE] by simp
  have step: "pattern_loop (Some as) ((h # hs) @ rest) i (buf, length buf) os =
      pattern_loop (Some as) (hs @ rest) (Suc i)
        (buf @ sep @ atom_json a, length (buf @ sep @ atom_json a)) (free j os1)"
    using lim sn1 sn2 a c resolve_atom_eq[OF assms(1), of h os] by simp
  have "\<exists>os'. mem_ok os' \<and>
      pattern_loop (Some as) (hs @ rest) (Suc i)
        (buf @ sep @ atom_json a, length (buf @ sep @ atom_json a)) (free j os1) =
      pattern_loop (Some as) rest (Suc i + length hs)
        ((buf @ sep @ atom_json a) @ joined (Suc i) (map (json_of as) hs),
         length ((buf @ sep @ atom_json a) @ joined (Suc i) (map (json_of as) hs))) os'"
    using lim c(2) Cons.prems(2) by (intro Cons.IH) auto
  then show ?case using step js by (auto simp: sep_def)
qed

text \<open>The size of the text of an atom of a filled AtomSpace.\<close>

lemma length_json_filled:
  assumes "i < n" "n \<le> 3072" "length s < ATOMSPACE_NAME_MAX"
  shows "length (json_of (filled s t n) (of_nat (Suc i))) =
           150 + length s + length (fmt_u (of_nat (Suc i) :: u64)) + length (fmt_u t)"
proof -
  have "unat (of_nat n :: u32) = n" using assms(2) by (intro unat_of_nat_small) simp
  then have "lookup (filled s t n) (of_nat (Suc i)) = Some (atoms (filled s t n) i)"
    using lookup_slot[OF filled_inv[OF assms(2), of s t], of i] assms(1)
    by (simp add: filled_def del: of_nat_Suc)
  moreover have "length (fmt_f2 float_one) = 4" "length (fmt_d (0 :: u16)) = 1" "length (fmt_int 2) = 1"
    by (simp_all add: fmt_f2_def float_one_def float_hundredths_def dec_nat_eval div_round_even_def
          fmt_d_def fmt_int_def)
  ultimately show ?thesis
    using assms by (simp add: json_of_def atom_json_def filled_def cstrcpy_id del: of_nat_Suc)
qed

lemma pattern_loop_stop: "\<not> snd st < JSON_SIZE - 100 \<Longrightarrow> pattern_loop p hs i st os = Inr (st, os)"
  by (cases hs) auto

lemma query_pattern_unfold:
  assumes "as_inv as" "mem_ok os"
  shows "\<exists>q j os2. mem_ok os2 \<and> hgql_resolve_query_pattern (Some as) (Some pat) os =
    (case pattern_loop (Some as) (query_matches as pat) 0 (''['', 1) os2 of
       Inl f \<Rightarrow> Inl f
     | Inr (st1, os3) \<Rightarrow>
         (case snprintf_at JSON_SIZE st1 '']'' of
            Inl f \<Rightarrow> Inl f
          | Inr (buf, off) \<Rightarrow> Inr (Some (j, buf), atomspace_free_query_result (Some q) os3)))"
proof -
  obtain q os1 where q: "atomspace_query (Some as) (Some pat) os = (Some q, os1)" "mem_ok os1"
    "handles q = query_matches as pat" "unat (count q) = length (handles q)"
    using query_ok[OF assms] by blast
  obtain j os2 where c: "calloc os1 = (Some j, os2)" "mem_ok os2" using mem_ok_calloc q(2) by blast
  have "snprintf_at JSON_SIZE ([], 0) ''['' = Inr (''['', 1)"
    by (simp add: snprintf_at_def JSON_SIZE_def)
  with q c show ?thesis
    by (intro exI[of _ q] exI[of _ j] exI[of _ os2]) (simp add: hgql_resolve_query_pattern_def)
qed

lemma matches_found: "as_inv as \<Longrightarrow> h \<in> set (query_matches as pat) \<Longrightarrow> lookup as h \<noteq> None"
  using query_lookup by fastforce

text \<open>
  When the memory is available and the matches print to less than the loop's limit,
  the pattern resolver returns the JSON array of exactly the matching atoms, in the order they were
  added, separated by commas, with nothing truncated.
\<close>

theorem resolve_query_pattern_text:
  assumes "as_inv as" "mem_ok os"
    and "1 + length (joined 0 (map (json_of as) (query_matches as pat))) < JSON_SIZE - 100"
  shows "\<exists>j os'. hgql_resolve_query_pattern (Some as) (Some pat) os =
    Inr (Some (j, ''['' @ joined 0 (map (json_of as) (query_matches as pat)) @ '']''), os')"
proof -
  let ?txt = "joined 0 (map (json_of as) (query_matches as pat))"
  obtain q j os2 where u: "mem_ok os2" "hgql_resolve_query_pattern (Some as) (Some pat) os =
    (case pattern_loop (Some as) (query_matches as pat) 0 (''['', 1) os2 of
       Inl f \<Rightarrow> Inl f
     | Inr (st1, os3) \<Rightarrow>
         (case snprintf_at JSON_SIZE st1 '']'' of
            Inl f \<Rightarrow> Inl f
          | Inr (buf, off) \<Rightarrow> Inr (Some (j, buf), atomspace_free_query_result (Some q) os3)))"
    using query_pattern_unfold[OF assms(1,2)] by blast
  obtain os3 where l: "pattern_loop (Some as) (query_matches as pat) 0 (''['', 1) os2 =
      Inr ((''['' @ ?txt, length (''['' @ ?txt)), os3)"
    using pattern_loop_prefix[OF assms(1) u(1), of "query_matches as pat" "''[''" 0 "[]"]
      matches_found[OF assms(1)] assms(3) by auto
  have "snprintf_at JSON_SIZE (''['' @ ?txt, length (''['' @ ?txt)) '']'' =
      Inr ((''['' @ ?txt) @ '']'', length ((''['' @ ?txt) @ '']''))"
    using assms(3) by (intro snprintf_at_fits) (simp add: JSON_SIZE_def)
  with u l show ?thesis by simp
qed

theorem resolve_query_pattern_text_witness:
  "\<exists>j os'. hgql_resolve_query_pattern (Some (filled ''Cat'' 0 2)) (Some ''Cat'') (os_plain 0) =
     Inr (Some (j, ''['' @ atom_json (atoms (filled ''Cat'' 0 2) 0) @ '',''
                        @ atom_json (atoms (filled ''Cat'' 0 2) 1) @ '']''), os')"
proof -
  let ?as = "filled ''Cat'' 0 2"
  have inv: "as_inv ?as" by (rule filled_inv) simp
  have m: "query_matches ?as ''Cat'' = [1, 2]"
    by (simp add: filled_matches atomspace_consts upt_rec)
  have j: "json_of ?as 1 = atom_json (atoms ?as 0)" "json_of ?as 2 = atom_json (atoms ?as 1)"
    using lookup_slot[OF inv, of 0] lookup_slot[OF inv, of 1] by (simp_all add: json_of_def filled_def)
  have "1 + length (joined 0 (map (json_of ?as) (query_matches ?as ''Cat''))) < JSON_SIZE - 100"
    using length_json_filled[of 0 2 "''Cat''" 0] length_json_filled[of 1 2 "''Cat''" 0]
    by (simp add: m atomspace_consts JSON_SIZE_def fmt_u_def dec_nat_eval)
  from resolve_query_pattern_text[OF inv mem_ok_plain this] show ?thesis
    by (simp add: m j)
qed

text \<open>
  C28 (safety). The loop's limit leaves room for 100 more bytes, but one atom can print to more: when
  an atom whose text does not fit the block is reached before the limit, the offset passes the end
  of the block, the size argument of the closing \<^verbatim>\<open>snprintf\<close> wraps, and the resolver writes outside
  its buffer.
\<close>

theorem resolve_query_pattern_overflow:
  assumes "as_inv as" "mem_ok os"
    and "query_matches as pat = hs1 @ h # hs2"
    and "1 + length (joined 0 (map (json_of as) hs1)) < JSON_SIZE - 100"
    and "JSON_SIZE < 1 + length (joined 0 (map (json_of as) (hs1 @ [h])))"
  shows "hgql_resolve_query_pattern (Some as) (Some pat) os =
    Inl (HeapOverflow (1 + length (joined 0 (map (json_of as) (hs1 @ [h])))))"
proof -
  let ?pre = "joined 0 (map (json_of as) hs1)" and ?all = "joined 0 (map (json_of as) (hs1 @ [h]))"
  let ?i = "length hs1" and ?buf = "''['' @ joined 0 (map (json_of as) hs1)"
  obtain q j os2 where u: "mem_ok os2" "hgql_resolve_query_pattern (Some as) (Some pat) os =
    (case pattern_loop (Some as) (query_matches as pat) 0 (''['', 1) os2 of
       Inl f \<Rightarrow> Inl f
     | Inr (st1, os3) \<Rightarrow>
         (case snprintf_at JSON_SIZE st1 '']'' of
            Inl f \<Rightarrow> Inl f
          | Inr (buf, off) \<Rightarrow> Inr (Some (j, buf), atomspace_free_query_result (Some q) os3)))"
    using query_pattern_unfold[OF assms(1,2)] by blast
  have found: "g \<in> set (hs1 @ [h]) \<Longrightarrow> lookup as g \<noteq> None" for g
    using matches_found[OF assms(1), of g pat] assms(3) by auto
  obtain os3 where pre: "mem_ok os3"
    "pattern_loop (Some as) (query_matches as pat) 0 (''['', 1) os2 =
      pattern_loop (Some as) (h # hs2) ?i (?buf, length ?buf) os3"
    using pattern_loop_prefix[OF assms(1) u(1), of hs1 "''[''" 0 "h # hs2"] found assms(3,4) by auto
  obtain a where a: "lookup as h = Some a" using found[of h] by auto
  obtain b os4 where c: "calloc os3 = (Some b, os4)" using mem_ok_calloc pre(1) by blast
  have js: "json_of as h = atom_json a" using a by (simp add: json_of_def)
  have all: "length ?all = length ?pre + (if 0 < ?i then 1 else 0) + length (atom_json a)"
    using js by (simp add: joined_append)
  obtain buf' where "pattern_loop (Some as) (h # hs2) ?i (?buf, length ?buf) os3 =
      Inr ((buf', 1 + length ?all), free b os4)"
    using assms(4,5) all a c resolve_atom_eq[OF assms(1), of h os3]
    by (cases "0 < ?i") (simp_all add: snprintf_at_def JSON_SIZE_def pattern_loop_stop)
  then have "pattern_loop (Some as) (query_matches as pat) 0 (''['', 1) os2 =
      Inr ((buf', 1 + length ?all), free b os4)"
    using pre(2) by (simp only:)
  moreover have "snprintf_at JSON_SIZE (buf', 1 + length ?all) '']'' = Inl (HeapOverflow (1 + length ?all))"
    using assms(5) by (simp only: snprintf_at_def prod.case if_True)
  ultimately show ?thesis unfolding u(2) by (simp only: sum.case prod.case)
qed

text \<open>Ten nodes with names of 255 characters are enough: nine print to 3753 bytes, below the limit of
  3996, and the tenth takes the offset to 4171 in a block of 4096.\<close>

theorem resolve_query_pattern_overflow_witness:
  "hgql_resolve_query_pattern (Some (filled (replicate 255 CHR ''a'') 1700000000 10))
     (Some (replicate 255 CHR ''a'')) (os_plain 0) = Inl (HeapOverflow 4171)"
proof -
  let ?s = "replicate 255 CHR ''a''"
  let ?as = "filled ?s 1700000000 10"
  have inv: "as_inv ?as" by (rule filled_inv) simp
  have m: "query_matches ?as ?s = [1, 2, 3, 4, 5, 6, 7, 8, 9] @ 10 # []"
    by (simp add: filled_matches atomspace_consts upt_rec)
  have len: "length (json_of ?as (of_nat (Suc i))) = 415 + length (fmt_u (of_nat (Suc i) :: u64))"
    if "i < 10" for i
    using length_json_filled[OF that, of ?s 1700000000]
    by (simp add: atomspace_consts fmt_u_def dec_nat_eval del: of_nat_Suc)
  have l: "length (json_of ?as 1) = 416" "length (json_of ?as 2) = 416" "length (json_of ?as 3) = 416"
    "length (json_of ?as 4) = 416" "length (json_of ?as 5) = 416" "length (json_of ?as 6) = 416"
    "length (json_of ?as 7) = 416" "length (json_of ?as 8) = 416" "length (json_of ?as 9) = 416"
    "length (json_of ?as 10) = 417"
    using len[of 0] len[of 1] len[of 2] len[of 3] len[of 4] len[of 5] len[of 6] len[of 7] len[of 8] len[of 9]
    by (simp_all add: fmt_u_def dec_nat_eval)
  show ?thesis
    using resolve_query_pattern_overflow[OF inv mem_ok_plain m, of 0] l by (simp add: JSON_SIZE_def)
qed

text \<open>
  The evaluator recognises a query by two keywords. A reply carries errors exactly when
  neither occurs; a query with the keyword \<^verbatim>\<open>atoms\<close> reports the current number of atoms of the
  AtomSpace the server points to, any other query with \<^verbatim>\<open>queryPattern\<close> is answered with an empty
  list, whatever the AtomSpace contains.
\<close>

theorem execute_query_reply:
  assumes "hgql_execute_query spaces (Some s) (Some q) os = Inr (Some (r, resp), os')"
  shows "(has_errors resp \<longleftrightarrow> \<not> sublist ''atoms'' (query q) \<and> \<not> sublist ''queryPattern'' (query q))
    \<and> (has_errors resp \<longleftrightarrow> errors resp = unknown_reply) \<and> (has_errors resp \<longrightarrow> data resp = [])
    \<and> (sublist ''atoms'' (query q) \<longrightarrow>
         (\<exists>as. spaces (srv_atomspace s) = Some as \<and> data resp = atoms_reply (atom_count as)))
    \<and> (\<not> sublist ''atoms'' (query q) \<and> sublist ''queryPattern'' (query q) \<longrightarrow> data resp = pattern_reply)"
proof -
  have "length (fmt_u n) \<le> 10" for n :: u32 by (rule length_fmt_u32)
  then have fit: "cstrcpy HGQL_MAX_RESPONSE_LEN (atoms_reply n) = atoms_reply n" for n
    by (intro cstrcpy_id) (simp add: atoms_reply_def HGQL_MAX_RESPONSE_LEN_def order_le_less_trans[of _ 10])
  have "cstrcpy HGQL_MAX_RESPONSE_LEN pattern_reply = pattern_reply"
    "cstrcpy 4096 unknown_reply = unknown_reply" "unknown_reply \<noteq> []"
    by (simp_all add: cstrcpy_id pattern_reply_def unknown_reply_def HGQL_MAX_RESPONSE_LEN_def)
  with assms fit show ?thesis
    by (auto simp: hgql_execute_query_def Let_def strstr_sublist[symmetric]
          split: option.splits prod.splits if_splits)
qed

definition demo_server :: hgql_server where
  "demo_server = \<lparr>srv_atomspace = 1, port = 8080, running = True, server_thread = None\<rparr>"

theorem execute_query_reply_witness:
  "\<exists>r resp os'. hgql_execute_query [1 \<mapsto> filled ''Cat'' 0 3] (Some demo_server)
       (Some \<lparr>qtype = HGQL_QUERY, query = ''{ atoms }'', variables = []\<rparr>) (os_plain 0)
       = Inr (Some (r, resp), os')
     \<and> \<not> has_errors resp \<and> data resp = atoms_reply 3"
proof -
  let ?q = "\<lparr>qtype = HGQL_QUERY, query = ''{ atoms }'', variables = []\<rparr>"
  have "\<exists>r resp os'. hgql_execute_query [1 \<mapsto> filled ''Cat'' 0 3] (Some demo_server) (Some ?q) (os_plain 0)
      = Inr (Some (r, resp), os')"
    by (simp add: hgql_execute_query_def calloc_def os_plain_def Let_def demo_server_def)
  then obtain r resp os' where e: "hgql_execute_query [1 \<mapsto> filled ''Cat'' 0 3] (Some demo_server)
      (Some ?q) (os_plain 0) = Inr (Some (r, resp), os')" by blast
  have "strstr ''{ atoms }'' ''atoms'' \<noteq> None" by simp
  then have "sublist ''atoms'' ''{ atoms }''" unfolding strstr_sublist .
  with execute_query_reply[OF e] have "\<not> has_errors resp \<and> data resp = atoms_reply 3"
    by (auto simp: demo_server_def filled_def split: if_splits)
  with e show ?thesis by blast
qed

end
