(* ===== verification/Hypercog.thy ===== *)
theory Hypercog
  imports Hypergraphql
begin

text \<open>
  The HyperCog context of \<^verbatim>\<open>src/src/lib/hypercog.c\<close>: it owns an AtomSpace and a HypergraphQL server
  that points to the same AtomSpace, offers hooks for the life of a VM, and is registered in a
  global variable. Objects live in a store indexed by address, so that the aliasing between the
  context and its server is explicit and a use of a freed object is a fault.
\<close>

section \<open>Contexts and the store\<close>

record hypercog_ctx =
  ctx_atomspace :: "addr option"
  graphql_server :: "addr option"
  enabled :: bool
  ctx_distributed :: bool
  graphql_port :: u16

record world =
  w_spaces :: spaces
  w_servers :: "addr \<rightharpoonup> hgql_server"
  w_ctxs :: "addr \<rightharpoonup> hypercog_ctx"
  global_hypercog_ctx :: "addr option"
  w_os :: os

text \<open>Following a pointer that may be null: \<open>None\<close> stays null, a freed address is a fault.\<close>

definition deref :: "(addr \<rightharpoonup> 'a) \<Rightarrow> addr option \<Rightarrow> fault + 'a option" where
  "deref st p =
     (case p of
        None \<Rightarrow> Inr None
      | Some a \<Rightarrow> (case st a of None \<Rightarrow> Inl (Dangling a) | Some x \<Rightarrow> Inr (Some x)))"

definition store_back :: "addr option \<Rightarrow> 'a option \<Rightarrow> (addr \<rightharpoonup> 'a) \<Rightarrow> (addr \<rightharpoonup> 'a)" where
  "store_back p x st = (case (p, x) of (Some a, Some v) \<Rightarrow> st(a \<mapsto> v) | _ \<Rightarrow> st)"

section \<open>Life cycle\<close>

definition hypercog_init ::
  "bool \<Rightarrow> bool \<Rightarrow> u16 \<Rightarrow> world \<Rightarrow> errno \<times> addr option \<times> world" where
  "hypercog_init out dist prt w =
     (if \<not> out then (EINVAL, None, w)
      else case calloc (w_os w) of
        (None, os1) \<Rightarrow> (ENOMEM, None, w\<lparr>w_os := os1\<rparr>)
      | (Some hc, os1) \<Rightarrow>
          (case atomspace_init True dist os1 of
             (e, None, os2) \<Rightarrow> (e, None, w\<lparr>w_os := free hc os2\<rparr>)
           | (e, Some (sp, as), os2) \<Rightarrow>
               (case hgql_server_init True (Some sp) prt os2 of
                  (e, None, os3) \<Rightarrow>
                    (e, None, w\<lparr>w_os := free hc (atomspace_destroy (Some (sp, as)) os3)\<rparr>)
                | (e, Some (sv, srv), os3) \<Rightarrow>
                    (OK, Some hc,
                     w\<lparr>w_spaces := (w_spaces w)(sp \<mapsto> as),
                       w_servers := (w_servers w)(sv \<mapsto> srv),
                       w_ctxs := (w_ctxs w)(hc \<mapsto>
                         \<lparr>ctx_atomspace = Some sp, graphql_server = Some sv, enabled = True,
                          ctx_distributed = dist, graphql_port = prt\<rparr>),
                       w_os := os3\<rparr>))))"

definition hypercog_destroy :: "addr option \<Rightarrow> world \<Rightarrow> fault + world" where
  "hypercog_destroy ctx w =
     (case ctx of
        None \<Rightarrow> Inr w
      | Some c \<Rightarrow>
          (case w_ctxs w c of
             None \<Rightarrow> Inl (Dangling c)
           | Some hc \<Rightarrow>
               (case deref (w_servers w) (graphql_server hc) of
                  Inl f \<Rightarrow> Inl f
                | Inr srv \<Rightarrow>
                    (case deref (w_spaces w) (ctx_atomspace hc) of
                       Inl f \<Rightarrow> Inl f
                     | Inr as \<Rightarrow>
                         let os1 = (case (graphql_server hc, srv) of
                                      (Some sv, Some s) \<Rightarrow> hgql_server_destroy (Some (sv, s)) (w_os w)
                                    | _ \<Rightarrow> w_os w);
                             os2 = (case (ctx_atomspace hc, as) of
                                      (Some sp, Some a) \<Rightarrow> atomspace_destroy (Some (sp, a)) os1
                                    | _ \<Rightarrow> os1)
                         in Inr (w\<lparr>w_spaces := (case ctx_atomspace hc of None \<Rightarrow> w_spaces w
                                                   | Some sp \<Rightarrow> (w_spaces w)(sp := None)),
                                   w_servers := (case graphql_server hc of None \<Rightarrow> w_servers w
                                                   | Some sv \<Rightarrow> (w_servers w)(sv := None)),
                                   w_ctxs := (w_ctxs w)(c := None),
                                   w_os := free c os2\<rparr>)))))"

definition hypercog_start :: "addr option \<Rightarrow> world \<Rightarrow> fault + errno \<times> world" where
  "hypercog_start ctx w =
     (case deref (w_ctxs w) ctx of
        Inl f \<Rightarrow> Inl f
      | Inr None \<Rightarrow> Inr (EINVAL, w)
      | Inr (Some hc) \<Rightarrow>
          if \<not> enabled hc then Inr (EINVAL, w)
          else
            (case (if ctx_distributed hc
                   then (case deref (w_spaces w) (ctx_atomspace hc) of
                           Inl f \<Rightarrow> Inl f | Inr as \<Rightarrow> Inr (atomspace_sync_start as))
                   else Inr OK) of
               Inl f \<Rightarrow> Inl f
             | Inr e \<Rightarrow>
                 if e \<noteq> OK then Inr (e, w)
                 else
                   (case deref (w_servers w) (graphql_server hc) of
                      Inl f \<Rightarrow> Inl f
                    | Inr srv \<Rightarrow>
                        (case hgql_server_start srv of
                           (e2, srv2) \<Rightarrow>
                             \<comment> \<open>on failure the sources call \<^verbatim>\<open>atomspace_sync_stop\<close>, which changes nothing\<close>
                             Inr (e2, w\<lparr>w_servers := store_back (graphql_server hc) srv2 (w_servers w)\<rparr>)))))"

definition hypercog_stop :: "addr option \<Rightarrow> world \<Rightarrow> fault + errno \<times> world" where
  "hypercog_stop ctx w =
     (case deref (w_ctxs w) ctx of
        Inl f \<Rightarrow> Inl f
      | Inr None \<Rightarrow> Inr (EINVAL, w)
      | Inr (Some hc) \<Rightarrow>
          (case deref (w_servers w) (graphql_server hc) of
             Inl f \<Rightarrow> Inl f
           | Inr srv \<Rightarrow>
               (let srv2 = (if srv \<noteq> None then snd (hgql_server_stop srv) else srv);
                    w1 = w\<lparr>w_servers := store_back (graphql_server hc) srv2 (w_servers w)\<rparr>
                in if ctx_distributed hc \<and> ctx_atomspace hc \<noteq> None
                   then (case deref (w_spaces w1) (ctx_atomspace hc) of
                           Inl f \<Rightarrow> Inl f
                         | Inr as \<Rightarrow> let _ = atomspace_sync_stop as in Inr (OK, w1))
                   else Inr (OK, w1))))"

section \<open>VM hooks and knowledge\<close>

definition vm_name :: "u32 \<Rightarrow> string" where
  "vm_name vcpu = cstrcpy 256 (''VM-VCPU-'' @ fmt_d vcpu)"

definition vm_key :: "u32 \<Rightarrow> string \<Rightarrow> string" where
  "vm_key vcpu key = cstrcpy 512 (''VM-'' @ fmt_d vcpu @ '':'' @ key)"

text \<open>Two handles as the C array \<^verbatim>\<open>outgoing[2]\<close>.\<close>

definition pair_mem :: "atom_handle \<Rightarrow> atom_handle \<Rightarrow> nat \<Rightarrow> atom_handle" where
  "pair_mem a b i = (if i = 0 then a else b)"

definition hypercog_vm_created :: "addr option \<Rightarrow> u32 \<Rightarrow> world \<Rightarrow> fault + errno \<times> world" where
  "hypercog_vm_created ctx vcpu w =
     (case deref (w_ctxs w) ctx of
        Inl f \<Rightarrow> Inl f
      | Inr None \<Rightarrow> Inr (OK, w)
      | Inr (Some hc) \<Rightarrow>
          if \<not> enabled hc then Inr (OK, w)
          else
            (case deref (w_spaces w) (ctx_atomspace hc) of
               Inl f \<Rightarrow> Inl f
             | Inr p \<Rightarrow>
                 let (vm_node, p1, os1) =
                       atomspace_add_node p ATOM_TYPE_CONCEPT (Some (vm_name vcpu)) (w_os w);
                     (now, os2) = time os1;
                     (timestamp_node, p2, os3) =
                       atomspace_add_node p1 ATOM_TYPE_NODE (Some (cstrcpy 64 (fmt_d now))) os2;
                     (link, p3, os4) =
                       atomspace_add_link p2 ATOM_TYPE_EVALUATION
                         (Some (pair_mem vm_node timestamp_node)) 2 os3
                 in Inr (if link \<noteq> 0 then OK else ENOMEM,
                         w\<lparr>w_spaces := store_back (ctx_atomspace hc) p3 (w_spaces w), w_os := os4\<rparr>)))"

definition hypercog_vm_destroyed :: "addr option \<Rightarrow> u32 \<Rightarrow> world \<Rightarrow> fault + errno \<times> world" where
  "hypercog_vm_destroyed ctx vcpu w =
     (case deref (w_ctxs w) ctx of
        Inl f \<Rightarrow> Inl f
      | Inr None \<Rightarrow> Inr (OK, w)
      | Inr (Some hc) \<Rightarrow>
          if \<not> enabled hc then Inr (OK, w)
          else
            (case deref (w_spaces w) (ctx_atomspace hc) of
               Inl f \<Rightarrow> Inl f
             | Inr p \<Rightarrow>
                 (case atomspace_query p (Some (vm_name vcpu)) (w_os w) of
                    (r, os1) \<Rightarrow>
                      let p1 = (case r of
                                  None \<Rightarrow> p
                                | Some q \<Rightarrow>
                                    if 0 < count q
                                    then snd (atomspace_set_tv p (handles q ! 0)
                                                \<lparr>strength = float_zero, confidence = float_one\<rparr>)
                                    else p)
                      in Inr (OK, w\<lparr>w_spaces := store_back (ctx_atomspace hc) p1 (w_spaces w),
                                    w_os := atomspace_free_query_result r os1\<rparr>))))"

definition hypercog_add_vm_knowledge ::
  "addr option \<Rightarrow> u32 \<Rightarrow> string option \<Rightarrow> string option \<Rightarrow> world \<Rightarrow> fault + atom_handle \<times> world" where
  "hypercog_add_vm_knowledge ctx vcpu key val w =
     (case deref (w_ctxs w) ctx of
        Inl f \<Rightarrow> Inl f
      | Inr None \<Rightarrow> Inr (0, w)
      | Inr (Some hc) \<Rightarrow>
          (case (key, val) of
             (Some k, Some v) \<Rightarrow>
               if \<not> enabled hc then Inr (0, w)
               else
                 (case deref (w_spaces w) (ctx_atomspace hc) of
                    Inl f \<Rightarrow> Inl f
                  | Inr p \<Rightarrow>
                      let (key_node, p1, os1) =
                            atomspace_add_node p ATOM_TYPE_PREDICATE (Some (vm_key vcpu k)) (w_os w);
                          (value_node, p2, os2) =
                            atomspace_add_node p1 ATOM_TYPE_CONCEPT (Some v) os1;
                          (link, p3, os3) =
                            atomspace_add_link p2 ATOM_TYPE_EVALUATION
                              (Some (pair_mem key_node value_node)) 2 os2
                      in Inr (link, w\<lparr>w_spaces := store_back (ctx_atomspace hc) p3 (w_spaces w),
                                      w_os := os3\<rparr>))
           | _ \<Rightarrow> Inr (0, w)))"

definition hypercog_query_vm_knowledge ::
  "addr option \<Rightarrow> u32 \<Rightarrow> string option \<Rightarrow> world \<Rightarrow> fault + atom_handle \<times> world" where
  "hypercog_query_vm_knowledge ctx vcpu qu w =
     (case deref (w_ctxs w) ctx of
        Inl f \<Rightarrow> Inl f
      | Inr None \<Rightarrow> Inr (0, w)
      | Inr (Some hc) \<Rightarrow>
          (case qu of
             None \<Rightarrow> Inr (0, w)
           | Some q \<Rightarrow>
               if \<not> enabled hc then Inr (0, w)
               else
                 (case deref (w_spaces w) (ctx_atomspace hc) of
                    Inl f \<Rightarrow> Inl f
                  | Inr p \<Rightarrow>
                      (case atomspace_query p (Some (vm_key vcpu q)) (w_os w) of
                         (r, os1) \<Rightarrow>
                           Inr (case r of None \<Rightarrow> 0
                                  | Some res \<Rightarrow> if 0 < count res then handles res ! 0 else 0,
                                w\<lparr>w_os := atomspace_free_query_result r os1\<rparr>)))))"

section \<open>The global context\<close>

definition hypercog_get_global_context :: "world \<Rightarrow> addr option" where
  "hypercog_get_global_context w = global_hypercog_ctx w"

definition hypercog_set_global_context :: "addr option \<Rightarrow> world \<Rightarrow> errno \<times> world" where
  "hypercog_set_global_context ctx w = (OK, w\<lparr>global_hypercog_ctx := ctx\<rparr>)"

section \<open>The hooks as clients of the store\<close>

lemma broadcast_Some [simp]: "(snd (atomspace_broadcast_atom (Some as) h) = None) = False"
  by (simp add: atomspace_broadcast_atom_def split: option.split)

lemma add_node_as_add:
  "atomspace_add_node (Some as) ty (Some s) os =
     (case as_add (AddNode ty s) (as, os) of (h, as', os') \<Rightarrow> (h, Some as', os'))"
  by (auto simp: atomspace_add_node_def Let_def split_beta split: option.split)

lemma add_link_as_add:
  "atomspace_add_link (Some as) ty (Some mem) cnt os =
     (case as_add (AddLink ty mem cnt) (as, os) of (h, as', os') \<Rightarrow> (h, Some as', os'))"
  by (auto simp: atomspace_add_link_def Let_def split_beta split: option.split)

definition read_clock :: "atomspace \<times> os \<Rightarrow> atomspace \<times> os" where
  "read_clock s = (fst s, snd (time (snd s)))"

definition clock_node :: "atomspace \<times> os \<Rightarrow> atom_request" where
  "clock_node s = AddNode ATOM_TYPE_NODE (cstrcpy 64 (fmt_d (fst (time (snd s)))))"

definition pair_link :: "atom_handle \<Rightarrow> atom_handle \<Rightarrow> atom_request" where
  "pair_link a b = AddLink ATOM_TYPE_EVALUATION (pair_mem a b) 2"

lemma neutral_read_clock: "store.neutral read_clock"
  by (auto simp: store.neutral_def read_clock_def)

lemma neutral_id: "store.neutral (\<lambda>s. s)"
  by (simp add: store.neutral_def)

definition live_ctx ::
  "world \<Rightarrow> addr \<Rightarrow> hypercog_ctx \<Rightarrow> addr \<Rightarrow> atomspace \<Rightarrow> addr \<Rightarrow> hgql_server \<Rightarrow> bool" where
  "live_ctx w c hc sp as sv srv \<longleftrightarrow>
     w_ctxs w c = Some hc \<and> enabled hc \<and> ctx_atomspace hc = Some sp \<and> w_spaces w sp = Some as
     \<and> graphql_server hc = Some sv \<and> w_servers w sv = Some srv \<and> srv_atomspace srv = sp
     \<and> ctx_distributed hc = distributed_mode as"

lemma vm_created_pair:
  assumes "live_ctx w c hc sp as sv srv"
    and "store.add_pair (AddNode ATOM_TYPE_CONCEPT (vm_name vcpu)) read_clock clock_node pair_link
           (as, w_os w) = ((h1, h2, h3), (as', os'))"
  shows "hypercog_vm_created (Some c) vcpu w =
    Inr (if h3 \<noteq> 0 then OK else ENOMEM, w\<lparr>w_spaces := (w_spaces w)(sp \<mapsto> as'), w_os := os'\<rparr>)"
proof -
  obtain a1 o1 a2 o2 where e: "as_add (AddNode ATOM_TYPE_CONCEPT (vm_name vcpu)) (as, w_os w) = (h1, a1, o1)"
      "as_add (clock_node (a1, o1)) (a1, snd (time o1)) = (h2, a2, o2)"
      "as_add (pair_link h1 h2) (a2, o2) = (h3, as', os')"
    using assms(2)
    by (auto simp: store.add_pair_def Let_def read_clock_def simp del: as_add.simps split: prod.splits)
  with assms(1) show ?thesis
    by (simp add: live_ctx_def hypercog_vm_created_def deref_def store_back_def add_node_as_add
          add_link_as_add clock_node_def pair_link_def Let_def split_beta del: as_add.simps)
qed

lemma vm_knowledge_pair:
  assumes "live_ctx w c hc sp as sv srv"
    and "store.add_pair (AddNode ATOM_TYPE_PREDICATE (vm_key vcpu k)) (\<lambda>s. s)
           (\<lambda>_. AddNode ATOM_TYPE_CONCEPT v) pair_link (as, w_os w) = ((h1, h2, h3), (as', os'))"
  shows "hypercog_add_vm_knowledge (Some c) vcpu (Some k) (Some v) w =
    Inr (h3, w\<lparr>w_spaces := (w_spaces w)(sp \<mapsto> as'), w_os := os'\<rparr>)"
proof -
  obtain a1 o1 a2 o2 where e: "as_add (AddNode ATOM_TYPE_PREDICATE (vm_key vcpu k)) (as, w_os w) = (h1, a1, o1)"
      "as_add (AddNode ATOM_TYPE_CONCEPT v) (a1, o1) = (h2, a2, o2)"
      "as_add (pair_link h1 h2) (a2, o2) = (h3, as', os')"
    using assms(2)
    by (auto simp: store.add_pair_def Let_def simp del: as_add.simps split: prod.splits)
  with assms(1) show ?thesis
    by (simp add: live_ctx_def hypercog_add_vm_knowledge_def deref_def store_back_def add_node_as_add
          add_link_as_add pair_link_def Let_def split_beta del: as_add.simps)
qed

section \<open>Runs of hooks\<close>

text \<open>\<open>hc_good L c k w\<close>: the context at \<open>c\<close> is live, its server points to its AtomSpace, the AtomSpace
  is well formed after at most \<open>k\<close> handles, and the live blocks are those of \<open>L\<close> and of the context.\<close>

definition hc_good :: "addr set \<Rightarrow> addr \<Rightarrow> nat \<Rightarrow> world \<Rightarrow> bool" where
  "hc_good L c k w \<longleftrightarrow>
     (\<exists>hc sp as sv srv. live_ctx w c hc sp as sv srv \<and> c \<notin> L \<and> sv \<notin> L \<and> c \<noteq> sv
        \<and> as_good (L \<union> {c, sv}) sp k (as, w_os w))"

text \<open>A query is executed against the context's server; its response is released.\<close>

datatype hc_op =
    VmCreated u32 | VmDestroyed u32 | Learn u32 string string | Ask u32 string
  | Start | Stop | Gql hgql_query

definition gql_request :: "addr \<Rightarrow> hgql_query \<Rightarrow> world \<Rightarrow> fault + world" where
  "gql_request c q w =
     (case deref (w_ctxs w) (Some c) of
        Inl f \<Rightarrow> Inl f
      | Inr None \<Rightarrow> Inr w
      | Inr (Some hc) \<Rightarrow>
          (case deref (w_servers w) (graphql_server hc) of
             Inl f \<Rightarrow> Inl f
           | Inr srv \<Rightarrow>
               (case hgql_execute_query (w_spaces w) srv (Some q) (w_os w) of
                  Inl f \<Rightarrow> Inl f
                | Inr (r, os') \<Rightarrow> Inr (w\<lparr>w_os := hgql_free_response r os'\<rparr>))))"

fun hc_step :: "addr \<Rightarrow> hc_op \<Rightarrow> fault + world \<Rightarrow> fault + world" where
  "hc_step c op (Inl f) = Inl f"
| "hc_step c (VmCreated v) (Inr w) = map_sum id snd (hypercog_vm_created (Some c) v w)"
| "hc_step c (VmDestroyed v) (Inr w) = map_sum id snd (hypercog_vm_destroyed (Some c) v w)"
| "hc_step c (Learn v k x) (Inr w) = map_sum id snd (hypercog_add_vm_knowledge (Some c) v (Some k) (Some x) w)"
| "hc_step c (Ask v q) (Inr w) = map_sum id snd (hypercog_query_vm_knowledge (Some c) v (Some q) w)"
| "hc_step c Start (Inr w) = map_sum id snd (hypercog_start (Some c) w)"
| "hc_step c Stop (Inr w) = map_sum id snd (hypercog_stop (Some c) w)"
| "hc_step c (Gql q) (Inr w) = gql_request c q w"

lemma as_good_le: "as_good L sp k s \<Longrightarrow> k \<le> m \<Longrightarrow> as_good L sp m s"
  by (simp add: as_good_def)

lemma as_good_pair:
  assumes good: "as_good L sp k s" and k: "k < 2 ^ 64 - 4"
    and f: "\<And>k s. as_good L sp k s \<Longrightarrow> as_good L sp k (f s)"
    and e: "store.add_pair r1 f r2 r3 s = (hs, s')"
  shows "as_good L sp (k + 3) s'"
proof -
  obtain h1 h2 h3 s1 s2 where e': "as_add r1 s = (h1, s1)" "as_add (r2 s1) (f s1) = (h2, s2)"
      "as_add (r3 h1 h2) s2 = (h3, s')"
    using e by (auto simp: store.add_pair_def Let_def simp del: as_add.simps split: prod.splits)
  have add: "as_good L sp m t \<Longrightarrow> m < 2 ^ 64 - 2 \<Longrightarrow> as_add r t = (h, t') \<Longrightarrow> as_good L sp (Suc m) t'"
    for m t r h t'
    using as_good_add[of L sp m "fst t" "snd t" r] by simp
  have "as_good L sp (Suc k) (f s1)" using add[OF good _ e'(1)] k by (intro f) simp
  from add[OF this _ e'(2)] k have "as_good L sp (Suc (Suc k)) s2" by simp
  from add[OF this _ e'(3)] k show ?thesis by (simp add: numeral_3_eq_3)
qed

lemma as_good_read_clock: "as_good L sp k s \<Longrightarrow> as_good L sp k (read_clock s)"
  by (simp add: as_good_def read_clock_def owns_time)

lemma hc_good_space:
  assumes "live_ctx w c hc sp as sv srv" "c \<notin> L" "sv \<notin> L" "c \<noteq> sv"
    and "as_good (L \<union> {c, sv}) sp k (as', os')" "distributed_mode as' = distributed_mode as"
  shows "hc_good L c k (w\<lparr>w_spaces := (w_spaces w)(sp \<mapsto> as'), w_os := os'\<rparr>)"
  using assms by (auto simp: hc_good_def live_ctx_def)

lemma as_add_mode: "as_add r (as, os) = (h, as', os') \<Longrightarrow> distributed_mode as' = distributed_mode as"
  by (cases r)
    (auto simp: atomspace_add_node_def atomspace_add_link_def atomspace_broadcast_atom_def Let_def
       split_beta split: if_splits option.splits)

lemma add_pair_mode:
  assumes "store.add_pair r1 f r2 r3 s = (hs, s')" "\<And>s. fst (f s) = fst s"
  shows "distributed_mode (fst s') = distributed_mode (fst s)"
proof -
  obtain h1 h2 h3 s1 s2 where e: "as_add r1 s = (h1, s1)" "as_add (r2 s1) (f s1) = (h2, s2)"
      "as_add (r3 h1 h2) s2 = (h3, s')"
    using assms(1) by (auto simp: store.add_pair_def Let_def simp del: as_add.simps split: prod.splits)
  have m: "as_add r t = (h, t') \<Longrightarrow> distributed_mode (fst t') = distributed_mode (fst t)" for r t h t'
    using as_add_mode[of r "fst t" "snd t" h "fst t'" "snd t'"] by simp
  from m[OF e(1)] m[OF e(2)] m[OF e(3)] assms(2) show ?thesis by simp
qed

lemma step_pair:
  assumes live: "live_ctx w c hc sp as sv srv" and d: "c \<notin> L" "sv \<notin> L" "c \<noteq> sv"
    and good: "as_good (L \<union> {c, sv}) sp k (as, w_os w)" and k: "k < 2 ^ 64 - 4"
    and e: "store.add_pair r1 f r2 r3 (as, w_os w) = (hs, (as', os'))"
    and f: "\<And>k s. as_good (L \<union> {c, sv}) sp k s \<Longrightarrow> as_good (L \<union> {c, sv}) sp k (f s)"
      "\<And>s. fst (f s) = fst s"
  shows "hc_good L c (k + 3) (w\<lparr>w_spaces := (w_spaces w)(sp \<mapsto> as'), w_os := os'\<rparr>)"
  using hc_good_space[OF live d as_good_pair[OF good k f(1) e]] add_pair_mode[OF e f(2)] by simp

lemma query_good:
  assumes "as_good L sp k (as, os)" "atomspace_query (Some as) (Some pat) os = (r, os1)"
  shows "as_good L sp k (as, atomspace_free_query_result r os1)"
proof -
  have wf: "os_wf os" using assms(1) by (simp add: as_good_def owns_def)
  with assms query_release[OF wf assms(2)] free_query_wf[OF query_wf[OF wf assms(2)]]
  show ?thesis by (simp add: as_good_def owns_def)
qed

lemma step_destroyed:
  assumes live: "live_ctx w c hc sp as sv srv" and d: "c \<notin> L" "sv \<notin> L" "c \<noteq> sv"
    and good: "as_good (L \<union> {c, sv}) sp k (as, w_os w)"
  shows "\<exists>w'. hypercog_vm_destroyed (Some c) v w = Inr (OK, w') \<and> hc_good L c (Suc k) w'"
proof -
  obtain r os1 where q: "atomspace_query (Some as) (Some (vm_name v)) (w_os w) = (r, os1)" by fastforce
  define os2 where "os2 = atomspace_free_query_result r os1"
  define mark where "mark = (\<lambda>h. snd (atomspace_set_tv (Some as) h \<lparr>strength = float_zero, confidence = float_one\<rparr>))"
  have g: "as_good (L \<union> {c, sv}) sp k (as, os2)" using query_good[OF good q] by (simp add: os2_def)
  have inv: "as_inv as" using good by (simp add: as_good_def)
  have set: "\<exists>as'. mark h = Some as' \<and> as_good (L \<union> {c, sv}) sp (Suc k) (as', os2)
      \<and> distributed_mode as' = distributed_mode as" for h
  proof (cases "atomspace_get_atom (Some as) h")
    case None
    with g show ?thesis by (simp add: mark_def set_tv_eq[OF inv] as_good_mono)
  next
    case (Some i)
    then have "i < unat (atom_count as)" using get_atom_Some_iff[OF inv] by blast
    with Some g show ?thesis by (auto simp: mark_def set_tv_eq[OF inv] same_shape_def intro!: as_good_set)
  qed
  have "\<exists>as'. (case r of None \<Rightarrow> Some as | Some x \<Rightarrow> if 0 < count x then mark (handles x ! 0) else Some as)
      = Some as' \<and> as_good (L \<union> {c, sv}) sp (Suc k) (as', os2)
      \<and> distributed_mode as' = distributed_mode as"
  proof (cases r)
    case None
    with as_good_mono[OF g] show ?thesis by simp
  next
    case (Some x)
    with as_good_mono[OF g] set[of "handles x ! 0"] show ?thesis by (cases "0 < count x") auto
  qed
  then obtain as' where as': "(case r of None \<Rightarrow> Some as
      | Some x \<Rightarrow> if 0 < count x then mark (handles x ! 0) else Some as) = Some as'"
    "as_good (L \<union> {c, sv}) sp (Suc k) (as', os2)" "distributed_mode as' = distributed_mode as" by blast
  have "hypercog_vm_destroyed (Some c) v w =
      Inr (OK, w\<lparr>w_spaces := (w_spaces w)(sp \<mapsto> as'), w_os := os2\<rparr>)"
    using live q as'(1) unfolding mark_def
    by (simp add: hypercog_vm_destroyed_def live_ctx_def deref_def store_back_def Let_def os2_def)
  with hc_good_space[OF live d as'(2,3)] show ?thesis by blast
qed

lemma step_gql:
  assumes live: "live_ctx w c hc sp as sv srv" and d: "c \<notin> L" "sv \<notin> L" "c \<noteq> sv"
    and good: "as_good (L \<union> {c, sv}) sp k (as, w_os w)"
  shows "\<exists>w'. gql_request c q w = Inr w' \<and> hc_good L c k w'"
proof -
  have wf: "os_wf (w_os w)" using good by (simp add: as_good_def owns_def)
  obtain r os' where e: "hgql_execute_query (w_spaces w) (Some srv) (Some q) (w_os w) = Inr (r, os')"
    and os': "os_live (hgql_free_response r os') = os_live (w_os w)" "os_wf (hgql_free_response r os')"
  proof -
    have "\<exists>r os'. hgql_execute_query (w_spaces w) (Some srv) (Some q) (w_os w) = Inr (r, os')
        \<and> os_live (hgql_free_response r os') = os_live (w_os w) \<and> os_wf (hgql_free_response r os')"
    proof (cases "calloc (w_os w)")
      case (Pair p os1)
      have sp: "w_spaces w (srv_atomspace srv) = Some as" using live by (simp add: live_ctx_def)
      have wf1: "os_wf os1" using calloc_wf[OF wf Pair] .
      show ?thesis
      proof (cases p)
        case None
        with Pair calloc_None_live[of "w_os w" os1] wf1 show ?thesis
          by (simp add: hgql_execute_query_def hgql_free_response_def)
      next
        case (Some a)
        with Pair have c: "calloc (w_os w) = (Some a, os1)" by simp
        have "os_live os1 - {a} = os_live (w_os w)"
          using calloc_Some_live[OF c] calloc_fresh[OF wf c] by auto
        with c sp wf1 free_wf[OF wf1, of a] show ?thesis
          by (simp add: hgql_execute_query_def hgql_free_response_def Let_def)
      qed
    qed
    with that show ?thesis by blast
  qed
  have "as_good (L \<union> {c, sv}) sp k (as, hgql_free_response r os')"
    using good os' by (simp add: as_good_def owns_def)
  then have "hc_good L c k (w\<lparr>w_os := hgql_free_response r os'\<rparr>)"
    using live d unfolding hc_good_def live_ctx_def by fastforce
  with e live show ?thesis by (simp add: gql_request_def deref_def live_ctx_def)
qed

lemma hc_good_step:
  assumes "hc_good L c k w" "k < 2 ^ 64 - 4"
  shows "\<exists>w'. hc_step c op (Inr w) = Inr w' \<and> hc_good L c (k + 3) w'"
proof -
  obtain hc sp as sv srv where live: "live_ctx w c hc sp as sv srv" and d: "c \<notin> L" "sv \<notin> L" "c \<noteq> sv"
    and good: "as_good (L \<union> {c, sv}) sp k (as, w_os w)"
    using assms(1) by (auto simp: hc_good_def)
  have more: "hc_good L c m w' \<Longrightarrow> m \<le> k + 3 \<Longrightarrow> hc_good L c (k + 3) w'" for m w'
    unfolding hc_good_def using as_good_le by blast
  show ?thesis
  proof (cases op)
    case (VmCreated v)
    obtain h1 h2 h3 as' os' where e: "store.add_pair (AddNode ATOM_TYPE_CONCEPT (vm_name v)) read_clock
        clock_node pair_link (as, w_os w) = ((h1, h2, h3), as', os')" by (metis surj_pair)
    from vm_created_pair[OF live e] step_pair[OF live d good assms(2) e as_good_read_clock] VmCreated
    show ?thesis by (simp add: read_clock_def)
  next
    case (Learn v k x)
    obtain h1 h2 h3 as' os' where e: "store.add_pair (AddNode ATOM_TYPE_PREDICATE (vm_key v k)) (\<lambda>s. s)
        (\<lambda>_. AddNode ATOM_TYPE_CONCEPT x) pair_link (as, w_os w) = ((h1, h2, h3), as', os')"
      by (metis surj_pair)
    from vm_knowledge_pair[OF live e] step_pair[OF live d good assms(2) e] Learn
    show ?thesis by simp
  next
    case (VmDestroyed v)
    with step_destroyed[OF live d good, of v] more show ?thesis by fastforce
  next
    case (Ask v q)
    obtain r os1 where qe: "atomspace_query (Some as) (Some (vm_key v q)) (w_os w) = (r, os1)" by fastforce
    have "hc_good L c k (w\<lparr>w_os := atomspace_free_query_result r os1\<rparr>)"
      using query_good[OF good qe] live d unfolding hc_good_def live_ctx_def by fastforce
    with Ask qe live more show ?thesis
      by (auto simp: hypercog_query_vm_knowledge_def live_ctx_def deref_def)
  next
    case Start
    have "hc_good L c k (w\<lparr>w_servers := (w_servers w)(sv \<mapsto> srv\<lparr>running := b\<rparr>)\<rparr>)" for b
      using live d good unfolding hc_good_def live_ctx_def by fastforce
    from more[OF this] more[OF assms(1)] Start live show ?thesis
      by (auto simp: hypercog_start_def live_ctx_def deref_def hgql_server_start_def store_back_def
          atomspace_sync_start_def fun_upd_idem)
  next
    case Stop
    have "hc_good L c k (w\<lparr>w_servers := (w_servers w)(sv \<mapsto> srv\<lparr>running := b\<rparr>)\<rparr>)" for b
      using live d good unfolding hc_good_def live_ctx_def by fastforce
    from more[OF this] more[OF assms(1)] Stop live show ?thesis
      by (auto simp: hypercog_stop_def live_ctx_def deref_def hgql_server_stop_def store_back_def
          atomspace_sync_stop_def fun_upd_idem Let_def)
  next
    case (Gql q)
    with step_gql[OF live d good, of q] more show ?thesis by fastforce
  qed
qed

section \<open>Initialisation and destruction\<close>

lemma owns_calloc_Some:
  assumes "owns L sp as os" "calloc os = (Some a, os')"
  shows "owns (insert a L) sp as os' \<and> a \<notin> L \<and> a \<noteq> sp"
proof -
  have wf: "os_wf os" using assms(1) by (simp add: owns_def)
  from assms calloc_wf[OF wf assms(2)] calloc_fresh[OF wf assms(2)] calloc_Some_live[OF assms(2)]
  show ?thesis by (auto simp: owns_def)
qed

lemma init_OK_iff:
  "atomspace_init True dist os = (e, r, os') \<Longrightarrow> (r = None \<longleftrightarrow> e \<noteq> OK) \<and> (e = OK \<or> e = ENOMEM)"
  by (auto simp: atomspace_init_def Let_def split: prod.splits option.splits if_splits)

lemma init_mode:
  "atomspace_init True dist os = (OK, Some (sp, as), os') \<Longrightarrow>
     distributed_mode as = dist \<and> atom_count as = 0"
  by (auto simp: atomspace_init_def Let_def split: prod.splits option.splits if_splits)

lemma init_fail_live:
  assumes "os_wf os" "atomspace_init True dist os = (e, None, os')"
  shows "os_live os' = os_live os"
proof (cases "calloc os")
  case (Pair p os1)
  show ?thesis
  proof (cases p)
    case None
    with Pair assms(2) calloc_None_live[of os os1] show ?thesis by (auto simp: atomspace_init_def)
  next
    case (Some sp)
    with Pair have c: "calloc os = (Some sp, os1)" by simp
    obtain p2 os2 where c2: "calloc os1 = (p2, os2)" by fastforce
    with c assms(2) have "p2 = None" "os' = free sp os2"
      by (auto simp: atomspace_init_def Let_def split: prod.splits option.splits if_splits)
    with c c2 calloc_Some_live[OF c] calloc_fresh[OF assms(1) c] calloc_None_live[of os1 os2]
    show ?thesis by auto
  qed
qed

lemma hypercog_init_good:
  assumes wf: "os_wf (w_os w)" and e: "hypercog_init True dist prt w = (OK, Some c, w1)"
  shows "hc_good (os_live (w_os w)) c 0 w1"
proof -
  obtain os1 sp as os2 sv srv os3 where
    c: "calloc (w_os w) = (Some c, os1)" and i: "atomspace_init True dist os1 = (OK, Some (sp, as), os2)"
    and h: "hgql_server_init True (Some sp) prt os2 = (OK, Some (sv, srv), os3)"
    and w1: "w1 = w\<lparr>w_spaces := (w_spaces w)(sp \<mapsto> as), w_servers := (w_servers w)(sv \<mapsto> srv),
        w_ctxs := (w_ctxs w)(c \<mapsto> \<lparr>ctx_atomspace = Some sp, graphql_server = Some sv, enabled = True,
          ctx_distributed = dist, graphql_port = prt\<rparr>), w_os := os3\<rparr>"
    using e init_OK_iff
    by (fastforce simp: hypercog_init_def hgql_server_init_def split: prod.splits option.splits if_splits)
  have s: "calloc os2 = (Some sv, os3)" "srv_atomspace srv = sp"
    using h by (auto simp: hgql_server_init_def split: prod.splits option.splits)
  have wf1: "os_wf os1" using calloc_wf[OF wf c] .
  have L1: "os_live os1 = insert c (os_live (w_os w))" "c \<notin> os_live (w_os w)"
    using calloc_Some_live[OF c] calloc_fresh[OF wf c] by auto
  have g: "as_good (os_live os1) sp 0 (as, os2)" using init_good[OF i wf1] .
  then have own: "owns (insert sv (os_live os1)) sp as os3" "sv \<notin> os_live os1"
    using owns_calloc_Some[OF _ s(1)] by (auto simp: as_good_def)
  with g L1 have "as_good (os_live (w_os w) \<union> {c, sv}) sp 0 (as, os3)"
    by (auto simp: as_good_def insert_commute)
  moreover have "live_ctx w1 c \<lparr>ctx_atomspace = Some sp, graphql_server = Some sv, enabled = True,
      ctx_distributed = dist, graphql_port = prt\<rparr> sp as sv srv"
    using w1 s init_mode[OF i] by (simp add: live_ctx_def)
  moreover have "w_os w1 = os3" using w1 by simp
  ultimately show ?thesis
    unfolding hc_good_def using L1 own(2) by (metis insert_iff)
qed

lemma hypercog_destroy_good:
  assumes "hc_good L c k w"
  shows "\<exists>w'. hypercog_destroy (Some c) w = Inr w' \<and> os_live (w_os w') = L \<and> w_ctxs w' c = None
    \<and> global_hypercog_ctx w' = global_hypercog_ctx w"
proof -
  obtain hc sp as sv srv where live: "live_ctx w c hc sp as sv srv" and d: "c \<notin> L" "sv \<notin> L" "c \<noteq> sv"
    and good: "as_good (L \<union> {c, sv}) sp k (as, w_os w)"
    using assms by (auto simp: hc_good_def)
  have inv: "as_inv as" and own: "owns (L \<union> {c, sv}) sp as (w_os w)"
    using good by (auto simp: as_good_def)
  have ab: "atoms_addr as \<noteq> None" using inv by (simp add: as_inv_def)
  have "os_live (free c (atomspace_destroy (Some (sp, as)) (free sv (w_os w)))) = L"
    using own d destroy_live[OF ab, of sp "free sv (w_os w)"] by (auto simp: owns_def)
  with live show ?thesis
    by (simp add: hypercog_destroy_def live_ctx_def deref_def hgql_server_destroy_def Let_def)
qed

text \<open>The counted run of the hooks: each uses at most three handles.\<close>

fun hc_count_step :: "addr \<Rightarrow> hc_op \<Rightarrow> nat \<times> (fault + world) \<Rightarrow> nat \<times> (fault + world)" where
  "hc_count_step c op (k, s) = (k + 3, hc_step c op s)"

definition hc_started :: "addr set \<Rightarrow> addr \<Rightarrow> nat \<times> (fault + world) \<Rightarrow> bool" where
  "hc_started L c ks \<longleftrightarrow>
     fst ks = 0 \<and> (\<exists>dist prt w w1. hypercog_init True dist prt w = (OK, Some c, w1)
        \<and> os_wf (w_os w) \<and> os_live (w_os w) = L \<and> snd ks = Inr w1)"

interpretation hc_run: machine "hc_started L c" "hc_count_step c"
  "\<lambda>(k, s). k < 2 ^ 64 - 1 \<longrightarrow> (\<exists>w. s = Inr w \<and> hc_good L c k w)" for L c
proof (unfold_locales, goal_cases)
  case (1 ks)
  then show ?case by (auto simp: hc_started_def dest: hypercog_init_good)
next
  case (2 ks op)
  obtain k s where ks: "ks = (k, s)" by fastforce
  show ?case
  proof (cases "k + 3 < 2 ^ 64 - 1")
    case True
    with 2 ks obtain w where "s = Inr w" "hc_good L c k w" by auto
    with hc_good_step[of L c k w op] True ks show ?thesis by simp
  qed (simp add: ks)
qed

lemma fold_hc_count: "fold (hc_count_step c) ops (k, s) = (k + 3 * length ops, fold (hc_step c) ops s)"
  by (induction ops arbitrary: k s) auto

text \<open>
  C1 (safety). Once \<^verbatim>\<open>hypercog_init\<close> has succeeded, any sequence of VM hooks, knowledge updates and
  look-ups, service starts and stops and GraphQL requests runs without touching a freed or null
  object, whatever allocations fail on the way; \<^verbatim>\<open>hypercog_destroy\<close> then succeeds and leaves exactly
  the blocks that were live before the initialisation.
\<close>

theorem hypercog_run_safe:
  assumes "os_wf (w_os w)" "hypercog_init True dist prt w = (OK, Some c, w1)"
    and "3 * length ops < 2 ^ 64 - 1"
  shows "\<exists>w2 w3. fold (hc_step c) ops (Inr w1) = Inr w2 \<and> hypercog_destroy (Some c) w2 = Inr w3
    \<and> os_live (w_os w3) = os_live (w_os w) \<and> w_ctxs w3 c = None"
proof -
  have "hc_started (os_live (w_os w)) c (0, Inr w1)"
    using assms(1,2) by (auto simp: hc_started_def)
  from hc_run.run_invar[OF this, of ops] assms(3)
  obtain w2 where "fold (hc_step c) ops (Inr w1) = Inr w2"
    "hc_good (os_live (w_os w)) c (3 * length ops) w2"
    unfolding fold_hc_count prod.case add_0 by blast
  with hypercog_destroy_good[of "os_live (w_os w)" c] show ?thesis by blast
qed

definition world0 :: "u64 \<Rightarrow> world" where
  "world0 t = \<lparr>w_spaces = (\<lambda>_. None), w_servers = (\<lambda>_. None), w_ctxs = (\<lambda>_. None),
     global_hypercog_ctx = None, w_os = os_plain t\<rparr>"

lemma world0_init:
  "\<exists>w1 hc as srv. hypercog_init True dist prt (world0 t) = (OK, Some 1, w1)
     \<and> live_ctx w1 1 hc 2 as 4 srv \<and> as_inv as \<and> atom_count as = 0 \<and> next_handle as = 1
     \<and> mem_ok (w_os w1) \<and> os_wf (w_os w1) \<and> (\<forall>k. os_clock (w_os w1) k = t)"
  by (cases dist) (simp_all add: hypercog_init_def world0_def calloc_def os_plain_def atomspace_init_def Let_def
        hgql_server_init_def live_ctx_def time_def atomspace_consts as_inv_def mem_ok_def os_wf_def)

theorem hypercog_run_safe_witness:
  "\<exists>w1 w2 w3. hypercog_init True True 8080 (world0 7) = (OK, Some 1, w1)
     \<and> fold (hc_step 1) [VmCreated 0, Learn 0 ''os'' ''linux'', Ask 0 ''os'', Start, VmDestroyed 0, Stop] (Inr w1)
       = Inr w2
     \<and> hypercog_destroy (Some 1) w2 = Inr w3 \<and> os_live (w_os w3) = {}"
proof -
  obtain w1 where w1: "hypercog_init True True 8080 (world0 7) = (OK, Some 1, w1)"
    using world0_init by blast
  have wf: "os_wf (w_os (world0 7))" "os_live (w_os (world0 7)) = {}"
    by (simp_all add: world0_def os_plain_def os_wf_def)
  from hypercog_run_safe[OF wf(1) w1,
      of "[VmCreated 0, Learn 0 ''os'' ''linux'', Ask 0 ''os'', Start, VmDestroyed 0, Stop]"]
  show ?thesis unfolding wf(2) using w1 by auto
qed

section \<open>What the hooks record\<close>

lemma mem_ok_time [simp]: "mem_ok (snd (time os)) = mem_ok os"
  by (simp add: mem_ok_def time_def)

fun as_nonempty :: "atom_request \<Rightarrow> bool" where
  "as_nonempty (AddNode _ _) = True"
| "as_nonempty (AddLink _ _ cnt) = (cnt \<noteq> 0)"

lemma as_add_succeeds:
  assumes "as_inv as" "0 < handle_room as" "unat (atom_count as) < 3072" "mem_ok os"
    and "as_nonempty r"
  shows "\<exists>as' os'. as_add r (as, os) = (next_handle as, as', os') \<and> as_inv as'
    \<and> Suc (handle_room as') = handle_room as \<and> unat (atom_count as') = Suc (unat (atom_count as)) \<and> mem_ok os'"
proof -
  have "\<exists>a os'. as_add r (as, os) = (next_handle as, push_atom a as, os') \<and> atom_ok as a \<and> mem_ok os'"
  proof (cases r)
    case (AddNode ty s)
    then show ?thesis using add_node_eq[OF assms(1,2), of ty s os] assms(3,4) new_node_ok by auto
  next
    case (AddLink ty mem cnt)
    then have cnt: "cnt \<noteq> 0" using assms(5) by simp
    obtain b os1 where "calloc os = (Some b, os1)" "mem_ok os1" using mem_ok_calloc[OF assms(4)] by blast
    with AddLink cnt add_link_eq[OF assms(1,2), of ty mem cnt os] assms(3) new_link_ok[OF cnt]
    show ?thesis by auto
  qed
  then obtain a os' where a: "as_add r (as, os) = (next_handle as, push_atom a as, os')" "atom_ok as a"
    "mem_ok os'" by blast
  show ?thesis
    using a(1,3) push_atom_inv[OF assms(1,3,2) a(2)] push_atom_count[OF assms(3), of a]
      push_atom_room[OF assms(2), of a] by (intro exI conjI)
qed

lemma pair_succeeds:
  assumes "as_inv as" "3 \<le> handle_room as" "unat (atom_count as) \<le> 3069" "mem_ok os"
    and "as_simple r1" "\<And>s. as_simple (r2 s)" "\<And>s. fst (f s) = fst s \<and> mem_ok (snd (f s)) = mem_ok (snd s)"
  shows "\<exists>h1 h2 h3 as' os'. store.add_pair r1 f r2 pair_link (as, os) = ((h1, h2, h3), as', os')
    \<and> h3 \<noteq> 0 \<and> mem_ok os' \<and> handle_room as = handle_room as' + 3
    \<and> unat (atom_count as') = unat (atom_count as) + 3"
proof -
  have simple: "as_simple r \<Longrightarrow> as_nonempty r" for r by (cases r) simp_all
  have room: "0 < handle_room as" and cap: "unat (atom_count as) < 3072" using assms(2,3) by auto
  obtain a1 o1 where 1: "as_add r1 (as, os) = (next_handle as, a1, o1)" "as_inv a1"
    "Suc (handle_room a1) = handle_room as" "unat (atom_count a1) = Suc (unat (atom_count as))" "mem_ok o1"
    using as_add_succeeds[OF assms(1) room(1) cap(1) assms(4) simple[OF assms(5)]] by blast
  have room1: "0 < handle_room a1" and cap1: "unat (atom_count a1) < 3072" using 1(3,4) assms(2,3) by auto
  obtain o1' where f: "f (a1, o1) = (a1, o1')" "mem_ok o1'"
    using assms(7)[of "(a1, o1)"] 1(5) by (cases "f (a1, o1)") auto
  obtain a2 o2 where 2: "as_add (r2 (a1, o1)) (a1, o1') = (next_handle a1, a2, o2)" "as_inv a2"
    "Suc (handle_room a2) = handle_room a1" "unat (atom_count a2) = Suc (unat (atom_count a1))" "mem_ok o2"
    using as_add_succeeds[OF 1(2) room1 cap1 f(2) simple[OF assms(6)]] by blast
  have room2: "0 < handle_room a2" and cap2: "unat (atom_count a2) < 3072"
    using 1(3,4) 2(3,4) assms(2,3) by auto
  have link: "as_nonempty (pair_link h g)" for h g by (simp add: pair_link_def)
  obtain a3 o3 where 3: "as_add (pair_link (next_handle as) (next_handle a1)) (a2, o2) = (next_handle a2, a3, o3)"
    "mem_ok o3" "Suc (handle_room a3) = handle_room a2" "unat (atom_count a3) = Suc (unat (atom_count a2))"
    using as_add_succeeds[OF 2(2) room2 cap2 2(5) link] by blast
  from 1 f 2 3 as_inv_next[OF 2(2)] show ?thesis
    by (simp add: store.add_pair_def Let_def del: as_add.simps)
qed

lemma vm_name_length: "length (vm_name v) < 256"
  by (simp add: vm_name_def cstrcpy_length)

lemma vm_name_id: "cstrcpy 256 (vm_name v) = vm_name v"
  using vm_name_length by (intro cstrcpy_id)

lemma query_first:
  assumes "as_inv as" "lookup as h = Some a" "sublist pat (name a)"
    and least: "\<And>g b. lookup as g = Some b \<Longrightarrow> sublist pat (name b) \<Longrightarrow> h \<le> g"
  shows "\<exists>hs. query_matches as pat = h # hs"
proof -
  have mem: "h \<in> set (query_matches as pat)"
    using assms(2,3) lookup_Some_iff[OF assms(1), of h a] by (auto simp: set_query_matches)
  then obtain g hs where q: "query_matches as pat = g # hs" by (cases "query_matches as pat") auto
  then have "h \<le> g" using query_lookup[OF assms(1), of g pat] least by auto
  moreover have "g \<le> h" using mem q sorted_query_matches[OF assms(1), of pat] by auto
  ultimately show ?thesis using q by simp
qed

lemma query_none:
  assumes "as_inv as" "\<And>g b. lookup as g = Some b \<Longrightarrow> \<not> sublist pat (name b)"
  shows "query_matches as pat = []"
proof (rule ccontr)
  assume "query_matches as pat \<noteq> []"
  then have "hd (query_matches as pat) \<in> set (query_matches as pat)" by simp
  from query_lookup[OF assms(1) this] assms(2) show False by blast
qed

lemma live_ctx_space:
  "live_ctx w c hc sp as sv srv \<Longrightarrow> distributed_mode as' = distributed_mode as \<Longrightarrow>
     live_ctx (w\<lparr>w_spaces := (w_spaces w)(sp \<mapsto> as'), w_os := os'\<rparr>) c hc sp as' sv srv"
  by (simp add: live_ctx_def)

lemma ask_first:
  assumes "live_ctx w c hc sp as sv srv" "as_inv as" "mem_ok (w_os w)"
    and "query_matches as (vm_key v k) = h # hs"
  shows "\<exists>os'. hypercog_query_vm_knowledge (Some c) v (Some k) w = Inr (h, w\<lparr>w_os := os'\<rparr>)"
proof -
  obtain q os' where q: "atomspace_query (Some as) (Some (vm_key v k)) (w_os w) = (Some q, os')"
    "handles q = h # hs" "unat (count q) = length (handles q)"
    using query_ok[OF assms(2,3), of "vm_key v k"] assms(4) by auto
  have "0 < count q" using q(2,3) by (simp add: word_less_nat_alt)
  with q assms(1) show ?thesis
    by (auto simp: hypercog_query_vm_knowledge_def live_ctx_def deref_def)
qed

lemma ask_none:
  assumes "live_ctx w c hc sp as sv srv" "query_matches as (vm_key v k) = []"
  shows "\<exists>os'. hypercog_query_vm_knowledge (Some c) v (Some k) w = Inr (0, w\<lparr>w_os := os'\<rparr>)"
  using assms
  by (auto simp: hypercog_query_vm_knowledge_def live_ctx_def deref_def atomspace_query_def Let_def
        split: prod.split option.split)

lemma pair_records:
  assumes "as_inv as" "3 \<le> handle_room as" "as_simple r1" "\<And>s. as_simple (r2 s)" "store.neutral f"
    and "store.add_pair r1 f r2 pair_link (as, os) = ((h1, h2, h3), as', os')" "h3 \<noteq> 0"
  obtains a1 a2 a3 where "as_inv as'" "h1 \<noteq> 0" "h1 < h2" "h2 < h3"
    "\<forall>g a. lookup as g = Some a \<longrightarrow> g < h1" "lookup as' = (lookup as)(h1 \<mapsto> a1, h2 \<mapsto> a2, h3 \<mapsto> a3)"
    "as_fits r1 a1" "as_fits (r2 (snd (as_add r1 (as, os)))) a2"
    "atype a3 = ATOM_TYPE_EVALUATION" "targets a3 = [h1, h2]"
proof -
  have t: "targets a = [h1, h2] \<and> atype a = ATOM_TYPE_EVALUATION" if "as_fits (pair_link h1 h2) a" for a
    using that by (simp add: pair_link_def pair_mem_def upt_rec)
  from store.add_pair_ok[OF _ _ assms(3,4,5,6,7)] assms(1,2) that t show ?thesis
    unfolding prod.case by blast
qed

section \<open>Properties of the hooks\<close>

text \<open>
  \<^verbatim>\<open>hypercog_vm_created\<close> returns success exactly when it has recorded the VM: a
  concept node that carries the name of the virtual CPU, a node for the time, and an evaluation link
  from the one to the other, under three new handles; all other atoms are kept. When it returns
  \<^verbatim>\<open>-ENOMEM\<close>, every atom that existed before is still there unchanged.
\<close>

theorem vm_created_records:
  assumes "live_ctx w c hc sp as sv srv" "as_inv as" "3 \<le> handle_room as"
    and "hypercog_vm_created (Some c) v w = Inr (e, w')"
  shows "\<exists>as'. w_spaces w' sp = Some as' \<and> as_inv as'
    \<and> (\<forall>g a. lookup as g = Some a \<longrightarrow> lookup as' g = Some a)
    \<and> (if e = OK
       then \<exists>vm tm link a1 a2 a3. vm < tm \<and> tm < link
         \<and> lookup as' = (lookup as)(vm \<mapsto> a1, tm \<mapsto> a2, link \<mapsto> a3)
         \<and> (\<forall>g a. lookup as g = Some a \<longrightarrow> g < vm)
         \<and> atype a1 = ATOM_TYPE_CONCEPT \<and> name a1 = vm_name v
         \<and> atype a2 = ATOM_TYPE_NODE
         \<and> atype a3 = ATOM_TYPE_EVALUATION \<and> targets a3 = [vm, tm]
       else e = ENOMEM)"
proof -
  let ?r = "AddNode ATOM_TYPE_CONCEPT (vm_name v)"
  obtain h1 h2 h3 as' os' where p: "store.add_pair ?r read_clock clock_node pair_link (as, w_os w)
      = ((h1, h2, h3), (as', os'))" by (metis surj_pair)
  have w': "w' = w\<lparr>w_spaces := (w_spaces w)(sp \<mapsto> as'), w_os := os'\<rparr>" and e: "e = (if h3 \<noteq> 0 then OK else ENOMEM)"
    using vm_created_pair[OF assms(1) p] assms(4) by auto
  have keep: "as_inv as' \<and> (lookup as g = Some a \<longrightarrow> lookup as' g = Some a)" for g a
    using store.add_pair_keeps[OF _ _ neutral_read_clock p] assms(2,3) by simp
  show ?thesis
  proof (cases "h3 = 0")
    case True
    with keep e w' show ?thesis by auto
  next
    case False
    obtain a1 a2 a3 where r: "h1 < h2" "h2 < h3" "\<forall>g a. lookup as g = Some a \<longrightarrow> g < h1"
      "lookup as' = (lookup as)(h1 \<mapsto> a1, h2 \<mapsto> a2, h3 \<mapsto> a3)" "as_fits ?r a1"
      "as_fits (clock_node (snd (as_add ?r (as, w_os w)))) a2"
      "atype a3 = ATOM_TYPE_EVALUATION" "targets a3 = [h1, h2]"
      by (rule pair_records[OF assms(2,3) _ _ neutral_read_clock p False]) (simp_all add: clock_node_def)
    have "atype a1 = ATOM_TYPE_CONCEPT" "name a1 = vm_name v" "atype a2 = ATOM_TYPE_NODE"
      using r(5,6) by (simp_all add: clock_node_def atomspace_consts vm_name_id)
    moreover have "w_spaces w' sp = Some as'" "e = OK" using e w' False by auto
    ultimately show ?thesis using r(1-4,7,8) keep unfolding if_P[OF \<open>e = OK\<close>] by blast
  qed
qed

lemma world0_live:
  "\<exists>w1 hc as srv. hypercog_init True dist prt (world0 t) = (OK, Some 1, w1)
     \<and> live_ctx w1 1 hc 2 as 4 srv \<and> as_inv as \<and> 2 ^ 32 \<le> handle_room as
     \<and> atom_count as = 0 \<and> lookup as = (\<lambda>_. None) \<and> mem_ok (w_os w1)"
proof -
  obtain w1 hc as srv where w: "hypercog_init True dist prt (world0 t) = (OK, Some 1, w1)"
    "live_ctx w1 1 hc 2 as 4 srv" "as_inv as" "atom_count as = 0" "next_handle as = 1" "mem_ok (w_os w1)"
    using world0_init by blast
  have "2 ^ 32 \<le> handle_room as" using w(5) by (simp add: handle_room_def)
  moreover have "lookup as = (\<lambda>_. None)" using w(4) by (simp add: fun_eq_iff lookup_def atomspace_get_atom_def)
  ultimately show ?thesis using w by blast
qed

theorem vm_created_records_witness:
  "\<exists>w1 e w' as'. hypercog_init True False 8080 (world0 7) = (OK, Some 1, w1)
     \<and> hypercog_vm_created (Some 1) 3 w1 = Inr (e, w') \<and> w_spaces w' 2 = Some as' \<and> as_inv as'"
proof -
  obtain w1 hc as srv where w1: "hypercog_init True False 8080 (world0 7) = (OK, Some 1, w1)"
    "live_ctx w1 1 hc 2 as 4 srv" "as_inv as" "2 ^ 32 \<le> handle_room as"
    using world0_live by blast
  have room: "3 \<le> handle_room as" using w1(4) by simp
  obtain e w' where e: "hypercog_vm_created (Some 1) 3 w1 = Inr (e, w')"
    using vm_created_pair[OF w1(2)] by (metis surj_pair)
  from vm_created_records[OF w1(2,3) room e] w1(1) e show ?thesis by blast
qed



text \<open>
  A key whose full name \<^verbatim>\<open>VM-<vcpu>:<key>\<close> has 256 characters or more is learned without an
  error and cannot be looked up: the node keeps only the first 255 characters, the query searches
  for up to 511.
\<close>

theorem knowledge_long_key_lost:
  assumes "live_ctx w c hc sp as sv srv" "as_inv as" "3 \<le> handle_room as"
    and "unat (atom_count as) \<le> 3069" "mem_ok (w_os w)"
    and len: "256 \<le> length (''VM-'' @ fmt_d v @ '':'' @ k)"
  shows "\<exists>l w1 w2. hypercog_add_vm_knowledge (Some c) v (Some k) (Some x) w = Inr (l, w1) \<and> l \<noteq> 0
    \<and> hypercog_query_vm_knowledge (Some c) v (Some k) w1 = Inr (0, w2)"
proof -
  let ?r1 = "AddNode ATOM_TYPE_PREDICATE (vm_key v k)" and ?r2 = "\<lambda>_. AddNode ATOM_TYPE_CONCEPT x"
  obtain h1 h2 h3 as' os' where p: "store.add_pair ?r1 (\<lambda>s. s) ?r2 pair_link (as, w_os w) = ((h1, h2, h3), as', os')"
    and ok: "h3 \<noteq> 0"
    using pair_succeeds[OF assms(2-5), of ?r1 ?r2 "\<lambda>s. s"] by auto
  define w1 where "w1 = w\<lparr>w_spaces := (w_spaces w)(sp \<mapsto> as'), w_os := os'\<rparr>"
  have live: "live_ctx w1 c hc sp as' sv srv"
    unfolding w1_def using assms(1) add_pair_mode[OF p] by (intro live_ctx_space) simp_all
  have inv: "as_inv as'" using store.add_pair_keeps[OF _ _ neutral_id p] assms(2,3) by simp
  have "\<not> sublist (vm_key v k) (name b)" if "lookup as' g = Some b" for g b
  proof
    assume "sublist (vm_key v k) (name b)"
    then have "length (vm_key v k) \<le> length (name b)" by (rule sublist_length_le)
    moreover have "length (name b) < 256"
      using that lookup_Some_iff[OF inv, of g b] as_inv_slot[OF inv] by (auto simp: slot_ok_def atomspace_consts)
    ultimately show False using len by (simp add: vm_key_def cstrcpy_def)
  qed
  then have "query_matches as' (vm_key v k) = []" using query_none[OF inv] by blast
  from ask_none[OF live this] vm_knowledge_pair[OF assms(1) p, folded w1_def] ok
  show ?thesis by blast
qed

theorem knowledge_long_key_lost_witness:
  "\<exists>w0 l w1 w2. hypercog_init True False 8080 (world0 7) = (OK, Some 1, w0)
     \<and> hypercog_add_vm_knowledge (Some 1) 5 (Some (replicate 300 CHR ''k'')) (Some ''v'') w0 = Inr (l, w1)
     \<and> l \<noteq> 0 \<and> hypercog_query_vm_knowledge (Some 1) 5 (Some (replicate 300 CHR ''k'')) w1 = Inr (0, w2)"
proof -
  obtain w0 hc as srv where w: "hypercog_init True False 8080 (world0 7) = (OK, Some 1, w0)"
    "live_ctx w0 1 hc 2 as 4 srv" "as_inv as" "2 ^ 32 \<le> handle_room as"
    "atom_count as = 0" "lookup as = (\<lambda>_. None)" "mem_ok (w_os w0)"
    using world0_live by blast
  have "256 \<le> length (''VM-'' @ fmt_d (5 :: u32) @ '':'' @ replicate 300 CHR ''k'')" by simp
  with knowledge_long_key_lost[OF w(2,3) _ _ w(7), of 5 "replicate 300 CHR ''k''" "''v''"] w(1,4,5)
  show ?thesis by fastforce
qed

lemma vm_destroyed_eq:
  assumes "live_ctx w c hc sp as sv srv" "as_inv as" "mem_ok (w_os w)"
  shows "\<exists>os'. hypercog_vm_destroyed (Some c) v w = Inr (OK, w\<lparr>w_spaces := (w_spaces w)(sp \<mapsto>
      (case query_matches as (vm_name v) of [] \<Rightarrow> as
       | h # _ \<Rightarrow> the (snd (atomspace_set_tv (Some as) h \<lparr>strength = float_zero, confidence = float_one\<rparr>)))),
      w_os := os'\<rparr>)"
proof -
  obtain q os' where q: "atomspace_query (Some as) (Some (vm_name v)) (w_os w) = (Some q, os')"
    "handles q = query_matches as (vm_name v)" "unat (count q) = length (handles q)"
    using query_ok[OF assms(2,3), of "vm_name v"] by blast
  have "\<exists>as'. snd (atomspace_set_tv (Some as) h t) = Some as'" for h t
    using set_tv_eq[OF assms(2)] by (simp split: option.split)
  then have "store_back (Some sp) (snd (atomspace_set_tv (Some as) h t)) (w_spaces w)
      = (w_spaces w)(sp \<mapsto> the (snd (atomspace_set_tv (Some as) h t)))" for h t
    by (metis (no_types, lifting) option.sel option.simps(5) prod.case store_back_def)
  moreover have "0 < count q \<longleftrightarrow> query_matches as (vm_name v) \<noteq> []"
    using q(2,3) by (auto simp: word_less_nat_alt)
  ultimately show ?thesis using q(1,2) assms(1)
    by (intro exI[of _ "atomspace_free_query_result (Some q) os'"], cases "query_matches as (vm_name v)")
      (simp_all add: hypercog_vm_destroyed_def live_ctx_def deref_def store_back_def)
qed

lemma vm_destroyed_marks:
  assumes "live_ctx w c hc sp as sv srv" "as_inv as" "mem_ok (w_os w)"
    and "query_matches as (vm_name v) = h # hs" "lookup as h = Some a"
  shows "\<exists>as' os'. hypercog_vm_destroyed (Some c) v w =
      Inr (OK, w\<lparr>w_spaces := (w_spaces w)(sp \<mapsto> as'), w_os := os'\<rparr>)
    \<and> lookup as' = (lookup as)(h \<mapsto> a\<lparr>tv := \<lparr>strength = float_zero, confidence = float_one\<rparr>\<rparr>)"
proof -
  from set_tv_effect[OF assms(2,5), of "\<lparr>strength = float_zero, confidence = float_one\<rparr>"] obtain as' where
    "atomspace_set_tv (Some as) h \<lparr>strength = float_zero, confidence = float_one\<rparr> = (OK, Some as')"
    "lookup as' = (lookup as)(h \<mapsto> a\<lparr>tv := \<lparr>strength = float_zero, confidence = float_one\<rparr>\<rparr>)" by blast
  with assms(4) vm_destroyed_eq[OF assms(1-3), of v] show ?thesis by auto
qed


lemma vm_created_succeeds:
  assumes "live_ctx w c hc sp as sv srv" "as_inv as" "3 \<le> handle_room as"
    and "unat (atom_count as) \<le> 3069" "mem_ok (w_os w)"
  obtains w' as' vm a where "hypercog_vm_created (Some c) v w = Inr (OK, w')" "live_ctx w' c hc sp as' sv srv"
    "as_inv as'" "mem_ok (w_os w')" "handle_room as = handle_room as' + 3"
    "unat (atom_count as') = unat (atom_count as) + 3" "lookup as' vm = Some a" "name a = vm_name v"
    "\<forall>g b. lookup as g = Some b \<longrightarrow> g < vm \<and> lookup as' g = Some b"
proof -
  let ?r = "AddNode ATOM_TYPE_CONCEPT (vm_name v)"
  obtain h1 h2 h3 as' os' where p: "store.add_pair ?r read_clock clock_node pair_link (as, w_os w) = ((h1, h2, h3), as', os')"
    and ok: "h3 \<noteq> 0" "mem_ok os'" "handle_room as = handle_room as' + 3"
    "unat (atom_count as') = unat (atom_count as) + 3"
    using pair_succeeds[OF assms(2-5), of ?r clock_node read_clock]
    by (auto simp: clock_node_def read_clock_def)
  obtain a1 a2 a3 where r: "as_inv as'" "h1 < h2" "h2 < h3" "\<forall>g a. lookup as g = Some a \<longrightarrow> g < h1"
      "lookup as' = (lookup as)(h1 \<mapsto> a1, h2 \<mapsto> a2, h3 \<mapsto> a3)" "as_fits ?r a1"
    by (rule pair_records[OF assms(2,3) _ _ neutral_read_clock p ok(1)]) (simp_all add: clock_node_def)
  let ?w = "w\<lparr>w_spaces := (w_spaces w)(sp \<mapsto> as'), w_os := os'\<rparr>"
  have live: "live_ctx ?w c hc sp as' sv srv"
    using assms(1) add_pair_mode[OF p] by (intro live_ctx_space) (simp_all add: read_clock_def)
  have a1: "lookup as' h1 = Some a1" "name a1 = vm_name v"
    using r(2,3,5,6) by (auto simp: atomspace_consts vm_name_id)
  have keep: "\<forall>g b. lookup as g = Some b \<longrightarrow> g < h1 \<and> lookup as' g = Some b"
    using r(2-5) by fastforce
  have created: "hypercog_vm_created (Some c) v w = Inr (OK, ?w)" "mem_ok (w_os ?w)"
    using vm_created_pair[OF assms(1) p] ok by simp_all
  show ?thesis by (rule that[OF created(1) live r(1) created(2) ok(3,4) a1 keep])
qed


text \<open>
  C30 (error). The mark can land on the wrong VM. When a virtual CPU \<open>u\<close> was recorded before \<open>v\<close> and the
  decimal number of \<open>v\<close> is a prefix of the one of \<open>u\<close> (10 before 1), \<^verbatim>\<open>hypercog_vm_destroyed\<close> for \<open>v\<close>
  leaves the atom of \<open>v\<close> as it was and marks another one.
\<close>

theorem vm_destroyed_wrong_vm:
  assumes "live_ctx w c hc sp as sv srv" "as_inv as" "mem_ok (w_os w)"
    and "lookup as g = Some b" "name b = vm_name u" "lookup as h = Some a" "name a = vm_name v" "g < h"
    and "fmt_d u = fmt_d v @ ds"
  shows "\<exists>w' as'. hypercog_vm_destroyed (Some c) v w = Inr (OK, w') \<and> w_spaces w' sp = Some as'
    \<and> lookup as' h = Some a
    \<and> (\<exists>f d. f \<noteq> h \<and> lookup as f = Some d
         \<and> lookup as' f = Some (d\<lparr>tv := \<lparr>strength = float_zero, confidence = float_one\<rparr>\<rparr>))"
proof -
  have "vm_name u = vm_name v @ ds"
    using length_fmt_d32[of u] length_fmt_d32[of v] assms(9) by (simp add: vm_name_def cstrcpy_id)
  then have "sublist (vm_name v) (name b)" using assms(5) by simp
  then have g: "g \<in> set (query_matches as (vm_name v))"
    using assms(4) lookup_Some_iff[OF assms(2), of g b] by (auto simp: set_query_matches)
  then obtain f fs where f: "query_matches as (vm_name v) = f # fs" by (cases "query_matches as (vm_name v)") auto
  with g sorted_query_matches[OF assms(2), of "vm_name v"] assms(8) have "f \<noteq> h" by auto
  obtain d where d: "lookup as f = Some d" using query_lookup[OF assms(2), of f "vm_name v"] f by auto
  from vm_destroyed_marks[OF assms(1-3) f d] obtain as' os' where
    "hypercog_vm_destroyed (Some c) v w = Inr (OK, w\<lparr>w_spaces := (w_spaces w)(sp \<mapsto> as'), w_os := os'\<rparr>)"
    "lookup as' = (lookup as)(f \<mapsto> d\<lparr>tv := \<lparr>strength = float_zero, confidence = float_one\<rparr>\<rparr>)" by blast
  with d \<open>f \<noteq> h\<close> assms(6) show ?thesis by auto
qed

theorem vm_destroyed_wrong_vm_witness:
  "\<exists>w0 w1 w2 w3 as2 as3 h a. hypercog_init True False 8080 (world0 7) = (OK, Some 1, w0)
     \<and> hypercog_vm_created (Some 1) 10 w0 = Inr (OK, w1) \<and> hypercog_vm_created (Some 1) 1 w1 = Inr (OK, w2)
     \<and> hypercog_vm_destroyed (Some 1) 1 w2 = Inr (OK, w3) \<and> w_spaces w2 2 = Some as2 \<and> w_spaces w3 2 = Some as3
     \<and> name a = ''VM-VCPU-1'' \<and> lookup as2 h = Some a \<and> lookup as3 h = Some a"
proof -
  obtain w0 hc as0 srv where w: "hypercog_init True False 8080 (world0 7) = (OK, Some 1, w0)"
    "live_ctx w0 1 hc 2 as0 4 srv" "as_inv as0" "2 ^ 32 \<le> handle_room as0" "atom_count as0 = 0" "mem_ok (w_os w0)"
    using world0_live by blast
  have room0: "3 \<le> handle_room as0" "unat (atom_count as0) \<le> 3069" using w(4,5) by auto
  obtain w1 as1 g b where w1: "hypercog_vm_created (Some 1) 10 w0 = Inr (OK, w1)" "live_ctx w1 1 hc 2 as1 4 srv"
    "as_inv as1" "mem_ok (w_os w1)" "handle_room as0 = handle_room as1 + 3"
    "unat (atom_count as1) = unat (atom_count as0) + 3" "lookup as1 g = Some b" "name b = vm_name 10"
    by (rule vm_created_succeeds[OF w(2,3) room0 w(6), of 10]) blast
  have room: "3 \<le> handle_room as1" "unat (atom_count as1) \<le> 3069" using w(4,5) w1(5,6) by auto
  obtain w2 as2 h a where w2: "hypercog_vm_created (Some 1) 1 w1 = Inr (OK, w2)" "live_ctx w2 1 hc 2 as2 4 srv"
    "as_inv as2" "mem_ok (w_os w2)" "lookup as2 h = Some a" "name a = vm_name 1"
    "\<forall>f d. lookup as1 f = Some d \<longrightarrow> f < h \<and> lookup as2 f = Some d"
    by (rule vm_created_succeeds[OF w1(2,3) room w1(4), of 1]) blast
  have n: "fmt_d (10 :: u32) = fmt_d (1 :: u32) @ ''0''" "vm_name 1 = ''VM-VCPU-1''"
    by (simp_all add: vm_name_def fmt_d_def fmt_int_def dec_nat_eval digit_eval cstrcpy_def)
  have gh: "lookup as2 g = Some b" "g < h" using w1(7) w2(7) by auto
  from vm_destroyed_wrong_vm[OF w2(2-4) gh(1) w1(8) w2(5,6) gh(2) n(1)] w(1) w1(1) w2(1,2,5,6) n(2)
  show ?thesis by (auto simp: live_ctx_def)
qed

text \<open>
  C31 (error). \<^verbatim>\<open>hypercog_init\<close> is all or nothing. On success it yields a context at a new address that is
  enabled and whose server points to its AtomSpace. On failure, at whichever of its allocations, no
  object is left behind and every block that was taken is given back.
\<close>

theorem hypercog_init_all_or_nothing:
  assumes wf: "os_wf (w_os w)" and e: "hypercog_init out dist prt w = (e, r, w')"
  shows "if e = OK
    then \<exists>c hc sp as sv srv. r = Some c \<and> c \<notin> os_live (w_os w) \<and> live_ctx w' c hc sp as sv srv
      \<and> as_inv as \<and> atom_count as = 0 \<and> ctx_distributed hc = dist \<and> graphql_port hc = prt
    else e = (if out then ENOMEM else EINVAL) \<and> r = None \<and> os_live (w_os w') = os_live (w_os w)
      \<and> w_spaces w' = w_spaces w \<and> w_servers w' = w_servers w \<and> w_ctxs w' = w_ctxs w"
proof (cases "calloc (w_os w)")
  case (Pair p os1)
  consider "\<not> out" | "out" "p = None" | c where "out" "p = Some c" by (cases p) auto
  then show ?thesis
  proof cases
    case 3
    with Pair have c: "calloc (w_os w) = (Some c, os1)" and out: "out" by auto
    have wf1: "os_wf os1" using calloc_wf[OF wf c] .
    have L: "os_live os1 = insert c (os_live (w_os w))" "c \<notin> os_live (w_os w)"
      using calloc_Some_live[OF c] calloc_fresh[OF wf c] by auto
    obtain e1 r1 os2 where i: "atomspace_init True dist os1 = (e1, r1, os2)" by (metis surj_pair)
    show ?thesis
    proof (cases r1)
      case None
      then have "e = e1" "r = None" "w' = w\<lparr>w_os := free c os2\<rparr>"
        using i c e out by (simp_all add: hypercog_init_def)
      with None i out init_OK_iff[OF i] init_fail_live[OF wf1, of dist e1 os2] L show ?thesis by auto
    next
      case (Some x)
      then obtain sp as where r1: "r1 = Some (sp, as)" by (cases x) auto
      with i init_OK_iff[OF i] have i': "atomspace_init True dist os1 = (OK, Some (sp, as), os2)" by auto
      have g: "as_inv as" "owns (os_live os1) sp as os2" using init_good[OF i' wf1] by (auto simp: as_good_def)
      obtain q os3 where q: "calloc os2 = (q, os3)" by fastforce
      show ?thesis
      proof (cases q)
        case None
        with q have "owns (os_live os1) sp as os3" using owns_calloc_None[OF g(2)] by simp
        moreover have "e = ENOMEM" "r = None" "w' = w\<lparr>w_os := free c (atomspace_destroy (Some (sp, as)) os3)\<rparr>"
          using None q i' c e out by (simp_all add: hypercog_init_def hgql_server_init_def)
        ultimately show ?thesis using owns_destroy[OF g(1)] L out by simp
      next
        case (Some sv)
        with q obtain srv where h: "hgql_server_init True (Some sp) prt os2 = (OK, Some (sv, srv), os3)"
          "srv_atomspace srv = sp" by (simp add: hgql_server_init_def)
        define hc where "hc = \<lparr>ctx_atomspace = Some sp, graphql_server = Some sv, enabled = True,
          ctx_distributed = dist, graphql_port = prt\<rparr>"
        have "e = OK" "r = Some c" and w': "w' = w\<lparr>w_spaces := (w_spaces w)(sp \<mapsto> as),
            w_servers := (w_servers w)(sv \<mapsto> srv), w_ctxs := (w_ctxs w)(c \<mapsto> hc), w_os := os3\<rparr>"
          using h i' c e out by (simp_all add: hypercog_init_def hc_def)
        moreover have "live_ctx w' c hc sp as sv srv"
          using h(2) init_mode[OF i'] by (simp add: live_ctx_def w' hc_def)
        moreover have "ctx_distributed hc = dist" "graphql_port hc = prt" by (simp_all add: hc_def)
        ultimately show ?thesis using L(2) g(1) init_mode[OF i'] unfolding if_P[OF \<open>e = OK\<close>] by blast
      qed
    qed
  next
    case 2
    with Pair e have "e = ENOMEM" "r = None" "w' = w\<lparr>w_os := os1\<rparr>" by (simp_all add: hypercog_init_def)
    with 2 Pair calloc_None_live[of "w_os w" os1] show ?thesis by simp
  next
    case 1
    with e show ?thesis by (auto simp: hypercog_init_def)
  qed
qed

theorem hypercog_init_all_or_nothing_witness:
  "\<exists>w'. hypercog_init True False 8080 ((world0 7)\<lparr>w_os := (os_plain 7)\<lparr>os_mem := (\<lambda>k. k < 3)\<rparr>\<rparr>) = (ENOMEM, None, w')
     \<and> os_live (w_os w') = {}"
proof -
  let ?w = "(world0 7)\<lparr>w_os := (os_plain 7)\<lparr>os_mem := (\<lambda>k. k < 3)\<rparr>\<rparr>"
  have wf: "os_wf (w_os ?w)" "os_live (w_os ?w) = {}" by (simp_all add: os_wf_def os_plain_def)
  obtain w' where e: "hypercog_init True False 8080 ?w = (ENOMEM, None, w')"
    by (simp add: hypercog_init_def calloc_def os_plain_def atomspace_init_def hgql_server_init_def Let_def)
  have "os_live (w_os w') = os_live (w_os ?w)" using hypercog_init_all_or_nothing[OF wf(1) e] by simp
  with e wf(2) show ?thesis by simp
qed

text \<open>
  Destroying the context that is registered as the global one leaves the registration in
  place: \<^verbatim>\<open>hypercog_get_global_context\<close> still returns the freed address, and the next VM hook that is
  called with it uses freed memory.
\<close>

theorem global_context_dangles:
  assumes "os_wf (w_os w)" "hypercog_init True dist prt w = (OK, Some c, w1)"
    and "hypercog_set_global_context (Some c) w1 = (OK, w2)"
  shows "\<exists>w3. hypercog_destroy (Some c) w2 = Inr w3 \<and> hypercog_get_global_context w3 = Some c
    \<and> hypercog_vm_created (hypercog_get_global_context w3) v w3 = Inl (Dangling c)"
proof -
  have w2: "w2 = w1\<lparr>global_hypercog_ctx := Some c\<rparr>" using assms(3) by (simp add: hypercog_set_global_context_def)
  with hypercog_init_good[OF assms(1,2)] have "hc_good (os_live (w_os w)) c 0 w2"
    by (simp add: hc_good_def live_ctx_def)
  from hypercog_destroy_good[OF this] w2 obtain w3 where
    "hypercog_destroy (Some c) w2 = Inr w3" "w_ctxs w3 c = None" "global_hypercog_ctx w3 = Some c" by auto
  then show ?thesis by (simp add: hypercog_get_global_context_def hypercog_vm_created_def deref_def)
qed

theorem global_context_dangles_witness:
  "\<exists>w1 w2 w3. hypercog_init True False 8080 (world0 7) = (OK, Some 1, w1)
     \<and> hypercog_set_global_context (Some 1) w1 = (OK, w2) \<and> hypercog_destroy (Some 1) w2 = Inr w3
     \<and> hypercog_vm_created (hypercog_get_global_context w3) 0 w3 = Inl (Dangling 1)"
proof -
  obtain w1 where w1: "hypercog_init True False 8080 (world0 7) = (OK, Some 1, w1)" using world0_live by blast
  have wf: "os_wf (w_os (world0 7))" by (simp add: world0_def)
  have "hypercog_set_global_context (Some 1) w1 = (OK, w1\<lparr>global_hypercog_ctx := Some 1\<rparr>)"
    by (simp add: hypercog_set_global_context_def)
  from global_context_dangles[OF wf w1 this, of 0] w1 this show ?thesis by blast
qed

end
