(* ===== verification/Vatpic.thy ===== *)
theory Vatpic
  imports Libc
begin

text \<open>
  The pair of 8259A interrupt controllers of \<^verbatim>\<open>src/src/lib/vmm/io/vatpic.c\<close>. The two chips are the
  entries 0 (master) and 1 (slave) of the array \<^verbatim>\<open>atpic\<close>; the mutex is not modelled, since every
  operation takes it for its whole body and so is one step. Calls into the local APIC and the I/O APIC
  are appended to the field \<open>sent\<close> in the order the code makes them.
\<close>

section \<open>Registers\<close>

definition ICW1_IC4 :: u8 where "ICW1_IC4 = 0x01"
definition ICW1_SNGL :: u8 where "ICW1_SNGL = 0x02"
definition ICW4_8086 :: u8 where "ICW4_8086 = 0x01"
definition ICW4_AEOI :: u8 where "ICW4_AEOI = 0x02"
definition ICW4_SFNM :: u8 where "ICW4_SFNM = 0x10"
definition OCW2_EOI :: u8 where "OCW2_EOI = 0x20"
definition OCW2_SL :: u8 where "OCW2_SL = 0x40"
definition OCW2_R :: u8 where "OCW2_R = 0x80"
definition OCW3_RIS :: u8 where "OCW3_RIS = 0x01"
definition OCW3_RR :: u8 where "OCW3_RR = 0x02"
definition OCW3_P :: u8 where "OCW3_P = 0x04"
definition OCW3_SMM :: u8 where "OCW3_SMM = 0x20"
definition OCW3_ESMM :: u8 where "OCW3_ESMM = 0x40"
definition ICU_IMR_OFFSET :: u16 where "ICU_IMR_OFFSET = 1"
definition IO_ICU1 :: u16 where "IO_ICU1 = 0x20"
definition IO_ICU2 :: u16 where "IO_ICU2 = 0xa0"
definition IO_ELCR1 :: u16 where "IO_ELCR1 = 0x4d0"

lemmas pic_consts =
  ICW1_IC4_def ICW1_SNGL_def ICW4_8086_def ICW4_AEOI_def ICW4_SFNM_def OCW2_EOI_def OCW2_SL_def
  OCW2_R_def OCW3_RIS_def OCW3_RR_def OCW3_P_def OCW3_SMM_def OCW3_ESMM_def ICU_IMR_OFFSET_def
  IO_ICU1_def IO_ICU2_def IO_ELCR1_def

section \<open>State\<close>

datatype irqstate = IRQSTATE_ASSERT | IRQSTATE_DEASSERT | IRQSTATE_PULSE

datatype vm_intr_trigger = EDGE_TRIGGER | LEVEL_TRIGGER

record atpic =
  ready :: bool
  icw_num :: nat
  rd_cmd_reg :: u8
  aeoi :: bool
  poll :: bool
  rotate :: bool
  sfn :: bool
  irq_base :: int
  request :: u8
  service :: u8
  mask :: u8
  smm :: bool
  acnt :: "nat \<Rightarrow> int"
  lowprio :: nat
  intr_raised :: bool

text \<open>\<open>LapicLint0\<close> stands for \<^verbatim>\<open>lapic_set_local_intr(vm, -1, APIC_LVT_LINT0)\<close>, \<open>IoapicPulse n\<close> for
  \<^verbatim>\<open>vioapic_pulse_irq(vm, n)\<close>.\<close>

datatype pic_call = LapicLint0 | IoapicPulse nat

record vatpic =
  atpics :: "nat \<Rightarrow> atpic"
  elc :: "nat \<Rightarrow> u8"
  sent :: "pic_call list"

definition upd_atpic :: "nat \<Rightarrow> (atpic \<Rightarrow> atpic) \<Rightarrow> vatpic \<Rightarrow> vatpic" where
  "upd_atpic i f v = v\<lparr>atpics := (atpics v)(i := f (atpics v i))\<rparr>"

definition zero_atpic :: atpic where
  "zero_atpic = \<lparr>ready = False, icw_num = 0, rd_cmd_reg = 0, aeoi = False, poll = False, rotate = False,
     sfn = False, irq_base = 0, request = 0, service = 0, mask = 0, smm = False, acnt = (\<lambda>_. 0),
     lowprio = 0, intr_raised = False\<rparr>"

definition vatpic_init :: vatpic where
  "vatpic_init = \<lparr>atpics = (\<lambda>_. zero_atpic), elc = (\<lambda>_. 0), sent = []\<rparr>"

section \<open>Priorities\<close>

text \<open>\<^verbatim>\<open>ATPIC_PIN_FOREACH\<close>: the pins from the highest to the lowest priority.\<close>

definition pin_order :: "atpic \<Rightarrow> nat list" where
  "pin_order a = map (\<lambda>i. (lowprio a + 1 + i) mod 8) [0..<8]"

definition vatpic_get_highest_isrpin :: "atpic \<Rightarrow> nat option" where
  "vatpic_get_highest_isrpin a =
     List.find (\<lambda>pin. bit (service a) pin \<and> \<not> (smm a \<and> bit (mask a) pin)) (pin_order a)"

fun irr_scan :: "u8 \<Rightarrow> atpic \<Rightarrow> nat list \<Rightarrow> nat option" where
  "irr_scan serviced a [] = None"
| "irr_scan serviced a (pin # pins) =
     (if bit serviced pin then None
      else if bit (request a) pin \<and> \<not> bit (mask a) pin then Some pin
      else irr_scan serviced a pins)"

definition irr_serviced :: "atpic \<Rightarrow> u8" where
  "irr_serviced a = (if smm a then 0 else if sfn a then unset_bit 2 (service a) else service a)"

definition vatpic_get_highest_irrpin :: "atpic \<Rightarrow> nat option" where
  "vatpic_get_highest_irrpin a = irr_scan (irr_serviced a) a (pin_order a)"

section \<open>Notification\<close>

text \<open>The part of \<^verbatim>\<open>vatpic_set_pinstate\<close> before it notifies: counting the assertion and latching or
  releasing the request.\<close>

definition count_pin :: "nat \<Rightarrow> bool \<Rightarrow> vatpic \<Rightarrow> vatpic" where
  "count_pin pin newstate v =
     (let i = pin div 8; p = pin mod 8;
          oldcnt = acnt (atpics v i) p;
          newcnt = (if newstate then oldcnt + 1 else oldcnt - 1);
          v1 = upd_atpic i (\<lambda>a. a\<lparr>acnt := (acnt a)(p := newcnt)\<rparr>) v;
          level = bit (elc v i) p
      in if (oldcnt = 0 \<and> newcnt = 1) \<or> (newcnt > 0 \<and> level)
         then upd_atpic i (\<lambda>a. a\<lparr>request := set_bit p (request a)\<rparr>) v1
         else if oldcnt = 1 \<and> newcnt = 0
         then (if level then upd_atpic i (\<lambda>a. a\<lparr>request := unset_bit p (request a)\<rparr>) v1 else v1)
         else v1)"

text \<open>\<^verbatim>\<open>vatpic_notify_intr\<close> and \<^verbatim>\<open>vatpic_set_pinstate\<close> call each other. The recursion ends because
  the slave's \<^verbatim>\<open>intr_raised\<close> is set before the cascade pin of the master is pulsed.\<close>

function (domintros) vatpic_notify_intr :: "vatpic \<Rightarrow> vatpic"
  and vatpic_set_pinstate :: "vatpic \<Rightarrow> nat \<Rightarrow> bool \<Rightarrow> vatpic" where
  "vatpic_notify_intr v =
     (let v1 = (if \<not> intr_raised (atpics v 1) \<and> vatpic_get_highest_irrpin (atpics v 1) \<noteq> None
                then vatpic_set_pinstate
                       (vatpic_set_pinstate (upd_atpic 1 (\<lambda>a. a\<lparr>intr_raised := True\<rparr>) v) 2 True)
                       2 False
                else v)
      in if \<not> intr_raised (atpics v1 0) \<and> vatpic_get_highest_irrpin (atpics v1 0) \<noteq> None
         then (upd_atpic 0 (\<lambda>a. a\<lparr>intr_raised := True\<rparr>) v1)\<lparr>sent := sent v1 @ [LapicLint0, IoapicPulse 0]\<rparr>
         else v1)"
| "vatpic_set_pinstate v pin newstate = vatpic_notify_intr (count_pin pin newstate v)"
  by pat_completeness auto

lemma atpics_upd: "atpics (upd_atpic i f v) j = (if j = i then f (atpics v i) else atpics v j)"
  by (simp add: upd_atpic_def)

lemma upd_atpic_sel [simp]:
  "atpics (upd_atpic i f v) i = f (atpics v i)"
  "j \<noteq> i \<Longrightarrow> atpics (upd_atpic i f v) j = atpics v j"
  "elc (upd_atpic i f v) = elc v" "sent (upd_atpic i f v) = sent v"
  by (simp_all add: upd_atpic_def)

lemma count_pin_raised [simp]: "intr_raised (atpics (count_pin pin st v) i) = intr_raised (atpics v i)"
  by (simp add: count_pin_def Let_def atpics_upd)

lemma notify_raised_dom:
  "intr_raised (atpics v 1) \<Longrightarrow> vatpic_notify_intr_vatpic_set_pinstate_dom (Inl v)"
  by (rule vatpic_notify_intr_vatpic_set_pinstate.domintros) auto

lemma set_pinstate_raised:
  assumes "intr_raised (atpics v 1)"
  shows "vatpic_notify_intr_vatpic_set_pinstate_dom (Inr (v, pin, st))"
    and "intr_raised (atpics (vatpic_set_pinstate v pin st) 1)"
proof -
  have d: "vatpic_notify_intr_vatpic_set_pinstate_dom (Inl (count_pin pin st v))"
    using assms by (intro notify_raised_dom) simp
  then show p: "vatpic_notify_intr_vatpic_set_pinstate_dom (Inr (v, pin, st))"
    by (rule vatpic_notify_intr_vatpic_set_pinstate.domintros)
  show "intr_raised (atpics (vatpic_set_pinstate v pin st) 1)"
    using assms unfolding vatpic_set_pinstate.psimps[OF p] vatpic_notify_intr.psimps[OF d]
    by (simp add: Let_def)
qed

lemma notify_dom: "vatpic_notify_intr_vatpic_set_pinstate_dom (Inl v)"
  by (rule vatpic_notify_intr_vatpic_set_pinstate.domintros) (auto intro!: set_pinstate_raised)

termination vatpic_notify_intr
proof (rule allI)
  fix x show "vatpic_notify_intr_vatpic_set_pinstate_dom x"
  proof (cases x)
    case (Inr y)
    then show ?thesis
      by (cases y) (auto intro: vatpic_notify_intr_vatpic_set_pinstate.domintros notify_dom)
  qed (simp add: notify_dom)
qed

declare vatpic_notify_intr.simps [simp del] vatpic_set_pinstate.simps [simp del]

section \<open>Initialisation and operation control words\<close>

text \<open>The return value 0 or -1 comes first; the chip is named by its index, so \<^verbatim>\<open>master_atpic\<close> is a
  comparison with 0.\<close>

definition vatpic_icw1 :: "nat \<Rightarrow> u8 \<Rightarrow> vatpic \<Rightarrow> int \<times> vatpic" where
  "vatpic_icw1 i val v =
     (let v1 = upd_atpic i (\<lambda>a. a\<lparr>ready := False, icw_num := 1, request := 0, mask := 0, lowprio := 7,
                                   rd_cmd_reg := 0, poll := False, smm := False\<rparr>) v
      in if val AND ICW1_SNGL \<noteq> 0 then (-1, v1)
         else if val AND ICW1_IC4 = 0 then (-1, v1)
         else (0, upd_atpic i (\<lambda>a. a\<lparr>icw_num := icw_num a + 1\<rparr>) v1))"

definition vatpic_icw2 :: "nat \<Rightarrow> u8 \<Rightarrow> vatpic \<Rightarrow> int \<times> vatpic" where
  "vatpic_icw2 i val v =
     (0, upd_atpic i (\<lambda>a. a\<lparr>irq_base := uint (val AND 0xf8), icw_num := icw_num a + 1\<rparr>) v)"

definition vatpic_icw3 :: "nat \<Rightarrow> u8 \<Rightarrow> vatpic \<Rightarrow> int \<times> vatpic" where
  "vatpic_icw3 i val v = (0, upd_atpic i (\<lambda>a. a\<lparr>icw_num := icw_num a + 1\<rparr>) v)"

definition vatpic_icw4 :: "nat \<Rightarrow> u8 \<Rightarrow> vatpic \<Rightarrow> int \<times> vatpic" where
  "vatpic_icw4 i val v =
     (if val AND ICW4_8086 = 0 then (-1, v)
      else
        let v1 = (if val AND ICW4_AEOI \<noteq> 0 then upd_atpic i (\<lambda>a. a\<lparr>aeoi := True\<rparr>) v else v);
            v2 = (if val AND ICW4_SFNM \<noteq> 0 \<and> i = 0 then upd_atpic i (\<lambda>a. a\<lparr>sfn := True\<rparr>) v1 else v1)
        in (0, upd_atpic i (\<lambda>a. a\<lparr>icw_num := 0, ready := True\<rparr>) v2))"

definition vatpic_ocw1 :: "nat \<Rightarrow> u8 \<Rightarrow> vatpic \<Rightarrow> int \<times> vatpic" where
  "vatpic_ocw1 i val v = (0, upd_atpic i (\<lambda>a. a\<lparr>mask := val AND 0xff\<rparr>) v)"

definition vatpic_ocw2 :: "nat \<Rightarrow> u8 \<Rightarrow> vatpic \<Rightarrow> int \<times> vatpic" where
  "vatpic_ocw2 i val v =
     (let rot = (val AND OCW2_R \<noteq> 0);
          v1 = upd_atpic i (\<lambda>a. a\<lparr>rotate := rot\<rparr>) v
      in if val AND OCW2_EOI \<noteq> 0
         then (case (if val AND OCW2_SL \<noteq> 0 then Some (unat (val AND 7))
                     else vatpic_get_highest_isrpin (atpics v1 i)) of
                 None \<Rightarrow> (0, v1)
               | Some isr_bit \<Rightarrow>
                   (0, upd_atpic i (\<lambda>a. a\<lparr>service := unset_bit isr_bit (service a),
                                           lowprio := (if rot then isr_bit else lowprio a)\<rparr>) v1))
         else if val AND OCW2_SL \<noteq> 0 \<and> rot
         then (0, upd_atpic i (\<lambda>a. a\<lparr>lowprio := unat (val AND 7)\<rparr>) v1)
         else (0, v1))"

definition vatpic_ocw3 :: "nat \<Rightarrow> u8 \<Rightarrow> vatpic \<Rightarrow> int \<times> vatpic" where
  "vatpic_ocw3 i val v =
     (let v1 = (if val AND OCW3_ESMM \<noteq> 0
                then upd_atpic i (\<lambda>a. a\<lparr>smm := (val AND OCW3_SMM \<noteq> 0)\<rparr>) v else v)
      in if val AND OCW3_RR \<noteq> 0
         then (0, upd_atpic i (\<lambda>a. a\<lparr>rd_cmd_reg := val AND OCW3_RIS, poll := (val AND OCW3_P \<noteq> 0)\<rparr>) v1)
         else (0, v1))"

section \<open>Interrupt lines\<close>

definition vatpic_set_irqstate :: "vatpic \<Rightarrow> int \<Rightarrow> irqstate \<Rightarrow> errno \<times> vatpic" where
  "vatpic_set_irqstate v irq st =
     (if irq < 0 \<or> irq > 15 then (EINVAL, v)
      else
        let n = nat irq in
        if \<not> ready (atpics v (n div 8)) then (OK, v)
        else
          (OK, case st of
             IRQSTATE_ASSERT \<Rightarrow> vatpic_set_pinstate v n True
           | IRQSTATE_DEASSERT \<Rightarrow> vatpic_set_pinstate v n False
           | IRQSTATE_PULSE \<Rightarrow> vatpic_set_pinstate (vatpic_set_pinstate v n True) n False))"

definition vatpic_assert_irq :: "vatpic \<Rightarrow> int \<Rightarrow> errno \<times> vatpic" where
  "vatpic_assert_irq v irq = vatpic_set_irqstate v irq IRQSTATE_ASSERT"

definition vatpic_deassert_irq :: "vatpic \<Rightarrow> int \<Rightarrow> errno \<times> vatpic" where
  "vatpic_deassert_irq v irq = vatpic_set_irqstate v irq IRQSTATE_DEASSERT"

definition vatpic_pulse_irq :: "vatpic \<Rightarrow> int \<Rightarrow> errno \<times> vatpic" where
  "vatpic_pulse_irq v irq = vatpic_set_irqstate v irq IRQSTATE_PULSE"

definition vatpic_set_irq_trigger :: "vatpic \<Rightarrow> int \<Rightarrow> vm_intr_trigger \<Rightarrow> errno \<times> vatpic" where
  "vatpic_set_irq_trigger v irq trigger =
     (if irq < 0 \<or> irq > 15 then (EINVAL, v)
      else if trigger = LEVEL_TRIGGER \<and> (irq = 0 \<or> irq = 1 \<or> irq = 2 \<or> irq = 8 \<or> irq = 13) then (EINVAL, v)
      else
        let i = nat irq div 8; p = nat irq mod 8 in
        (OK, v\<lparr>elc := (elc v)(i := (if trigger = LEVEL_TRIGGER then set_bit p (elc v i)
                                     else unset_bit p (elc v i)))\<rparr>))"

text \<open>The vector the master presents; a spurious interrupt is pin 7 of the chip that was asked last.\<close>

definition vatpic_pending_intr :: "vatpic \<Rightarrow> int" where
  "vatpic_pending_intr v =
     (let pin = vatpic_get_highest_irrpin (atpics v 0);
          (i, pin2) = (if pin = Some 2 then (1, vatpic_get_highest_irrpin (atpics v 1)) else (0, pin));
          pin3 = (case pin2 of None \<Rightarrow> 7 | Some p \<Rightarrow> p)
      in irq_base (atpics v i) + int pin3)"

definition vatpic_pin_accepted :: "nat \<Rightarrow> atpic \<Rightarrow> atpic" where
  "vatpic_pin_accepted pin a =
     (let a1 = a\<lparr>intr_raised := False\<rparr>;
          a2 = (if acnt a1 pin = 0 then a1\<lparr>request := unset_bit pin (request a1)\<rparr> else a1)
      in if aeoi a2 then (if rotate a2 then a2\<lparr>lowprio := pin\<rparr> else a2)
         else a2\<lparr>service := set_bit pin (service a2)\<rparr>)"

definition vatpic_intr_accepted :: "int \<Rightarrow> vatpic \<Rightarrow> vatpic" where
  "vatpic_intr_accepted vector v =
     (let pin = nat (vector AND 7);
          v1 = (if vector AND NOT 7 = irq_base (atpics v 1)
                then upd_atpic 0 (vatpic_pin_accepted 2) (upd_atpic 1 (vatpic_pin_accepted pin) v)
                else upd_atpic 0 (vatpic_pin_accepted pin) v)
      in vatpic_notify_intr v1)"

section \<open>Port handlers\<close>

definition vatpic_read :: "nat \<Rightarrow> u16 \<Rightarrow> vatpic \<Rightarrow> int \<times> u32 \<times> vatpic" where
  "vatpic_read i port v =
     (let a = atpics v i in
      if poll a
      then
        let v1 = upd_atpic i (\<lambda>a. a\<lparr>poll := False\<rparr>) v in
        (case vatpic_get_highest_irrpin (atpics v1 i) of
           Some pin \<Rightarrow> (0, 0x80 OR word_of_nat pin, upd_atpic i (vatpic_pin_accepted pin) v1)
         | None \<Rightarrow> (0, 0, v1))
      else if port AND ICU_IMR_OFFSET \<noteq> 0 then (0, ucast (mask a), v)
      else if rd_cmd_reg a = OCW3_RIS then (0, ucast (service a), v)
      else (0, ucast (request a), v))"

definition vatpic_write :: "nat \<Rightarrow> u16 \<Rightarrow> u32 \<Rightarrow> vatpic \<Rightarrow> int \<times> vatpic" where
  "vatpic_write i port eax v =
     (let val = ucast eax :: u8;
          (error, v1) =
            (if port AND ICU_IMR_OFFSET \<noteq> 0
             then (if icw_num (atpics v i) = 2 then vatpic_icw2 i val v
                   else if icw_num (atpics v i) = 3 then vatpic_icw3 i val v
                   else if icw_num (atpics v i) = 4 then vatpic_icw4 i val v
                   else vatpic_ocw1 i val v)
             else
               let (error1, v2) = (if bit val 4 then vatpic_icw1 i val v else (0, v)) in
               if ready (atpics v2 i)
               then (if bit val 3 then vatpic_ocw3 i val v2 else vatpic_ocw2 i val v2)
               else (error1, v2))
      in (error, if ready (atpics v1 i) then vatpic_notify_intr v1 else v1))"

text \<open>\<^verbatim>\<open>vatpic_master_handler\<close> and \<^verbatim>\<open>vatpic_slave_handler\<close> differ in the chip only. The register
  \<^verbatim>\<open>*eax\<close> is an argument and, for reads, a result.\<close>

definition vatpic_master_handler ::
  "bool \<Rightarrow> u16 \<Rightarrow> int \<Rightarrow> u32 \<Rightarrow> vatpic \<Rightarrow> int \<times> u32 \<times> vatpic" where
  "vatpic_master_handler inp port bytes eax v =
     (if bytes \<noteq> 1 then (-1, eax, v)
      else if inp then vatpic_read 0 port v
      else let (e, v') = vatpic_write 0 port eax v in (e, eax, v'))"

definition vatpic_slave_handler ::
  "bool \<Rightarrow> u16 \<Rightarrow> int \<Rightarrow> u32 \<Rightarrow> vatpic \<Rightarrow> int \<times> u32 \<times> vatpic" where
  "vatpic_slave_handler inp port bytes eax v =
     (if bytes \<noteq> 1 then (-1, eax, v)
      else if inp then vatpic_read 1 port v
      else let (e, v') = vatpic_write 1 port eax v in (e, eax, v'))"

definition vatpic_elc_handler ::
  "bool \<Rightarrow> u16 \<Rightarrow> int \<Rightarrow> u32 \<Rightarrow> vatpic \<Rightarrow> int \<times> u32 \<times> vatpic" where
  "vatpic_elc_handler inp port bytes eax v =
     (let i = (if port = IO_ELCR1 then 0 else 1 :: nat) in
      if bytes \<noteq> 1 then (-1, eax, v)
      else if inp then (0, ucast (elc v i), v)
      else (0, eax, v\<lparr>elc := (elc v)(i := ucast (eax AND (if i = 0 then 0xf8 else 0xde)))\<rparr>))"

section \<open>Priority order\<close>

text \<open>The rank of a pin in the current rotation, 0 for the highest priority.\<close>

definition pin_rank :: "atpic \<Rightarrow> nat \<Rightarrow> nat" where
  "pin_rank a p = (p + (7 - lowprio a)) mod 8"

definition eligible :: "atpic \<Rightarrow> nat \<Rightarrow> bool" where
  "eligible a p \<longleftrightarrow> bit (request a) p \<and> \<not> bit (mask a) p"

lemma irr_scan_Some_iff:
  "irr_scan s a pins = Some p \<longleftrightarrow>
     (\<exists>i < length pins. p = pins ! i \<and> eligible a (pins ! i)
        \<and> (\<forall>j < Suc i. \<not> bit s (pins ! j)) \<and> (\<forall>j < i. \<not> eligible a (pins ! j)))"
proof (induction pins)
  case (Cons pin pins)
  show ?case
    unfolding irr_scan.simps length_Cons Ex_less_Suc2
    by (simp add: Cons All_less_Suc2 flip: eligible_def) blast
qed simp

lemma pin_rank_index:
  assumes "lowprio a < 8" "i < 8"
  shows "pin_rank a ((lowprio a + 1 + i) mod 8) = i"
proof -
  have "pin_rank a ((lowprio a + 1 + i) mod 8) = (lowprio a + 1 + i + (7 - lowprio a)) mod 8"
    unfolding pin_rank_def by (rule mod_add_left_eq)
  also have "lowprio a + 1 + i + (7 - lowprio a) = 8 + i" using assms(1) by simp
  finally show ?thesis using assms(2) by simp
qed

lemma pin_index_rank:
  assumes "lowprio a < 8" "p < 8"
  shows "(lowprio a + 1 + pin_rank a p) mod 8 = p"
proof -
  have "(lowprio a + 1 + pin_rank a p) mod 8 = (lowprio a + 1 + (p + (7 - lowprio a))) mod 8"
    unfolding pin_rank_def by (rule mod_add_right_eq)
  also have "lowprio a + 1 + (p + (7 - lowprio a)) = 8 + p" using assms(1) by simp
  finally show ?thesis using assms(2) by simp
qed

lemma pin_rank_less: "pin_rank a p < 8"
  by (simp add: pin_rank_def)

lemma irrpin_Some_iff:
  assumes "lowprio a < 8"
  shows "vatpic_get_highest_irrpin a = Some p \<longleftrightarrow>
     p < 8 \<and> eligible a p \<and> (\<forall>q < 8. pin_rank a q < pin_rank a p \<longrightarrow> \<not> eligible a q)
     \<and> (\<forall>q < 8. pin_rank a q \<le> pin_rank a p \<longrightarrow> \<not> bit (irr_serviced a) q)" (is "_ = ?R")
proof
  let ?f = "\<lambda>i. (lowprio a + 1 + i) mod 8"
  assume "vatpic_get_highest_irrpin a = Some p"
  then obtain i where i: "i < 8" "p = ?f i" "eligible a (?f i)"
    "\<And>j. j \<le> i \<Longrightarrow> \<not> bit (irr_serviced a) (?f j)" "\<And>j. j < i \<Longrightarrow> \<not> eligible a (?f j)"
    by (auto simp: vatpic_get_highest_irrpin_def pin_order_def irr_scan_Some_iff less_Suc_eq_le)
  have "pin_rank a p = i" using i(1,2) pin_rank_index[OF assms] by simp
  with i show ?R by (metis assms mod_less_divisor pin_index_rank zero_less_numeral)
next
  let ?f = "\<lambda>i. (lowprio a + 1 + i) mod 8"
  assume r: ?R
  have "?f (pin_rank a p) = p" using r assms by (intro pin_index_rank) auto
  moreover have "\<not> bit (irr_serviced a) (?f j)" if "j \<le> pin_rank a p" for j
    using r that pin_rank_index[OF assms, of j] pin_rank_less[of a p] by auto
  moreover have "\<not> eligible a (?f j)" if "j < pin_rank a p" for j
    using r that pin_rank_index[OF assms, of j] pin_rank_less[of a p] by auto
  ultimately show "vatpic_get_highest_irrpin a = Some p"
    unfolding vatpic_get_highest_irrpin_def pin_order_def irr_scan_Some_iff
    using r pin_rank_less[of a p] by (intro exI[of _ "pin_rank a p"]) auto
qed

section \<open>Effect of a notification\<close>

definition notify_master :: "vatpic \<Rightarrow> vatpic" where
  "notify_master v =
     (if \<not> intr_raised (atpics v 0) \<and> vatpic_get_highest_irrpin (atpics v 0) \<noteq> None
      then (upd_atpic 0 (\<lambda>a. a\<lparr>intr_raised := True\<rparr>) v)\<lparr>sent := sent v @ [LapicLint0, IoapicPulse 0]\<rparr>
      else v)"

definition cascade :: "vatpic \<Rightarrow> vatpic" where
  "cascade v = notify_master (count_pin 2 False (notify_master
     (count_pin 2 True (upd_atpic 1 (\<lambda>a. a\<lparr>intr_raised := True\<rparr>) v))))"

lemma notify_master_slave [simp]: "atpics (notify_master v) (Suc 0) = atpics v (Suc 0)"
  by (simp add: notify_master_def)

lemma notify_slave_raised: "intr_raised (atpics v 1) \<Longrightarrow> vatpic_notify_intr v = notify_master v"
  by (simp add: vatpic_notify_intr.simps notify_master_def)

lemma notify_eq:
  "vatpic_notify_intr v =
     notify_master (if \<not> intr_raised (atpics v 1) \<and> vatpic_get_highest_irrpin (atpics v 1) \<noteq> None
                    then cascade v else v)"
proof -
  have set: "intr_raised (atpics w 1) \<Longrightarrow> vatpic_set_pinstate w pin st = notify_master (count_pin pin st w)" for w pin st
    by (simp add: vatpic_set_pinstate.simps notify_slave_raised)
  have "vatpic_set_pinstate (vatpic_set_pinstate (upd_atpic 1 (\<lambda>a. a\<lparr>intr_raised := True\<rparr>) v) 2 True) 2 False
      = cascade v"
    by (simp add: set cascade_def)
  then show ?thesis by (subst vatpic_notify_intr.simps) (simp only: Let_def notify_master_def)
qed

text \<open>Everything of a chip but its request latch, its assertion counts and its raised flag.\<close>

definition core :: "atpic \<Rightarrow> atpic" where
  "core a = a\<lparr>request := 0, acnt := (\<lambda>_. 0), intr_raised := False\<rparr>"

lemma core_upd [simp]:
  "core (a\<lparr>request := r\<rparr>) = core a" "core (a\<lparr>acnt := c\<rparr>) = core a" "core (a\<lparr>intr_raised := b\<rparr>) = core a"
  by (simp_all add: core_def)

lemma core_eqD:
  assumes "core a = core b"
  shows "ready a = ready b" "icw_num a = icw_num b" "rd_cmd_reg a = rd_cmd_reg b" "aeoi a = aeoi b"
    "poll a = poll b" "rotate a = rotate b" "sfn a = sfn b" "irq_base a = irq_base b" "service a = service b"
    "mask a = mask b" "smm a = smm b" "lowprio a = lowprio b"
  using assms by (cases a; cases b; simp add: core_def)+

lemma core_count_pin [simp]: "core (atpics (count_pin pin st v) i) = core (atpics v i)"
  by (simp add: count_pin_def Let_def atpics_upd)

lemma core_notify_master [simp]: "core (atpics (notify_master v) i) = core (atpics v i)"
  by (simp add: notify_master_def atpics_upd)

lemma core_notify [simp]: "core (atpics (vatpic_notify_intr v) i) = core (atpics v i)"
  by (simp add: notify_eq cascade_def atpics_upd)

lemma elc_count_pin [simp]: "elc (count_pin pin st v) = elc v"
  by (simp add: count_pin_def Let_def)

lemma elc_notify [simp]: "elc (vatpic_notify_intr v) = elc v"
  by (simp add: notify_eq cascade_def notify_master_def)

text \<open>No chip holds back an interrupt it could present.\<close>

definition notified :: "vatpic \<Rightarrow> nat \<Rightarrow> bool" where
  "notified v i \<longleftrightarrow> (vatpic_get_highest_irrpin (atpics v i) \<noteq> None \<longrightarrow> intr_raised (atpics v i))"

lemma irrpin_raised [simp]: "vatpic_get_highest_irrpin (a\<lparr>intr_raised := b\<rparr>) = vatpic_get_highest_irrpin a"
proof -
  have "irr_scan s (a\<lparr>intr_raised := b\<rparr>) pins = irr_scan s a pins" for s pins
    by (induction pins) simp_all
  then show ?thesis by (simp add: vatpic_get_highest_irrpin_def pin_order_def irr_serviced_def)
qed

lemma notify_master_notified: "notified (notify_master v) 0"
  by (simp add: notify_master_def notified_def)

lemma notify_notified: "i < 2 \<Longrightarrow> notified (vatpic_notify_intr v) i"
proof (cases "i = 0")
  case False
  assume "i < 2"
  with False have "i = 1" by simp
  then show ?thesis
    by (simp add: notify_eq notified_def cascade_def)
qed (simp add: notify_eq notify_master_notified)

section \<open>Invariant of runs\<close>

definition chip_ok :: "atpic \<Rightarrow> bool" where
  "chip_ok a \<longleftrightarrow> lowprio a < 8 \<and> 0 \<le> irq_base a \<and> irq_base a \<le> 248 \<and> irq_base a mod 8 = 0 \<and> \<not> poll a"

definition elc_ok :: "vatpic \<Rightarrow> bool" where
  "elc_ok v \<longleftrightarrow> \<not> bit (elc v 0) 0 \<and> \<not> bit (elc v 0) 1 \<and> \<not> bit (elc v 0) 2
     \<and> \<not> bit (elc v 1) 0 \<and> \<not> bit (elc v 1) 5"

definition pic_base :: "vatpic \<Rightarrow> bool" where
  "pic_base v \<longleftrightarrow> (\<forall>i < 2. chip_ok (atpics v i)) \<and> elc_ok v"

definition pic_inv :: "vatpic \<Rightarrow> bool" where
  "pic_inv v \<longleftrightarrow> pic_base v \<and> (\<forall>i < 2. ready (atpics v i) \<longrightarrow> notified v i)"

lemma chip_ok_core: "core a = core b \<Longrightarrow> chip_ok a = chip_ok b"
  using core_eqD[of a b] by (simp add: chip_ok_def)

lemma pic_base_notify [simp]: "pic_base (vatpic_notify_intr v) = pic_base v"
  using chip_ok_core[OF core_notify] by (simp add: pic_base_def elc_ok_def)

lemma pic_inv_notify: "pic_base v \<Longrightarrow> pic_inv (vatpic_notify_intr v)"
  by (simp add: pic_inv_def notify_notified)

lemma pic_base_upd: "pic_base v \<Longrightarrow> (chip_ok (atpics v i) \<Longrightarrow> chip_ok (f (atpics v i))) \<Longrightarrow> pic_base (upd_atpic i f v)"
  by (auto simp: pic_base_def atpics_upd elc_ok_def)

lemma pic_base_count_pin [simp]: "pic_base (count_pin pin st v) = pic_base v"
  using chip_ok_core[OF core_count_pin] by (simp add: pic_base_def elc_ok_def)

lemma pic_base_set_pinstate [simp]: "pic_base (vatpic_set_pinstate v pin st) = pic_base v"
  by (simp add: vatpic_set_pinstate.simps)

lemma pic_inv_set_pinstate: "pic_base v \<Longrightarrow> pic_inv (vatpic_set_pinstate v pin st)"
  by (simp add: vatpic_set_pinstate.simps pic_inv_notify)

lemma icw2_base:
  fixes w :: u8
  shows "uint (w AND 0xf8) \<le> 248" "uint (w AND 0xf8) mod 8 = 0"
proof -
  have "w AND 0xf8 \<le> 0xf8" by (rule word_and_le1)
  then show "uint (w AND 0xf8) \<le> 248" by (simp add: word_le_def)
  have "take_bit 3 (w AND 0xf8) = w AND (0xf8 AND 7)" by (simp only: and_7_word[symmetric] and.assoc)
  then have "uint (take_bit 3 (w AND 0xf8)) = 0" by simp
  then have "take_bit 3 (uint (w AND 0xf8)) = 0" by (simp only: unsigned_take_bit_eq)
  then show "uint (w AND 0xf8) mod 8 = 0" by (simp add: take_bit_eq_mod)
qed

lemma isrpin_less: "vatpic_get_highest_isrpin a = Some p \<Longrightarrow> p < 8"
  by (auto simp: vatpic_get_highest_isrpin_def pin_order_def dest!: find_SomeD)

lemma pin_accepted_ok: "chip_ok a \<Longrightarrow> p < 8 \<Longrightarrow> chip_ok (vatpic_pin_accepted p a)"
  by (simp add: vatpic_pin_accepted_def chip_ok_def Let_def)

text \<open>The entry points of the component. Poll mode is left out of runs: a poll read accepts an interrupt
  without notifying the other pins.\<close>

datatype pic_op =
    SetIrq int irqstate | SetTrigger int vm_intr_trigger | Accept int
  | MasterIO bool u16 int u32 | SlaveIO bool u16 int u32 | ElcIO bool u16 int u32

fun pic_step :: "pic_op \<Rightarrow> vatpic \<Rightarrow> vatpic" where
  "pic_step (SetIrq irq st) v = snd (vatpic_set_irqstate v irq st)"
| "pic_step (SetTrigger irq trig) v = snd (vatpic_set_irq_trigger v irq trig)"
| "pic_step (Accept vec) v = vatpic_intr_accepted vec v"
| "pic_step (MasterIO inp port bytes eax) v = snd (snd (vatpic_master_handler inp port bytes eax v))"
| "pic_step (SlaveIO inp port bytes eax) v = snd (snd (vatpic_slave_handler inp port bytes eax v))"
| "pic_step (ElcIO inp port bytes eax) v = snd (snd (vatpic_elc_handler inp port bytes eax v))"

definition poll_command :: "u16 \<Rightarrow> u32 \<Rightarrow> bool" where
  "poll_command port eax \<longleftrightarrow> port AND ICU_IMR_OFFSET = 0 \<and> (ucast eax :: u8) AND OCW3_P \<noteq> 0"

fun no_poll :: "pic_op \<Rightarrow> bool" where
  "no_poll (MasterIO inp port bytes eax) = (inp \<or> \<not> poll_command port eax)"
| "no_poll (SlaveIO inp port bytes eax) = (inp \<or> \<not> poll_command port eax)"
| "no_poll _ = True"

text \<open>What a write does before it notifies: it changes one chip.\<close>

lemma icw1_base: "pic_base v \<Longrightarrow> pic_base (snd (vatpic_icw1 i val v))"
  by (auto simp: vatpic_icw1_def Let_def chip_ok_def intro!: pic_base_upd)

lemma icw4_base: "pic_base v \<Longrightarrow> pic_base (snd (vatpic_icw4 i val v))"
  by (auto simp: vatpic_icw4_def Let_def chip_ok_def intro!: pic_base_upd)

lemma ocw2_base: "pic_base v \<Longrightarrow> pic_base (snd (vatpic_ocw2 i val v))"
  using unat_and_7_less[of val]
  by (auto simp: vatpic_ocw2_def Let_def chip_ok_def intro!: pic_base_upd split: option.split dest: isrpin_less)

lemma ocw3_base: "pic_base v \<Longrightarrow> val AND OCW3_P = 0 \<Longrightarrow> pic_base (snd (vatpic_ocw3 i val v))"
  by (auto simp: vatpic_ocw3_def Let_def chip_ok_def intro!: pic_base_upd)

lemmas word_base = icw1_base icw4_base ocw2_base ocw3_base

lemma word_other:
  assumes "j \<noteq> i"
  shows "atpics (snd (vatpic_icw1 i val v)) j = atpics v j" "atpics (snd (vatpic_icw2 i val v)) j = atpics v j"
    "atpics (snd (vatpic_icw3 i val v)) j = atpics v j" "atpics (snd (vatpic_icw4 i val v)) j = atpics v j"
    "atpics (snd (vatpic_ocw1 i val v)) j = atpics v j" "atpics (snd (vatpic_ocw2 i val v)) j = atpics v j"
    "atpics (snd (vatpic_ocw3 i val v)) j = atpics v j"
  using assms
  by (simp_all add: vatpic_icw1_def vatpic_icw2_def vatpic_icw3_def vatpic_icw4_def vatpic_ocw1_def
      vatpic_ocw2_def vatpic_ocw3_def Let_def split: option.split)

lemma pic_inv_write:
  assumes inv: "pic_inv v" and np: "\<not> poll_command port eax"
  shows "pic_inv (snd (vatpic_write i port eax v))"
proof -
  let ?val = "ucast eax :: u8"
  define w where "w =
     (if port AND ICU_IMR_OFFSET \<noteq> 0
      then (if icw_num (atpics v i) = 2 then vatpic_icw2 i ?val v
            else if icw_num (atpics v i) = 3 then vatpic_icw3 i ?val v
            else if icw_num (atpics v i) = 4 then vatpic_icw4 i ?val v
            else vatpic_ocw1 i ?val v)
      else
        let (error1, v2) = (if bit ?val 4 then vatpic_icw1 i ?val v else (0, v)) in
        if ready (atpics v2 i)
        then (if bit ?val 3 then vatpic_ocw3 i ?val v2 else vatpic_ocw2 i ?val v2)
        else (error1, v2))"
  have base: "pic_base v" using inv by (simp add: pic_inv_def)
  have base': "pic_base (snd w)"
    using base np unfolding w_def Let_def
    by (auto simp: poll_command_def split_beta vatpic_icw2_def vatpic_icw3_def vatpic_ocw1_def chip_ok_def
        icw2_base intro!: word_base pic_base_upd)
  have other: "atpics (snd w) j = atpics v j" if "j \<noteq> i" for j
    unfolding w_def Let_def by (simp add: split_beta word_other[OF that])
  have eq: "vatpic_write i port eax v =
      (fst w, if ready (atpics (snd w) i) then vatpic_notify_intr (snd w) else snd w)"
    unfolding vatpic_write_def w_def Let_def by (simp only: split_beta prod.collapse)
  show ?thesis
  proof (cases "ready (atpics (snd w) i)")
    case True
    with eq pic_inv_notify[OF base'] show ?thesis by simp
  next
    case False
    have "notified (snd w) k" if "k < 2" "ready (atpics (snd w) k)" for k
    proof -
      have "k \<noteq> i" using False that(2) by auto
      with inv that other[of k] show ?thesis by (simp add: pic_inv_def notified_def)
    qed
    with eq False base' show ?thesis by (simp add: pic_inv_def)
  qed
qed

lemma pic_inv_read: "pic_inv v \<Longrightarrow> i < 2 \<Longrightarrow> snd (snd (vatpic_read i port v)) = v"
  by (simp add: vatpic_read_def pic_inv_def pic_base_def chip_ok_def Let_def)

lemma set_bit_elc_ok:
  assumes "elc_ok v" "n < 16" "n \<noteq> 0" "n \<noteq> 1" "n \<noteq> 2" "n \<noteq> 8" "n \<noteq> 13"
  shows "elc_ok (v\<lparr>elc := (elc v)(n div 8 := set_bit (n mod 8) (elc v (n div 8)))\<rparr>)"
proof (cases "n < 8")
  case True
  then have "n div 8 = 0" "n mod 8 = n" by simp_all
  then show ?thesis
    using assms(1,3-5) by (simp add: elc_ok_def bit_set_bit_word)
next
  case False
  then obtain m where m: "n = 8 + m" using le_Suc_ex[of 8 n] by auto
  with assms(2,6,7) have "m < 8" "m \<noteq> 0" "m \<noteq> 5" by simp_all
  with m have "n div 8 = 1" "n mod 8 = m" by simp_all
  with \<open>m \<noteq> 0\<close> \<open>m \<noteq> 5\<close> show ?thesis
    using assms(1) by (simp add: elc_ok_def bit_set_bit_word)
qed

lemma pic_inv_elc: "pic_inv v \<Longrightarrow> elc_ok (v\<lparr>elc := e\<rparr>) \<Longrightarrow> pic_inv (v\<lparr>elc := e\<rparr>)"
  by (simp add: pic_inv_def pic_base_def notified_def)

lemma elc_write_ok:
  assumes "pic_inv v"
  shows "pic_inv (v\<lparr>elc := (elc v)(i := ucast (eax AND (if i = 0 then 0xf8 else 0xde :: u32)))\<rparr>)"
proof (rule pic_inv_elc[OF assms])
  have "elc_ok v" using assms by (simp add: pic_inv_def pic_base_def)
  then show "elc_ok (v\<lparr>elc := (elc v)(i := ucast (eax AND (if i = 0 then 0xf8 else 0xde :: u32)))\<rparr>)"
    by (cases "i = 0"; cases "i = 1") (simp_all add: elc_ok_def bit_ucast_iff bit_and_iff)
qed

lemma pic_inv_trigger: "pic_inv v \<Longrightarrow> pic_inv (snd (vatpic_set_irq_trigger v irq trig))"
proof -
  assume inv: "pic_inv v"
  then have e: "elc_ok v" by (simp add: pic_inv_def pic_base_def)
  then have clr: "elc_ok (v\<lparr>elc := (elc v)(i := unset_bit p (elc v i))\<rparr>)" for i p
    by (auto simp: elc_ok_def bit_simps)
  have "elc_ok (v\<lparr>elc := (elc v)(nat irq div 8 := set_bit (nat irq mod 8) (elc v (nat irq div 8)))\<rparr>)"
    if "0 \<le> irq" "irq \<le> 15" "\<not> (irq = 0 \<or> irq = 1 \<or> irq = 2 \<or> irq = 8 \<or> irq = 13)"
    using that by (intro set_bit_elc_ok[OF e]) auto
  with inv clr show ?thesis
    by (auto simp: vatpic_set_irq_trigger_def Let_def intro!: pic_inv_elc)
qed

lemma pic_inv_accepted: "pic_inv v \<Longrightarrow> pic_inv (vatpic_intr_accepted vec v)"
  using nat_and_7_less[of vec]
  by (auto simp: vatpic_intr_accepted_def Let_def pic_inv_def[of v] intro!: pic_inv_notify pic_base_upd pin_accepted_ok)

lemma pic_inv_irqstate: "pic_inv v \<Longrightarrow> pic_inv (snd (vatpic_set_irqstate v irq st))"
  by (auto simp: vatpic_set_irqstate_def Let_def pic_inv_def[of v] intro!: pic_inv_set_pinstate split: irqstate.split)

lemma pic_inv_step: "pic_inv v \<Longrightarrow> no_poll op \<Longrightarrow> pic_inv (pic_step op v)"
  by (cases op)
    (auto simp: pic_inv_irqstate pic_inv_trigger pic_inv_accepted vatpic_master_handler_def
      vatpic_slave_handler_def vatpic_elc_handler_def pic_inv_read pic_inv_write elc_write_ok Let_def split_beta)

lemma pic_inv_init: "pic_inv vatpic_init"
proof -
  have "irr_scan s zero_atpic pins = None" for s pins by (induction pins) (simp_all add: zero_atpic_def)
  then show ?thesis
    by (simp add: pic_inv_def pic_base_def chip_ok_def elc_ok_def notified_def vatpic_get_highest_irrpin_def
        vatpic_init_def) (simp add: zero_atpic_def)
qed

definition pic_run_step :: "pic_op \<Rightarrow> vatpic \<Rightarrow> vatpic" where
  "pic_run_step op v = (if no_poll op then pic_step op v else v)"

interpretation pic_run: machine "\<lambda>v. v = vatpic_init" pic_run_step pic_inv
  by unfold_locales (simp_all add: pic_inv_init pic_run_step_def pic_inv_step)

lemma fold_no_poll: "list_all no_poll ops \<Longrightarrow> fold pic_run_step ops v = fold pic_step ops v"
  by (induction ops arbitrary: v) (simp_all add: pic_run_step_def)

section \<open>One request at a time\<close>

lemma irrpin_no_request: "request a = 0 \<Longrightarrow> vatpic_get_highest_irrpin a = None"
proof -
  assume "request a = 0"
  then have "irr_scan s a pins = None" for s pins by (induction pins) simp_all
  then show ?thesis by (simp add: vatpic_get_highest_irrpin_def)
qed

lemma irrpin_single:
  assumes "lowprio a < 8" "p < 8" "request a = set_bit p 0" "\<not> bit (mask a) p" "irr_serviced a = 0"
  shows "vatpic_get_highest_irrpin a = Some p"
proof -
  have r: "bit (request a) q \<longleftrightarrow> q = p" for q
    unfolding assms(3) bit_set_bit_zero using assms(2) by simp
  then have "eligible a q \<longleftrightarrow> q = p" for q using assms(4) by (auto simp: eligible_def)
  with assms(2,5) show ?thesis by (auto simp: irrpin_Some_iff[OF assms(1)])
qed

lemma pin_order_mem: "lowprio a < 8 \<Longrightarrow> p < 8 \<Longrightarrow> p \<in> set (pin_order a)"
  using pin_index_rank[of a p] pin_rank_less[of a p] by (auto simp: pin_order_def image_iff intro!: bexI[of _ "pin_rank a p"])

lemma isrpin_single:
  assumes "lowprio a < 8" "p < 8" "service a = set_bit p 0" "\<not> smm a"
  shows "vatpic_get_highest_isrpin a = Some p"
proof -
  have s: "bit (service a) q \<longleftrightarrow> q = p" for q
    unfolding assms(3) bit_set_bit_zero using assms(2) by simp
  then have "List.find (\<lambda>q. bit (service a) q \<and> \<not> (smm a \<and> bit (mask a) q)) (pin_order a) \<noteq> None"
    using pin_order_mem[OF assms(1,2)] assms(4) by (auto simp: find_None_iff)
  then obtain q where q: "vatpic_get_highest_isrpin a = Some q"
    by (auto simp: vatpic_get_highest_isrpin_def)
  then have "bit (service a) q" by (auto simp: vatpic_get_highest_isrpin_def dest!: find_SomeD)
  with s q show ?thesis by simp
qed

text \<open>A controller with nothing requested, in service or raised, in the plain fully nested mode.\<close>

definition quiet_chip :: "atpic \<Rightarrow> bool" where
  "quiet_chip a \<longleftrightarrow> ready a \<and> request a = 0 \<and> service a = 0 \<and> \<not> intr_raised a \<and> acnt a = (\<lambda>_. 0)
     \<and> \<not> aeoi a \<and> \<not> rotate a \<and> \<not> smm a \<and> lowprio a < 8"

definition quiet :: "vatpic \<Rightarrow> bool" where
  "quiet v \<longleftrightarrow> quiet_chip (atpics v 0) \<and> quiet_chip (atpics v 1)
     \<and> irq_base (atpics v 0) mod 8 = 0 \<and> irq_base (atpics v 1) mod 8 = 0
     \<and> irq_base (atpics v 0) \<noteq> irq_base (atpics v 1)"

lemma base_vector:
  assumes "b mod 8 = 0" "p < 8"
  shows "(b + int p) AND NOT 7 = b" "nat ((b + int p) AND 7) = p"
proof -
  have m: "(b + int p) mod 8 = int p"
    using assms mod_add_left_eq[of b 8 "int p"] by simp
  then show "nat ((b + int p) AND 7) = p" by (simp add: and_7_int)
  show "(b + int p) AND NOT 7 = b" unfolding and_not_7_int using m by simp
qed

lemma upd_upd [simp]: "upd_atpic i f (upd_atpic i g v) = upd_atpic i (\<lambda>a. f (g a)) v"
  by (simp add: upd_atpic_def)

lemma upd_sent [simp]: "upd_atpic i f (v\<lparr>sent := s\<rparr>) = (upd_atpic i f v)\<lparr>sent := s\<rparr>"
  by (simp add: upd_atpic_def)

lemma upd_cong: "f (atpics v i) = g (atpics v i) \<Longrightarrow> upd_atpic i f v = upd_atpic i g v"
  by (simp add: upd_atpic_def)

lemma upd_id: "f (atpics v i) = atpics v i \<Longrightarrow> upd_atpic i f v = v"
  by (simp add: upd_atpic_def)

lemma slave_pin: "p < 8 \<Longrightarrow> (8 + p) div 8 = Suc 0" "p < 8 \<Longrightarrow> (8 + p) mod 8 = p" for p :: nat
  by simp_all

lemma count_pin_rise:
  "acnt (atpics v 0) p = 0 \<Longrightarrow> p < 8 \<Longrightarrow> count_pin p True v =
     upd_atpic 0 (\<lambda>a. a\<lparr>acnt := (acnt a)(p := 1), request := set_bit p (request a)\<rparr>) v"
  "acnt (atpics v 1) p = 0 \<Longrightarrow> p < 8 \<Longrightarrow> count_pin (8 + p) True v =
     upd_atpic 1 (\<lambda>a. a\<lparr>acnt := (acnt a)(p := 1), request := set_bit p (request a)\<rparr>) v"
  by (simp_all add: count_pin_def Let_def slave_pin)

lemma count_pin_fall:
  "acnt (atpics v 0) p = 1 \<Longrightarrow> p < 8 \<Longrightarrow> \<not> bit (elc v 0) p \<Longrightarrow>
     count_pin p False v = upd_atpic 0 (\<lambda>a. a\<lparr>acnt := (acnt a)(p := 0)\<rparr>) v"
  "acnt (atpics v 1) p = 1 \<Longrightarrow> p < 8 \<Longrightarrow> \<not> bit (elc v 1) p \<Longrightarrow>
     count_pin (8 + p) False v = upd_atpic 1 (\<lambda>a. a\<lparr>acnt := (acnt a)(p := 0)\<rparr>) v"
  by (simp_all add: count_pin_def Let_def slave_pin)

lemma notify_quiet:
  assumes "request (atpics v 0) = 0" "request (atpics v 1) = 0"
  shows "vatpic_notify_intr v = v"
  using assms irrpin_no_request[of "atpics v 0"] irrpin_no_request[of "atpics v 1"]
  by (simp add: notify_eq notify_master_def)

lemma notify_busy:
  assumes "intr_raised (atpics v 0)" "intr_raised (atpics v 1) \<or> request (atpics v 1) = 0"
  shows "vatpic_notify_intr v = v"
  using assms irrpin_no_request[of "atpics v 1"] by (auto simp: notify_eq notify_master_def)

lemma single_eligible:
  assumes "quiet_chip a" "p < 8" "\<not> bit (mask a) p"
  shows "vatpic_get_highest_irrpin (a\<lparr>acnt := c, request := set_bit p 0\<rparr>) = Some p"
  using assms by (intro irrpin_single) (simp_all add: quiet_chip_def irr_serviced_def)

text \<open>The state in which chip \<open>i\<close> presents pin \<open>p\<close>.\<close>

definition presenting :: "nat \<Rightarrow> atpic \<Rightarrow> atpic" where
  "presenting p a = a\<lparr>acnt := (\<lambda>_. 0), request := set_bit p 0, intr_raised := True\<rparr>"

lemma presenting_irr:
  assumes "quiet_chip a" "p < 8" "\<not> bit (mask a) p"
  shows "vatpic_get_highest_irrpin (presenting p a) = Some p"
  unfolding presenting_def irrpin_raised
  using assms by (intro irrpin_single) (simp_all add: quiet_chip_def irr_serviced_def)

lemma pulse_master:
  assumes q: "quiet v" and p: "p < 8" "\<not> bit (mask (atpics v 0)) p" "\<not> bit (elc v 0) p"
  shows "snd (vatpic_pulse_irq v (int p)) =
    (upd_atpic 0 (presenting p) v)\<lparr>sent := sent v @ [LapicLint0, IoapicPulse 0]\<rparr>"
proof -
  have c: "quiet_chip (atpics v 0)" "quiet_chip (atpics v 1)" using q by (simp_all add: quiet_def)
  then have z: "request (atpics v 0) = 0" "request (atpics v 1) = 0" "acnt (atpics v 0) = (\<lambda>_. 0)"
    "\<not> intr_raised (atpics v 0)" "ready (atpics v 0)" by (simp_all add: quiet_chip_def)
  define u where "u = upd_atpic 0 (\<lambda>a. a\<lparr>acnt := (acnt a)(p := 1), request := set_bit p (request a)\<rparr>) v"
  have rise: "count_pin p True v = u"
    unfolding u_def using z p(1) by (intro count_pin_rise) simp_all
  have irr: "vatpic_get_highest_irrpin (atpics u 0) = Some p"
    using single_eligible[OF c(1) p(1,2)] z by (simp add: u_def)
  have slave: "vatpic_get_highest_irrpin (atpics u 1) = None"
    using irrpin_no_request[OF z(2)] by (simp add: u_def)
  define w where "w = (upd_atpic 0 (\<lambda>a. a\<lparr>intr_raised := True\<rparr>) u)\<lparr>sent := sent v @ [LapicLint0, IoapicPulse 0]\<rparr>"
  have up: "vatpic_set_pinstate v p True = w"
    unfolding vatpic_set_pinstate.simps rise notify_eq using slave irr z(4)
    by (simp add: notify_master_def w_def) (simp add: u_def)
  have fall: "count_pin p False w = upd_atpic 0 (\<lambda>a. a\<lparr>acnt := (acnt a)(p := 0)\<rparr>) w"
    using p by (intro count_pin_fall) (simp_all add: w_def u_def)
  have "vatpic_set_pinstate w p False = upd_atpic 0 (\<lambda>a. a\<lparr>acnt := (acnt a)(p := 0)\<rparr>) w"
    unfolding vatpic_set_pinstate.simps fall using z(2) by (intro notify_busy) (simp_all add: w_def u_def)
  also have "\<dots> = (upd_atpic 0 (presenting p) v)\<lparr>sent := sent v @ [LapicLint0, IoapicPulse 0]\<rparr>"
    using z(1,3)
    by (intro vatpic.equality) (auto simp: w_def u_def atpics_upd presenting_def fun_eq_iff intro!: atpic.equality)
  finally show ?thesis using p(1) z(5) up by (simp add: vatpic_pulse_irq_def vatpic_set_irqstate_def)
qed

lemma pulse_slave:
  assumes q: "quiet v" and p: "p < 8" "\<not> bit (mask (atpics v 1)) p" "\<not> bit (elc v 1) p"
    and m: "\<not> bit (mask (atpics v 0)) 2" "\<not> bit (elc v 0) 2"
  shows "snd (vatpic_pulse_irq v (int (8 + p))) =
    (upd_atpic 0 (presenting 2) (upd_atpic 1 (presenting p) v))\<lparr>sent := sent v @ [LapicLint0, IoapicPulse 0]\<rparr>"
proof -
  have c: "quiet_chip (atpics v 0)" "quiet_chip (atpics v 1)" using q by (simp_all add: quiet_def)
  then have z: "request (atpics v 0) = 0" "request (atpics v 1) = 0" "acnt (atpics v 0) = (\<lambda>_. 0)"
    "acnt (atpics v 1) = (\<lambda>_. 0)" "\<not> intr_raised (atpics v 0)" "\<not> intr_raised (atpics v 1)" "ready (atpics v 1)"
    by (simp_all add: quiet_chip_def)
  define u where "u = upd_atpic 1 (\<lambda>a. a\<lparr>acnt := (acnt a)(p := 1), request := set_bit p (request a)\<rparr>) v"
  have rise: "count_pin (8 + p) True v = u"
    unfolding u_def using z p(1) by (intro count_pin_rise) simp_all
  have irr: "vatpic_get_highest_irrpin (atpics u 1) = Some p"
    using single_eligible[OF c(2) p(1,2)] z by (simp add: u_def)
  define r where "r = upd_atpic 1 (\<lambda>a. a\<lparr>intr_raised := True\<rparr>) u"
  define u2 where "u2 = upd_atpic 0 (\<lambda>a. a\<lparr>acnt := (acnt a)(2 := 1), request := set_bit 2 (request a)\<rparr>) r"
  have rise2: "count_pin 2 True r = u2"
    unfolding u2_def using z by (intro count_pin_rise) (simp_all add: r_def u_def)
  have irr2: "vatpic_get_highest_irrpin (atpics u2 0) = Some 2"
    using single_eligible[OF c(1) _ m(1)] z by (simp add: u2_def r_def u_def)
  define w where "w = (upd_atpic 0 (\<lambda>a. a\<lparr>intr_raised := True\<rparr>) u2)\<lparr>sent := sent v @ [LapicLint0, IoapicPulse 0]\<rparr>"
  have n1: "notify_master u2 = w"
    using irr2 z(5) by (simp add: notify_master_def w_def) (simp add: u2_def r_def u_def)
  have fall2: "count_pin 2 False w = upd_atpic 0 (\<lambda>a. a\<lparr>acnt := (acnt a)(2 := 0)\<rparr>) w"
    using m(2) by (intro count_pin_fall) (simp_all add: w_def u2_def r_def u_def)
  define x where "x = upd_atpic 0 (\<lambda>a. a\<lparr>acnt := (acnt a)(2 := 0)\<rparr>) w"
  have busy: "notify_master x = x" by (simp add: notify_master_def x_def w_def)
  have up: "vatpic_set_pinstate v (8 + p) True = x"
  proof -
    have "\<not> intr_raised (atpics u 1)" using z(6) by (simp add: u_def)
    moreover have "cascade u = x"
      unfolding cascade_def r_def[symmetric] rise2 n1 fall2 x_def[symmetric] by (rule busy)
    ultimately show ?thesis unfolding vatpic_set_pinstate.simps rise notify_eq using irr busy by simp
  qed
  have fall: "count_pin (8 + p) False x = upd_atpic 1 (\<lambda>a. a\<lparr>acnt := (acnt a)(p := 0)\<rparr>) x"
    using p by (intro count_pin_fall) (simp_all add: x_def w_def u2_def r_def u_def)
  have "vatpic_set_pinstate x (8 + p) False = upd_atpic 1 (\<lambda>a. a\<lparr>acnt := (acnt a)(p := 0)\<rparr>) x"
    unfolding vatpic_set_pinstate.simps fall
    by (intro notify_busy) (simp_all add: x_def w_def u2_def r_def u_def)
  also have "\<dots> = (upd_atpic 0 (presenting 2) (upd_atpic 1 (presenting p) v))\<lparr>sent := sent v @ [LapicLint0, IoapicPulse 0]\<rparr>"
    using z(1-4)
    by (intro vatpic.equality)
      (auto simp: x_def w_def u2_def r_def u_def atpics_upd presenting_def fun_eq_iff intro!: atpic.equality)
  finally show ?thesis using p(1) z(7) up
    by (simp add: vatpic_pulse_irq_def vatpic_set_irqstate_def nat_add_distrib Let_def slave_pin)
qed

text \<open>The state in which chip \<open>i\<close> services pin \<open>p\<close>.\<close>

definition serving :: "nat \<Rightarrow> atpic \<Rightarrow> atpic" where
  "serving p a = a\<lparr>acnt := (\<lambda>_. 0), request := 0, service := set_bit p 0, intr_raised := False\<rparr>"

lemma accept_presenting: "quiet_chip a \<Longrightarrow> vatpic_pin_accepted p (presenting p a) = serving p a"
  unfolding vatpic_pin_accepted_def presenting_def serving_def quiet_chip_def Let_def
  by simp

lemma quiet_upd: "quiet_chip a \<Longrightarrow> a\<lparr>acnt := (\<lambda>_. 0), request := 0, intr_raised := False, rotate := False, service := 0\<rparr> = a"
  by (cases a) (simp add: quiet_chip_def)

lemma request_serving [simp]: "request (serving p a) = 0"
  by (simp add: serving_def)

text \<open>A non-specific end of interrupt, command 0x20.\<close>

lemma eoi_serving:
  assumes a: "quiet_chip a" and u: "atpics u i = serving p a" and p: "p < 8" and i: "i = 0 \<or> i = 1"
    and other: "request (atpics u 0) = 0" "request (atpics u 1) = 0" and port: "port AND ICU_IMR_OFFSET = 0"
  shows "snd (vatpic_write i port 0x20 u) = upd_atpic i (\<lambda>_. a) u"
proof -
  have q: "request a = 0" "\<not> smm a" "lowprio a < 8" "ready a" using a by (simp_all add: quiet_chip_def)
  have isr: "vatpic_get_highest_isrpin ((serving p a)\<lparr>rotate := False\<rparr>) = Some p"
    using q p by (intro isrpin_single) (simp_all add: serving_def)
  have "vatpic_ocw2 i 0x20 u = (0, upd_atpic i (\<lambda>_. a) u)"
    unfolding vatpic_ocw2_def Let_def pic_consts using isr u quiet_upd[OF a]
    by (simp add: serving_def upd_atpic_def)
  moreover have "vatpic_notify_intr (upd_atpic i (\<lambda>_. a) u) = upd_atpic i (\<lambda>_. a) u"
    using q(1) i other by (intro notify_quiet) (auto simp: atpics_upd)
  ultimately show ?thesis using u q(4) port unfolding vatpic_write_def
    by (simp add: serving_def)
qed

definition pic_eoi :: "bool \<Rightarrow> vatpic \<Rightarrow> vatpic" where
  "pic_eoi both v =
     snd (vatpic_write 0 IO_ICU1 0x20 (if both then snd (vatpic_write 1 IO_ICU2 0x20 v) else v))"

lemma service_master:
  assumes q: "quiet v" and p: "p < 8" "p \<noteq> 2" "\<not> bit (mask (atpics v 0)) p"
    and v1: "v1 = (upd_atpic 0 (presenting p) v)\<lparr>sent := s\<rparr>"
  shows "vatpic_pending_intr v1 = irq_base (atpics v 0) + int p"
    and "vatpic_intr_accepted (irq_base (atpics v 0) + int p) v1 = (upd_atpic 0 (serving p) v)\<lparr>sent := s\<rparr>"
    and "pic_eoi False ((upd_atpic 0 (serving p) v)\<lparr>sent := s\<rparr>) = v\<lparr>sent := s\<rparr>"
proof -
  have c: "quiet_chip (atpics v 0)" "quiet_chip (atpics v 1)" using q by (simp_all add: quiet_def)
  then have z: "request (atpics v 1) = 0" by (simp add: quiet_chip_def)
  have b: "irq_base (atpics v 0) mod 8 = 0" "irq_base (atpics v 0) \<noteq> irq_base (atpics v 1)"
    using q by (simp_all add: quiet_def)
  have "vatpic_get_highest_irrpin (presenting p (atpics v 0)) = Some p"
    using presenting_irr[OF c(1) p(1,3)] .
  then show "vatpic_pending_intr v1 = irq_base (atpics v 0) + int p"
    using v1 p(2) by (simp add: vatpic_pending_intr_def presenting_def)
  have "vatpic_notify_intr ((upd_atpic 0 (serving p) v)\<lparr>sent := s\<rparr>) = (upd_atpic 0 (serving p) v)\<lparr>sent := s\<rparr>"
    using z by (intro notify_quiet) simp_all
  moreover have "upd_atpic 0 (vatpic_pin_accepted p) v1 = (upd_atpic 0 (serving p) v)\<lparr>sent := s\<rparr>"
    using accept_presenting[OF c(1)] by (simp add: v1 upd_atpic_def)
  moreover have "irq_base (atpics v1 1) = irq_base (atpics v 1)" using v1 by simp
  ultimately show "vatpic_intr_accepted (irq_base (atpics v 0) + int p) v1 = (upd_atpic 0 (serving p) v)\<lparr>sent := s\<rparr>"
    unfolding vatpic_intr_accepted_def Let_def base_vector[OF b(1) p(1)] using b(2) by simp
  have "snd (vatpic_write 0 IO_ICU1 0x20 ((upd_atpic 0 (serving p) v)\<lparr>sent := s\<rparr>))
      = upd_atpic 0 (\<lambda>_. atpics v 0) ((upd_atpic 0 (serving p) v)\<lparr>sent := s\<rparr>)"
    using z by (intro eoi_serving[OF c(1) _ p(1)]) (simp_all add: pic_consts)
  then show "pic_eoi False ((upd_atpic 0 (serving p) v)\<lparr>sent := s\<rparr>) = v\<lparr>sent := s\<rparr>"
    by (simp add: pic_eoi_def upd_atpic_def)
qed

lemma service_slave:
  assumes q: "quiet v" and p: "p < 8" "\<not> bit (mask (atpics v 1)) p" "\<not> bit (mask (atpics v 0)) 2"
    and v1: "v1 = (upd_atpic 0 (presenting 2) (upd_atpic 1 (presenting p) v))\<lparr>sent := s\<rparr>"
    and v2: "v2 = (upd_atpic 0 (serving 2) (upd_atpic 1 (serving p) v))\<lparr>sent := s\<rparr>"
  shows "vatpic_pending_intr v1 = irq_base (atpics v 1) + int p"
    and "vatpic_intr_accepted (irq_base (atpics v 1) + int p) v1 = v2"
    and "pic_eoi True v2 = v\<lparr>sent := s\<rparr>"
proof -
  have c: "quiet_chip (atpics v 0)" "quiet_chip (atpics v 1)" using q by (simp_all add: quiet_def)
  have b: "irq_base (atpics v 1) mod 8 = 0" using q by (simp add: quiet_def)
  have "vatpic_get_highest_irrpin (presenting 2 (atpics v 0)) = Some 2"
    "vatpic_get_highest_irrpin (presenting p (atpics v 1)) = Some p"
    using presenting_irr[OF c(1) _ p(3)] presenting_irr[OF c(2) p(1,2)] by simp_all
  then show "vatpic_pending_intr v1 = irq_base (atpics v 1) + int p"
    using v1 by (simp add: vatpic_pending_intr_def) (simp add: presenting_def)
  have "upd_atpic 0 (vatpic_pin_accepted 2) (upd_atpic 1 (vatpic_pin_accepted p) v1) = v2"
    using accept_presenting[OF c(1)] accept_presenting[OF c(2)]
    by (simp add: v1 v2 upd_atpic_def fun_upd_twist)
  moreover have "vatpic_notify_intr v2 = v2" unfolding v2 by (intro notify_quiet) simp_all
  moreover have "irq_base (atpics v1 1) = irq_base (atpics v 1)" using v1 by (simp add: presenting_def)
  ultimately show "vatpic_intr_accepted (irq_base (atpics v 1) + int p) v1 = v2"
    unfolding vatpic_intr_accepted_def Let_def base_vector[OF b p(1)] by simp
  have e1: "snd (vatpic_write 1 IO_ICU2 0x20 v2) = upd_atpic 1 (\<lambda>_. atpics v 1) v2"
    by (intro eoi_serving[OF c(2) _ p(1)]) (simp_all add: v2 pic_consts)
  have "snd (vatpic_write 0 IO_ICU1 0x20 (upd_atpic 1 (\<lambda>_. atpics v 1) v2))
      = upd_atpic 0 (\<lambda>_. atpics v 0) (upd_atpic 1 (\<lambda>_. atpics v 1) v2)"
    using c(2) by (intro eoi_serving[OF c(1), where p = 2]) (simp_all add: v2 pic_consts quiet_chip_def)
  then show "pic_eoi True v2 = v\<lparr>sent := s\<rparr>"
    unfolding pic_eoi_def if_True e1 by (simp add: v2 upd_atpic_def fun_upd_twist)
qed

section \<open>Pins a notification leaves alone\<close>

lemma count_cascade_frame:
  "(i, p) \<noteq> (0, 2) \<Longrightarrow> acnt (atpics (count_pin 2 st v) i) p = acnt (atpics v i) p"
  "(i, p) \<noteq> (0, 2) \<Longrightarrow> bit (request (atpics (count_pin 2 st v) i)) p = bit (request (atpics v i)) p"
  by (auto simp: count_pin_def Let_def atpics_upd bit_set_bit_word bit_unset_bit_word)

lemma notify_master_frame:
  "acnt (atpics (notify_master v) i) = acnt (atpics v i)" "request (atpics (notify_master v) i) = request (atpics v i)"
  by (simp_all add: notify_master_def atpics_upd)

lemma notify_frame:
  assumes "(i, p) \<noteq> (0, 2)"
  shows "acnt (atpics (vatpic_notify_intr v) i) p = acnt (atpics v i) p"
    and "bit (request (atpics (vatpic_notify_intr v) i)) p = bit (request (atpics v i)) p"
  using count_cascade_frame[OF assms]
  by (simp_all add: notify_eq cascade_def notify_master_frame atpics_upd)

lemma ready_set_pinstate [simp]: "ready (atpics (vatpic_set_pinstate v pin st) i) = ready (atpics v i)"
  using core_eqD(1)[of "atpics (vatpic_set_pinstate v pin st) i" "atpics v i"]
  by (simp add: vatpic_set_pinstate.simps)

lemma elc_set_pinstate [simp]: "elc (vatpic_set_pinstate v pin st) = elc v"
  by (simp add: vatpic_set_pinstate.simps)

lemma set_pinstate_count:
  assumes "n \<noteq> 2" "\<not> bit (elc v (n div 8)) (n mod 8)"
    and "(acnt (atpics v (n div 8)) (n mod 8), st) \<noteq> (0, True)"
  shows "acnt (atpics (vatpic_set_pinstate v n st) (n div 8)) (n mod 8) =
      acnt (atpics v (n div 8)) (n mod 8) + (if st then 1 else - 1)"
    and "bit (request (atpics (vatpic_set_pinstate v n st) (n div 8))) (n mod 8) =
      bit (request (atpics v (n div 8))) (n mod 8)"
proof -
  have ne: "(n div 8, n mod 8) \<noteq> (0, 2)" using assms(1) by (metis mult_zero_right add_0 mult_div_mod_eq prod.inject)
  show "acnt (atpics (vatpic_set_pinstate v n st) (n div 8)) (n mod 8) =
      acnt (atpics v (n div 8)) (n mod 8) + (if st then 1 else - 1)"
    and "bit (request (atpics (vatpic_set_pinstate v n st) (n div 8))) (n mod 8) =
      bit (request (atpics v (n div 8))) (n mod 8)"
    unfolding vatpic_set_pinstate.simps notify_frame[OF ne] using assms(2,3)
    by (auto simp: count_pin_def Let_def)
qed

section \<open>Properties\<close>

text \<open>
  C33 (functional). The scan for the next interrupt respects the rotating priorities: it returns pin
  \<open>p\<close> exactly when \<open>p\<close> is requested and not masked, no pin of higher priority is, and no pin of the
  same or a higher priority is in service as far as the special mask mode and the special fully nested
  mode let it count.
\<close>

theorem highest_irrpin_priority:
  assumes "lowprio a < 8"
  shows "vatpic_get_highest_irrpin a = Some p \<longleftrightarrow>
    p < 8 \<and> bit (request a) p \<and> \<not> bit (mask a) p
    \<and> (\<forall>q < 8. pin_rank a q < pin_rank a p \<longrightarrow> \<not> (bit (request a) q \<and> \<not> bit (mask a) q))
    \<and> (\<forall>q < 8. pin_rank a q \<le> pin_rank a p \<longrightarrow> \<not> bit (irr_serviced a) q)"
  using irrpin_Some_iff[OF assms, of p] by (simp add: eligible_def)

theorem highest_irrpin_priority_witness:
  "vatpic_get_highest_irrpin (zero_atpic\<lparr>lowprio := 3, request := 0x22, service := 0x04\<rparr>) = Some 5"
proof -
  have l: "lowprio (zero_atpic\<lparr>lowprio := 3, request := 0x22, service := 0x04\<rparr>) < 8" by simp
  have e: "q < 8 \<longleftrightarrow> q = 0 \<or> q = 1 \<or> q = 2 \<or> q = 3 \<or> q = 4 \<or> q = 5 \<or> q = 6 \<or> q = 7" for q :: nat by auto
  show ?thesis unfolding highest_irrpin_priority[OF l]
    by (auto simp: e pin_rank_def irr_serviced_def zero_atpic_def)
qed



text \<open>
  C32 (roundtrip). Servicing an interrupt restores the controller. On a quiet pair of chips pulse any
  edge-triggered, unmasked line but the cascade. The master announces it once, the pending vector is the
  base of the chip plus the pin, and after the acceptance and the non-specific end of interrupt (on
  both chips for a slave line) every register is what it was before.
\<close>

theorem irq_service_roundtrip:
  assumes "quiet v" "n < 16" "n \<noteq> 2"
    and "\<not> bit (mask (atpics v (n div 8))) (n mod 8)" "\<not> bit (elc v (n div 8)) (n mod 8)"
    and "8 \<le> n \<Longrightarrow> \<not> bit (mask (atpics v 0)) 2 \<and> \<not> bit (elc v 0) 2"
    and "v1 = snd (vatpic_pulse_irq v (int n))" "vec = vatpic_pending_intr v1"
  shows "vec = irq_base (atpics v (n div 8)) + int (n mod 8)
    \<and> bit (service (atpics (vatpic_intr_accepted vec v1) (n div 8))) (n mod 8)
    \<and> pic_eoi (8 \<le> n) (vatpic_intr_accepted vec v1) = v\<lparr>sent := sent v @ [LapicLint0, IoapicPulse 0]\<rparr>"
proof (cases "n < 8")
  case True
  then have d: "n div 8 = 0" "n mod 8 = n" by simp_all
  let ?s = "sent v @ [LapicLint0, IoapicPulse 0]"
  have v1: "v1 = (upd_atpic 0 (presenting n) v)\<lparr>sent := ?s\<rparr>"
    using pulse_master[OF assms(1) True] assms(4,5,7) d by simp
  have m: "\<not> bit (mask (atpics v 0)) n" using assms(4) d by simp
  note s = service_master[OF assms(1) True assms(3) m v1]
  show ?thesis using s assms(8) d True by (simp add: serving_def bit_set_bit_zero[simplified])
next
  case False
  then obtain p where n: "n = 8 + p" using le_Suc_ex[of 8 n] by auto
  then have p: "p < 8" using assms(2) by simp
  then have d: "n div 8 = Suc 0" "n mod 8 = p" using n by (simp_all add: slave_pin)
  let ?s = "sent v @ [LapicLint0, IoapicPulse 0]"
  have m: "\<not> bit (mask (atpics v 1)) p" "\<not> bit (elc v 1) p" "\<not> bit (mask (atpics v 0)) 2" "\<not> bit (elc v 0) 2"
    using assms(4-6) d False by simp_all
  have v1: "v1 = (upd_atpic 0 (presenting 2) (upd_atpic 1 (presenting p) v))\<lparr>sent := ?s\<rparr>"
    using pulse_slave[OF assms(1) p m] assms(7) n by simp
  note s = service_slave[OF assms(1) p m(1,3) v1 refl]
  show ?thesis using s assms(8) d False p by (simp add: serving_def bit_set_bit_zero[simplified])
qed

definition pic_demo :: vatpic where
  "pic_demo = vatpic_init\<lparr>atpics := (\<lambda>i. zero_atpic\<lparr>ready := True, irq_base := (if i = 0 then 0x30 else 0x38)\<rparr>)\<rparr>"

theorem irq_service_roundtrip_witness:
  "vatpic_pending_intr (snd (vatpic_pulse_irq pic_demo (int 12))) = 0x38 + 4"
proof -
  have "quiet pic_demo" by (simp add: quiet_def quiet_chip_def pic_demo_def zero_atpic_def)
  from irq_service_roundtrip[OF this _ _ _ _ _ refl refl, of 12] show ?thesis
    by (simp add: pic_demo_def zero_atpic_def vatpic_init_def)
qed

text \<open>
  An assertion that arrives before the chip is initialised is dropped, the matching
  deassertion is not. On an edge-triggered line whose count is 0 the deassertion moves the count to
  -1, and the next assertion only brings it back to 0: no request is latched, so that interrupt is lost.
\<close>

theorem early_assert_loses_edge:
  assumes "n < 16" "n \<noteq> 2" "\<not> ready (atpics v0 (n div 8))"
    and "ready (atpics v (n div 8))" "acnt (atpics v (n div 8)) (n mod 8) = 0" "\<not> bit (elc v (n div 8)) (n mod 8)"
    and "v1 = snd (vatpic_deassert_irq v (int n))" "v2 = snd (vatpic_assert_irq v1 (int n))"
  shows "vatpic_assert_irq v0 (int n) = (OK, v0)
    \<and> acnt (atpics v1 (n div 8)) (n mod 8) = - 1 \<and> acnt (atpics v2 (n div 8)) (n mod 8) = 0
    \<and> bit (request (atpics v2 (n div 8))) (n mod 8) = bit (request (atpics v (n div 8))) (n mod 8)"
proof -
  have v1: "v1 = vatpic_set_pinstate v n False" and v2: "v2 = vatpic_set_pinstate v1 n True"
    using assms(1,4,7,8) by (simp_all add: vatpic_deassert_irq_def vatpic_assert_irq_def vatpic_set_irqstate_def Let_def)
  have a: "acnt (atpics v1 (n div 8)) (n mod 8) = - 1"
    "bit (request (atpics v1 (n div 8))) (n mod 8) = bit (request (atpics v (n div 8))) (n mod 8)"
    using set_pinstate_count[of n v False] assms(2,5,6) v1 by simp_all
  moreover have "acnt (atpics v2 (n div 8)) (n mod 8) = 0"
    "bit (request (atpics v2 (n div 8))) (n mod 8) = bit (request (atpics v1 (n div 8))) (n mod 8)"
    using set_pinstate_count[of n v1 True] assms(2,6) a(1) v1 v2 by simp_all
  moreover have "vatpic_assert_irq v0 (int n) = (OK, v0)"
    using assms(1,3) by (simp add: vatpic_assert_irq_def vatpic_set_irqstate_def Let_def)
  ultimately show ?thesis by simp
qed

theorem early_assert_loses_edge_witness:
  "vatpic_assert_irq vatpic_init 4 = (OK, vatpic_init)
   \<and> \<not> bit (request (atpics (snd (vatpic_assert_irq (snd (vatpic_deassert_irq pic_demo 4)) 4)) 0)) 4"
  using early_assert_loses_edge[of 4 vatpic_init pic_demo, OF _ _ _ _ _ _ refl refl]
  by (simp add: vatpic_init_def pic_demo_def zero_atpic_def)

end
