(* ===== verification/Vioapic.thy ===== *)
theory Vioapic
  imports Vatpic
begin

text \<open>
  The I/O APIC of \<^verbatim>\<open>src/src/lib/vmm/io/vioapic.c\<close>: 24 redirection entries of 64 bits, each with the count
  of assertions of its pin, behind the two memory-mapped registers \<^verbatim>\<open>IOREGSEL\<close> and \<^verbatim>\<open>IOWIN\<close>.
  Messages to the local APICs and requests to recompute their trigger-mode registers are appended to
  \<open>msgs\<close> in the order the code issues them.
\<close>

section \<open>Registers\<close>

definition IOREGSEL :: u64 where "IOREGSEL = 0x00"
definition IOWIN :: u64 where "IOWIN = 0x10"
definition REDIR_ENTRIES :: nat where "REDIR_ENTRIES = 24"
definition VIOAPIC_BASE :: u64 where "VIOAPIC_BASE = 0xfec00000"
definition IOAPIC_ID :: nat where "IOAPIC_ID = 0"
definition IOAPIC_VER :: nat where "IOAPIC_VER = 1"
definition IOAPIC_ARB :: nat where "IOAPIC_ARB = 2"
definition IOAPIC_REDTBL :: nat where "IOAPIC_REDTBL = 0x10"
definition MAXREDIRSHIFT :: nat where "MAXREDIRSHIFT = 0x10"
definition APIC_ID_MASK :: u32 where "APIC_ID_MASK = 0xff000000"
definition APIC_ID_SHIFT :: nat where "APIC_ID_SHIFT = 24"

text \<open>Fields of a redirection entry.\<close>

definition IOART_INTMASK :: u64 where "IOART_INTMASK = 0x00010000"
definition IOART_TRGRLVL :: u64 where "IOART_TRGRLVL = 0x00008000"
definition IOART_REM_IRR :: u64 where "IOART_REM_IRR = 0x00004000"
definition IOART_INTPOL :: u64 where "IOART_INTPOL = 0x00002000"
definition IOART_DELIVS :: u64 where "IOART_DELIVS = 0x00001000"
definition IOART_DESTMOD :: u64 where "IOART_DESTMOD = 0x00000800"
definition IOART_DELMOD :: u64 where "IOART_DELMOD = 0x00000700"
definition IOART_INTVEC :: u64 where "IOART_INTVEC = 0x000000ff"
definition RTBL_RO_BITS :: u64 where "RTBL_RO_BITS = IOART_REM_IRR OR IOART_DELIVS"

lemmas ioapic_consts =
  IOREGSEL_def IOWIN_def REDIR_ENTRIES_def VIOAPIC_BASE_def IOAPIC_ID_def IOAPIC_VER_def IOAPIC_ARB_def
  IOAPIC_REDTBL_def MAXREDIRSHIFT_def APIC_ID_MASK_def APIC_ID_SHIFT_def

lemmas ioart_consts =
  IOART_INTMASK_def IOART_TRGRLVL_def IOART_REM_IRR_def IOART_INTPOL_def IOART_DELIVS_def
  IOART_DESTMOD_def IOART_DELMOD_def IOART_INTVEC_def RTBL_RO_BITS_def

section \<open>State\<close>

record rtbl_entry =
  reg :: u64
  pin_acnt :: int

text \<open>\<open>Deliver level dest phys delmode vector\<close> stands for a call of \<^verbatim>\<open>vlapic_deliver_intr\<close>,
  \<open>UpdateTmr vcpu\<close> for the rendezvous that runs \<^verbatim>\<open>vioapic_update_tmr\<close> on all virtual CPUs.\<close>

datatype ioapic_msg = Deliver bool u32 bool u32 u32 | UpdateTmr int

record vioapic =
  ioapic_id :: u32
  ioregsel :: u32
  rtbl :: "nat \<Rightarrow> rtbl_entry"
  msgs :: "ioapic_msg list"

definition set_reg :: "nat \<Rightarrow> u64 \<Rightarrow> vioapic \<Rightarrow> vioapic" where
  "set_reg pin r v = v\<lparr>rtbl := (rtbl v)(pin := (rtbl v pin)\<lparr>reg := r\<rparr>)\<rparr>"

definition vioapic_init :: vioapic where
  "vioapic_init = \<lparr>ioapic_id = 0, ioregsel = 0,
     rtbl = (\<lambda>i. \<lparr>reg = (if i < REDIR_ENTRIES then 0x0001000000010000 else 0), pin_acnt = 0\<rparr>), msgs = []\<rparr>"

section \<open>Interrupt lines\<close>

text \<open>The low and high halves are read before \<^verbatim>\<open>IOART_REM_IRR\<close> is set.\<close>

definition vioapic_send_intr :: "nat \<Rightarrow> vioapic \<Rightarrow> vioapic" where
  "vioapic_send_intr pin v =
     (let low = reg (rtbl v pin) AND 0xffffffff;
          high = ucast (drop_bit 32 (reg (rtbl v pin))) :: u32
      in if low AND IOART_INTMASK \<noteq> 0 then v
         else
           let phys = (low AND IOART_DESTMOD = 0);
               delmode = ucast (low AND IOART_DELMOD) :: u32;
               level = (low AND IOART_TRGRLVL \<noteq> 0);
               v1 = (if level then set_reg pin (reg (rtbl v pin) OR IOART_REM_IRR) v else v);
               vector = ucast (low AND IOART_INTVEC) :: u32;
               dest = drop_bit APIC_ID_SHIFT high
           in v1\<lparr>msgs := msgs v1 @ [Deliver level dest phys delmode vector]\<rparr>)"

definition vioapic_set_pinstate :: "nat \<Rightarrow> bool \<Rightarrow> vioapic \<Rightarrow> vioapic" where
  "vioapic_set_pinstate pin newstate v =
     (let oldcnt = pin_acnt (rtbl v pin);
          newcnt = (if newstate then oldcnt + 1 else oldcnt - 1);
          v1 = v\<lparr>rtbl := (rtbl v)(pin := (rtbl v pin)\<lparr>pin_acnt := newcnt\<rparr>)\<rparr>;
          needintr = (oldcnt = 0 \<and> newcnt = 1)
      in if needintr then vioapic_send_intr pin v1 else v1)"

definition vioapic_set_irqstate :: "int \<Rightarrow> irqstate \<Rightarrow> vioapic \<Rightarrow> errno \<times> vioapic" where
  "vioapic_set_irqstate irq st v =
     (if irq < 0 \<or> irq \<ge> int REDIR_ENTRIES then (EINVAL, v)
      else
        let n = nat irq in
        (OK, case st of
           IRQSTATE_ASSERT \<Rightarrow> vioapic_set_pinstate n True v
         | IRQSTATE_DEASSERT \<Rightarrow> vioapic_set_pinstate n False v
         | IRQSTATE_PULSE \<Rightarrow> vioapic_set_pinstate n False (vioapic_set_pinstate n True v)))"

definition vioapic_assert_irq :: "int \<Rightarrow> vioapic \<Rightarrow> errno \<times> vioapic" where
  "vioapic_assert_irq irq v = vioapic_set_irqstate irq IRQSTATE_ASSERT v"

definition vioapic_deassert_irq :: "int \<Rightarrow> vioapic \<Rightarrow> errno \<times> vioapic" where
  "vioapic_deassert_irq irq v = vioapic_set_irqstate irq IRQSTATE_DEASSERT v"

definition vioapic_pulse_irq :: "int \<Rightarrow> vioapic \<Rightarrow> errno \<times> vioapic" where
  "vioapic_pulse_irq irq v = vioapic_set_irqstate irq IRQSTATE_PULSE v"

text \<open>The calls \<^verbatim>\<open>vioapic_update_tmr\<close> makes on the local APIC of one virtual CPU.\<close>

datatype tmr_call = ResetTmr | SetTmrLevel u32 bool u32 u32

definition vioapic_update_tmr :: "vioapic \<Rightarrow> tmr_call list" where
  "vioapic_update_tmr v =
     ResetTmr # concat (map (\<lambda>pin.
       let low = reg (rtbl v pin) AND 0xffffffff;
           high = ucast (drop_bit 32 (reg (rtbl v pin))) :: u32
       in if low AND IOART_TRGRLVL = 0 then []
          else [SetTmrLevel (drop_bit APIC_ID_SHIFT high) (low AND IOART_DESTMOD = 0)
                  (ucast (low AND IOART_DELMOD)) (ucast (low AND IOART_INTVEC))]) [0..<REDIR_ENTRIES])"

section \<open>Register access\<close>

definition vioapic_read :: "u32 \<Rightarrow> vioapic \<Rightarrow> u32" where
  "vioapic_read addr v =
     (let regnum = unat (addr AND 0xff) in
      if regnum = IOAPIC_ID then ioapic_id v
      else if regnum = IOAPIC_VER then push_bit MAXREDIRSHIFT (word_of_nat (REDIR_ENTRIES - 1)) OR 0x11
      else if regnum = IOAPIC_ARB then ioapic_id v
      else if regnum \<ge> IOAPIC_REDTBL \<and> regnum < IOAPIC_REDTBL + REDIR_ENTRIES * 2
      then
        let pin = (regnum - IOAPIC_REDTBL) div 2;
            rshift = (if (regnum - IOAPIC_REDTBL) mod 2 \<noteq> 0 then 32 else 0 :: nat)
        in ucast (drop_bit rshift (reg (rtbl v pin)))
      else 0)"

definition rtbl_write :: "int \<Rightarrow> nat \<Rightarrow> nat \<Rightarrow> u32 \<Rightarrow> vioapic \<Rightarrow> vioapic" where
  "rtbl_write vcpuid pin lshift data v =
     (let last = reg (rtbl v pin);
          data64 = push_bit lshift (ucast data) :: u64;
          mask64 = push_bit lshift 0xffffffff :: u64;
          r = (last AND (NOT mask64 OR RTBL_RO_BITS)) OR (data64 AND NOT RTBL_RO_BITS);
          v1 = set_reg pin r v;
          changed = last XOR r;
          v2 = (if changed AND NOT (IOART_INTMASK OR IOART_INTPOL) \<noteq> 0
                then v1\<lparr>msgs := msgs v1 @ [UpdateTmr vcpuid]\<rparr> else v1)
      in if reg (rtbl v2 pin) AND IOART_INTMASK = 0 \<and> reg (rtbl v2 pin) AND IOART_REM_IRR = 0
            \<and> pin_acnt (rtbl v2 pin) > 0
         then vioapic_send_intr pin v2
         else v2)"

definition vioapic_write :: "int \<Rightarrow> u32 \<Rightarrow> u32 \<Rightarrow> vioapic \<Rightarrow> vioapic" where
  "vioapic_write vcpuid addr data v =
     (let regnum = unat (addr AND 0xff);
          v1 = (if regnum = IOAPIC_ID then v\<lparr>ioapic_id := data AND APIC_ID_MASK\<rparr> else v)
      in if regnum \<ge> IOAPIC_REDTBL \<and> regnum < IOAPIC_REDTBL + REDIR_ENTRIES * 2
         then rtbl_write vcpuid ((regnum - IOAPIC_REDTBL) div 2)
                (if (regnum - IOAPIC_REDTBL) mod 2 \<noteq> 0 then 32 else 0) data v1
         else v1)"

text \<open>\<^verbatim>\<open>*data\<close> is the third argument and the first result; the return value of the code is always 0.\<close>

definition vioapic_mmio_rw :: "int \<Rightarrow> u64 \<Rightarrow> u64 \<Rightarrow> int \<Rightarrow> bool \<Rightarrow> vioapic \<Rightarrow> u64 \<times> vioapic" where
  "vioapic_mmio_rw vcpuid gpa data sz doread v =
     (let offset = gpa - VIOAPIC_BASE in
      if sz \<noteq> 4 \<or> (offset \<noteq> IOREGSEL \<and> offset \<noteq> IOWIN)
      then ((if doread then 0 else data), v)
      else if offset = IOREGSEL
      then (if doread then (ucast (ioregsel v), v) else (data, v\<lparr>ioregsel := ucast data\<rparr>))
      else if doread then (ucast (vioapic_read (ioregsel v) v), v)
      else (data, vioapic_write vcpuid (ioregsel v) (ucast data) v))"

definition vioapic_mmio_read :: "int \<Rightarrow> u64 \<Rightarrow> u64 \<Rightarrow> int \<Rightarrow> vioapic \<Rightarrow> u64 \<times> vioapic" where
  "vioapic_mmio_read vcpuid gpa rval sz v = vioapic_mmio_rw vcpuid gpa rval sz True v"

definition vioapic_mmio_write :: "int \<Rightarrow> u64 \<Rightarrow> u64 \<Rightarrow> int \<Rightarrow> vioapic \<Rightarrow> vioapic" where
  "vioapic_mmio_write vcpuid gpa wval sz v = snd (vioapic_mmio_rw vcpuid gpa wval sz False v)"

text \<open>One round of the loop of \<^verbatim>\<open>vioapic_process_eoi\<close>.\<close>

definition eoi_pin :: "int \<Rightarrow> nat \<Rightarrow> vioapic \<Rightarrow> vioapic" where
  "eoi_pin vector pin v =
     (if reg (rtbl v pin) AND IOART_REM_IRR = 0 then v
      else if uint (reg (rtbl v pin) AND IOART_INTVEC) \<noteq> vector then v
      else
        let v1 = set_reg pin (reg (rtbl v pin) AND NOT IOART_REM_IRR) v in
        if pin_acnt (rtbl v1 pin) > 0 then vioapic_send_intr pin v1 else v1)"

definition vioapic_process_eoi :: "int \<Rightarrow> vioapic \<Rightarrow> vioapic" where
  "vioapic_process_eoi vector v = fold (eoi_pin vector) [0..<REDIR_ENTRIES] v"

definition vioapic_pincount :: nat where
  "vioapic_pincount = REDIR_ENTRIES"

section \<open>Entries bit by bit\<close>

lemma ioart_bits:
  fixes w :: u64
  shows "w AND IOART_INTMASK = 0 \<longleftrightarrow> \<not> bit w 16" "w AND IOART_TRGRLVL = 0 \<longleftrightarrow> \<not> bit w 15"
    "w AND IOART_REM_IRR = 0 \<longleftrightarrow> \<not> bit w 14" "w AND IOART_DESTMOD = 0 \<longleftrightarrow> \<not> bit w 11"
    "w OR IOART_REM_IRR = set_bit 14 w" "w AND NOT IOART_REM_IRR = unset_bit 14 w"
  using and_exp_eq_0_iff_not_bit[of w 16] and_exp_eq_0_iff_not_bit[of w 15]
    and_exp_eq_0_iff_not_bit[of w 14] and_exp_eq_0_iff_not_bit[of w 11]
  by (simp_all add: ioart_consts set_bit_eq_or unset_bit_eq_and_not)

lemma bit_low: "bit (w AND 0xffffffff) n \<longleftrightarrow> n < 32 \<and> bit w n" for w :: u64
proof -
  have m: "(0xffffffff :: u64) = Bit_Operations.mask 32" by (simp add: mask_eq_exp_minus_1)
  show ?thesis unfolding m by (auto simp: bit_and_iff bit_mask_iff)
qed

lemma set_reg_sel [simp]:
  "rtbl (set_reg pin r v) pin = (rtbl v pin)\<lparr>reg := r\<rparr>" "q \<noteq> pin \<Longrightarrow> rtbl (set_reg pin r v) q = rtbl v q"
  "msgs (set_reg pin r v) = msgs v" "pin_acnt (rtbl (set_reg pin r v) q) = pin_acnt (rtbl v q)"
  "ioapic_id (set_reg pin r v) = ioapic_id v" "ioregsel (set_reg pin r v) = ioregsel v"
  by (simp_all add: set_reg_def)

text \<open>The message an entry sends.\<close>

definition entry_msg :: "u64 \<Rightarrow> ioapic_msg" where
  "entry_msg r = Deliver (bit r 15) (drop_bit 24 (ucast (drop_bit 32 r))) (\<not> bit r 11)
     (ucast (r AND IOART_DELMOD)) (ucast (r AND IOART_INTVEC))"

lemma low_field: "m AND 0xffffffff = m \<Longrightarrow> (w AND 0xffffffff) AND m = w AND m" for w m :: u64
  by (metis and.assoc and.commute)

lemma send_intr_eq:
  "vioapic_send_intr pin v =
     (let r = reg (rtbl v pin) in
      if bit r 16 then v
      else (if bit r 15 then set_reg pin (set_bit 14 r) v else v)\<lparr>msgs := msgs v @ [entry_msg r]\<rparr>)"
proof -
  have f: "(w AND 0xffffffff) AND IOART_DELMOD = w AND IOART_DELMOD"
    "(w AND 0xffffffff) AND IOART_INTVEC = w AND IOART_INTVEC" for w :: u64
    by (simp_all add: low_field ioart_consts)
  show ?thesis
    unfolding vioapic_send_intr_def Let_def f ioart_bits bit_low
    by (simp add: entry_msg_def APIC_ID_SHIFT_def)
qed

lemma send_intr_sel [simp]:
  "pin_acnt (rtbl (vioapic_send_intr pin v) q) = pin_acnt (rtbl v q)"
  "q \<noteq> pin \<Longrightarrow> rtbl (vioapic_send_intr pin v) q = rtbl v q"
  "reg (rtbl (vioapic_send_intr pin v) pin) =
     (let r = reg (rtbl v pin) in if \<not> bit r 16 \<and> bit r 15 then set_bit 14 r else r)"
  by (simp_all add: send_intr_eq Let_def)

section \<open>Level-triggered interrupts are not lost\<close>

definition level_ok :: "rtbl_entry \<Rightarrow> bool" where
  "level_ok e \<longleftrightarrow> (0 < pin_acnt e \<and> \<not> bit (reg e) 16 \<and> bit (reg e) 15 \<longrightarrow> bit (reg e) 14)"

definition ioapic_inv :: "vioapic \<Rightarrow> bool" where
  "ioapic_inv v \<longleftrightarrow> (\<forall>pin. level_ok (rtbl v pin))"

lemma send_intr_level: "level_ok (rtbl (vioapic_send_intr pin v) pin)"
  by (simp add: level_ok_def Let_def bit_set_bit_word)

lemma inv_update:
  assumes "ioapic_inv v" "\<And>q. q \<noteq> pin \<Longrightarrow> rtbl w q = rtbl v q" "level_ok (rtbl w pin)"
  shows "ioapic_inv w"
  using assms unfolding ioapic_inv_def by metis

lemma send_if_level:
  "level_ok (rtbl (if \<not> bit (reg (rtbl w pin)) 16 \<and> \<not> bit (reg (rtbl w pin)) 14 \<and> 0 < pin_acnt (rtbl w pin)
     then vioapic_send_intr pin w else w) pin)"
  using send_intr_level[of pin w] by (cases "bit (reg (rtbl w pin)) 14") (auto simp: level_ok_def)

lemma inv_set_pinstate: "ioapic_inv v \<Longrightarrow> ioapic_inv (vioapic_set_pinstate pin st v)"
proof (rule inv_update[where v = v and pin = pin])
  assume "ioapic_inv v"
  then have l: "level_ok (rtbl v pin)" by (simp add: ioapic_inv_def)
  show "level_ok (rtbl (vioapic_set_pinstate pin st v) pin)"
  proof (cases "pin_acnt (rtbl v pin) = 0 \<and> st")
    case True
    then show ?thesis using send_intr_level[of pin] by (simp add: vioapic_set_pinstate_def Let_def)
  next
    case False
    with l show ?thesis by (auto simp: vioapic_set_pinstate_def Let_def level_ok_def)
  qed
qed (simp_all add: vioapic_set_pinstate_def Let_def)

lemma inv_rtbl_write: "ioapic_inv v \<Longrightarrow> ioapic_inv (rtbl_write vcpu pin lshift data v)"
proof (rule inv_update[where v = v and pin = pin])
  show "level_ok (rtbl (rtbl_write vcpu pin lshift data v) pin)"
    unfolding rtbl_write_def Let_def ioart_bits by (rule send_if_level)
qed (simp_all add: rtbl_write_def Let_def)

lemma inv_eoi_pin: "ioapic_inv v \<Longrightarrow> ioapic_inv (eoi_pin vec pin v)"
proof (rule inv_update[where v = v and pin = pin])
  assume "ioapic_inv v"
  then have "level_ok (rtbl v pin)" by (simp add: ioapic_inv_def)
  moreover have "level_ok (e\<lparr>reg := r\<rparr>)" if "\<not> 0 < pin_acnt e" for e r
    using that by (simp add: level_ok_def)
  ultimately show "level_ok (rtbl (eoi_pin vec pin v) pin)"
    using send_intr_level[of pin] by (simp add: eoi_pin_def Let_def)
next
  show "rtbl (eoi_pin vec pin v) q = rtbl v q" if "q \<noteq> pin" for q
    using that by (simp add: eoi_pin_def Let_def)
qed

datatype ioapic_op =
    IoIrq int irqstate | IoRead int u64 u64 int | IoWrite int u64 u64 int | IoEoi int

fun ioapic_step :: "ioapic_op \<Rightarrow> vioapic \<Rightarrow> vioapic" where
  "ioapic_step (IoIrq irq st) v = snd (vioapic_set_irqstate irq st v)"
| "ioapic_step (IoRead vcpu gpa rval sz) v = snd (vioapic_mmio_read vcpu gpa rval sz v)"
| "ioapic_step (IoWrite vcpu gpa wval sz) v = vioapic_mmio_write vcpu gpa wval sz v"
| "ioapic_step (IoEoi vec) v = vioapic_process_eoi vec v"

lemma inv_irqstate: "ioapic_inv v \<Longrightarrow> ioapic_inv (snd (vioapic_set_irqstate irq st v))"
  by (simp add: vioapic_set_irqstate_def Let_def inv_set_pinstate split: irqstate.split)

lemma inv_write: "ioapic_inv v \<Longrightarrow> ioapic_inv (vioapic_write vcpu addr data v)"
proof -
  assume inv: "ioapic_inv v"
  then have "ioapic_inv (v\<lparr>ioapic_id := i\<rparr>)" for i by (simp add: ioapic_inv_def)
  with inv show ?thesis by (simp add: vioapic_write_def Let_def inv_rtbl_write)
qed

lemma inv_mmio: "ioapic_inv v \<Longrightarrow> ioapic_inv (snd (vioapic_mmio_rw vcpu gpa data sz rd v))"
proof -
  assume inv: "ioapic_inv v"
  then have "ioapic_inv (v\<lparr>ioregsel := i\<rparr>)" for i by (simp add: ioapic_inv_def)
  with inv show ?thesis by (simp add: vioapic_mmio_rw_def Let_def inv_write)
qed

lemma inv_eoi: "ioapic_inv v \<Longrightarrow> ioapic_inv (vioapic_process_eoi vec v)"
proof -
  have "ioapic_inv v \<Longrightarrow> ioapic_inv (fold (eoi_pin vec) pins v)" for pins
    by (induction pins arbitrary: v) (simp_all add: inv_eoi_pin)
  then show "ioapic_inv v \<Longrightarrow> ioapic_inv (vioapic_process_eoi vec v)" by (simp add: vioapic_process_eoi_def)
qed

interpretation ioapic_run: machine "\<lambda>v. v = vioapic_init" ioapic_step ioapic_inv
proof (unfold_locales, goal_cases)
  case (1 v)
  then show ?case by (simp add: ioapic_inv_def vioapic_init_def level_ok_def)
next
  case (2 v op)
  then show ?case
    by (cases op) (simp_all add: inv_irqstate vioapic_mmio_read_def vioapic_mmio_write_def inv_mmio inv_eoi)
qed

section \<open>Redirection entries read back\<close>

lemma unat_low_byte: "n < 256 \<Longrightarrow> unat (word_of_nat n AND 0xff :: u32) = n"
proof -
  have m: "(0xff :: u32) = Bit_Operations.mask 8" by (simp add: mask_eq_exp_minus_1)
  assume "n < 256"
  moreover from this have u: "unat (word_of_nat n :: u32) = n" by (simp add: unat_of_nat)
  ultimately show ?thesis unfolding m take_bit_eq_mask[symmetric] unsigned_take_bit_eq u
    by (simp add: take_bit_eq_mod)
qed

lemma write_redtbl:
  assumes "pin < 24" "h < 2"
  shows "vioapic_write vcpu (word_of_nat (16 + 2 * pin + h)) data v = rtbl_write vcpu pin (32 * h) data v"
proof -
  have r: "unat (word_of_nat (16 + 2 * pin + h) AND 0xff :: u32) = 16 + 2 * pin + h"
    using assms by (intro unat_low_byte) simp
  have "h = 0 \<or> h = 1" using assms(2) by auto
  then show ?thesis using assms(1) unfolding vioapic_write_def Let_def r
    by (auto simp: ioapic_consts)
qed

lemma read_redtbl:
  assumes "pin < 24" "h < 2"
  shows "vioapic_read (word_of_nat (16 + 2 * pin + h)) v = ucast (drop_bit (32 * h) (reg (rtbl v pin)))"
proof -
  have r: "unat (word_of_nat (16 + 2 * pin + h) AND 0xff :: u32) = 16 + 2 * pin + h"
    using assms by (intro unat_low_byte) simp
  have "h = 0 \<or> h = 1" using assms(2) by auto
  then show ?thesis using assms(1) unfolding vioapic_read_def Let_def r
    by (auto simp: ioapic_consts)
qed

lemma bit_ro: "bit RTBL_RO_BITS n \<longleftrightarrow> n = 12 \<or> n = 14"
proof -
  have eq: "RTBL_RO_BITS = set_bit 14 (set_bit 12 0)" by (simp add: ioart_consts set_bit_eq_or)
  show ?thesis unfolding eq bit_set_bit_word by auto
qed

lemma bit_mask64: "bit (push_bit k (0xffffffff :: u64)) n \<longleftrightarrow> n < 64 \<and> k \<le> n \<and> n < k + 32"
proof -
  have m: "(0xffffffff :: u64) = Bit_Operations.mask 32" by (simp add: mask_eq_exp_minus_1)
  show ?thesis unfolding m by (auto simp: bit_push_bit_iff bit_mask_iff)
qed

lemma bit_rtbl_write:
  assumes "n < 64" "n \<noteq> 14" "n \<noteq> 12" "k = 0 \<or> k = 32"
  shows "bit (reg (rtbl (rtbl_write vcpu pin k data v) pin)) n =
     (if k \<le> n \<and> n < k + 32 then bit data (n - k) else bit (reg (rtbl v pin)) n)"
proof -
  have "bit (reg (rtbl (rtbl_write vcpu pin k data v) pin)) n =
     bit ((reg (rtbl v pin) AND (NOT (push_bit k 0xffffffff) OR RTBL_RO_BITS))
          OR (push_bit k (ucast data) AND NOT RTBL_RO_BITS)) n"
    using assms(2) by (simp add: rtbl_write_def Let_def bit_set_bit_word)
  also have "\<dots> = (if k \<le> n \<and> n < k + 32 then bit data (n - k) else bit (reg (rtbl v pin)) n)"
    unfolding bit_or_iff bit_and_iff bit_not_iff bit_mask64 bit_ro
    using assms by (auto simp: bit_push_bit_iff bit_ucast_iff dest: bit_imp_le_length)
  finally show ?thesis .
qed

section \<open>End of interrupt\<close>

definition eoi_hit :: "int \<Rightarrow> vioapic \<Rightarrow> nat \<Rightarrow> bool" where
  "eoi_hit vec v pin \<longleftrightarrow> bit (reg (rtbl v pin)) 14 \<and> uint (reg (rtbl v pin) AND IOART_INTVEC) = vec"

lemma eoi_pin_eq:
  "eoi_pin vec pin v =
     (if \<not> eoi_hit vec v pin then v
      else let v1 = set_reg pin (unset_bit 14 (reg (rtbl v pin))) v
           in if 0 < pin_acnt (rtbl v pin) then vioapic_send_intr pin v1 else v1)"
  by (auto simp: eoi_pin_def eoi_hit_def ioart_bits Let_def)

lemma eoi_fold:
  assumes "distinct pins"
  shows "q \<notin> set pins \<Longrightarrow> rtbl (fold (eoi_pin vec) pins v) q = rtbl v q"
    and "msgs (fold (eoi_pin vec) pins v) = msgs v @
      [entry_msg (unset_bit 14 (reg (rtbl v pin))). pin \<leftarrow> pins,
         eoi_hit vec v pin \<and> 0 < pin_acnt (rtbl v pin) \<and> \<not> bit (reg (rtbl v pin)) 16]"
  using assms
proof (induction pins arbitrary: v)
  case (Cons pin pins)
  {
    case 1
    then show ?case using Cons.IH(1)[of "eoi_pin vec pin v"] by (simp add: eoi_pin_eq Let_def)
  next
    case 2
    then have other: "rtbl (eoi_pin vec pin v) p = rtbl v p" if "p \<in> set pins" for p
    proof -
      have "p \<noteq> pin" using 2 that by auto
      then show ?thesis by (simp add: eoi_pin_eq Let_def)
    qed
    have m: "msgs (eoi_pin vec pin v) = msgs v @
        (if eoi_hit vec v pin \<and> 0 < pin_acnt (rtbl v pin) \<and> \<not> bit (reg (rtbl v pin)) 16
         then [entry_msg (unset_bit 14 (reg (rtbl v pin)))] else [])"
      by (simp add: eoi_pin_eq send_intr_eq Let_def bit_unset_bit_word)
    have "concat (map (\<lambda>p. if eoi_hit vec (eoi_pin vec pin v) p \<and> 0 < pin_acnt (rtbl (eoi_pin vec pin v) p)
            \<and> \<not> bit (reg (rtbl (eoi_pin vec pin v) p)) 16
          then [entry_msg (unset_bit 14 (reg (rtbl (eoi_pin vec pin v) p)))] else []) pins)
        = concat (map (\<lambda>p. if eoi_hit vec v p \<and> 0 < pin_acnt (rtbl v p) \<and> \<not> bit (reg (rtbl v p)) 16
          then [entry_msg (unset_bit 14 (reg (rtbl v p)))] else []) pins)"
      by (intro arg_cong[where f = concat] map_cong refl) (simp add: eoi_hit_def other)
    with 2 show ?case using Cons.IH(2)[of "eoi_pin vec pin v"] m by simp
  }
qed simp_all

section \<open>Properties\<close>

text \<open>
  C23 (safety). No level-triggered interrupt is lost. After any sequence of line changes, register
  accesses and end-of-interrupt messages, a pin that is held asserted, unmasked and level triggered has
  its remote IRR bit set: a message for it has been sent and not yet been answered.
\<close>

theorem ioapic_level_pending:
  assumes "v = fold ioapic_step ops vioapic_init" "0 < pin_acnt (rtbl v pin)"
    and "reg (rtbl v pin) AND IOART_INTMASK = 0" "reg (rtbl v pin) AND IOART_TRGRLVL \<noteq> 0"
  shows "reg (rtbl v pin) AND IOART_REM_IRR \<noteq> 0"
  using ioapic_run.run_invar[OF refl, of ops] assms
  by (simp add: ioart_bits ioapic_inv_def level_ok_def)

theorem ioapic_level_pending_witness:
  "reg (rtbl (fold ioapic_step [IoWrite 0 0xfec00000 0x18 4, IoWrite 0 0xfec00010 0x8040 4,
     IoIrq 4 IRQSTATE_ASSERT] vioapic_init) 4) AND IOART_REM_IRR \<noteq> 0"
  by (rule ioapic_level_pending[OF refl])
    (simp_all add: vioapic_mmio_write_def vioapic_mmio_rw_def ioapic_consts ioart_consts vioapic_write_def
      vioapic_init_def rtbl_write_def vioapic_send_intr_def vioapic_set_irqstate_def vioapic_set_pinstate_def
      set_reg_def Let_def)

text \<open>
  Writing the two halves of a redirection entry and reading them back gives the values
  written, except for the two read-only bits (delivery status and remote IRR) of the low half.
\<close>

theorem redtbl_write_read:
  assumes "pin < 24"
    and "v1 = vioapic_write vcpu (word_of_nat (16 + 2 * pin)) lo v"
    and "v2 = vioapic_write vcpu (word_of_nat (16 + 2 * pin + 1)) hi v1"
  shows "vioapic_read (word_of_nat (16 + 2 * pin + 1)) v2 = hi
    \<and> (\<forall>n < 32. n \<noteq> 12 \<and> n \<noteq> 14 \<longrightarrow> bit (vioapic_read (word_of_nat (16 + 2 * pin)) v2) n = bit lo n)"
proof -
  have v1: "v1 = rtbl_write vcpu pin 0 lo v" and v2: "v2 = rtbl_write vcpu pin 32 hi v1"
    using assms write_redtbl[of pin 0] write_redtbl[of pin 1] by simp_all
  have "vioapic_read (word_of_nat (16 + 2 * pin + 1)) v2 = ucast (drop_bit 32 (reg (rtbl v2 pin)))"
    using read_redtbl[of pin 1 v2] assms(1) by simp
  also have "\<dots> = hi"
    using bit_rtbl_write[of _ 32 vcpu pin hi v1]
    by (intro bit_word_eqI) (simp add: bit_ucast_iff bit_drop_bit_eq v2)
  finally have h: "vioapic_read (word_of_nat (16 + 2 * pin + 1)) v2 = hi" .
  have "bit (vioapic_read (word_of_nat (16 + 2 * pin)) v2) n = bit lo n" if "n < 32" "n \<noteq> 12" "n \<noteq> 14" for n
    using that read_redtbl[of pin 0 v2] assms(1) bit_rtbl_write[of n 32 vcpu pin hi v1]
      bit_rtbl_write[of n 0 vcpu pin lo v] by (simp add: bit_ucast_iff v1 v2)
  with h show ?thesis by blast
qed

theorem redtbl_write_read_witness:
  "vioapic_read (word_of_nat (16 + 2 * 9 + 1))
     (vioapic_write 0 (word_of_nat (16 + 2 * 9 + 1)) 0x03000000 (vioapic_write 0 (word_of_nat (16 + 2 * 9)) 0xb1 vioapic_init))
   = 0x03000000"
  using redtbl_write_read[where pin = 9 and vcpu = 0 and lo = "0xb1" and v = vioapic_init and hi = "0x03000000",
      OF _ refl refl] by simp


end
