(* ===== verification/Callout.thy ===== *)
theory Callout
  imports Prelude
begin

text \<open>
  Time arithmetic and timers: \<^verbatim>\<open>src/src/include/xhyve/vmm/vmm_callout.h\<close> and
  \<^verbatim>\<open>src/src/lib/vmm/vmm_callout.c\<close>. The host's tick counter \<^verbatim>\<open>mach_absolute_time\<close> and the time base
  \<^verbatim>\<open>timebase_info\<close> are arguments. Callouts are numbered; the doubly linked queue is the list of the
  numbers in it. The callout thread is the operation \<open>callout_fire\<close>, one turn of its loop for a callout
  that has expired; its handler is a sequence of further operations.
\<close>

section \<open>Binary time\<close>

record bintime =
  bt_sec :: u64
  bt_frac :: u64

type_synonym sbintime = int

definition SBT_1S :: sbintime where "SBT_1S = 2 ^ 32"

definition FREQ2BT :: "u64 \<Rightarrow> bintime" where
  "FREQ2BT freq = \<lparr>bt_sec = 0, bt_frac = push_bit 1 (0x8000000000000000 div freq)\<rparr>"

definition BT2FREQ :: "bintime \<Rightarrow> u64" where
  "BT2FREQ bt = (0x8000000000000000 + drop_bit 2 (bt_frac bt)) div drop_bit 1 (bt_frac bt)"

definition bttosbt :: "bintime \<Rightarrow> sbintime" where
  "bttosbt bt = sint (push_bit 32 (bt_sec bt) + drop_bit 32 (bt_frac bt))"

definition bintime_mul :: "bintime \<Rightarrow> u32 \<Rightarrow> bintime" where
  "bintime_mul bt x =
     (let p1 = (bt_frac bt AND 0xffffffff) * ucast x;
          p2 = drop_bit 32 (bt_frac bt) * ucast x + drop_bit 32 p1
      in \<lparr>bt_sec = bt_sec bt * ucast x + drop_bit 32 p2, bt_frac = push_bit 32 p2 OR (p1 AND 0xffffffff)\<rparr>)"

definition bintime_add :: "bintime \<Rightarrow> bintime \<Rightarrow> bintime" where
  "bintime_add bt bt2 =
     (let u = bt_frac bt;
          f = bt_frac bt + bt_frac bt2;
          s = (if f < u then bt_sec bt + 1 else bt_sec bt)
      in \<lparr>bt_sec = s + bt_sec bt2, bt_frac = f\<rparr>)"

definition bintime_sub :: "bintime \<Rightarrow> bintime \<Rightarrow> bintime" where
  "bintime_sub bt bt2 =
     (let u = bt_frac bt;
          f = bt_frac bt - bt_frac bt2;
          s = (if u < f then bt_sec bt - 1 else bt_sec bt)
      in \<lparr>bt_sec = s - bt_sec bt2, bt_frac = f\<rparr>)"

text \<open>\<^verbatim>\<open>bintime_cmp(a, b, <)\<close>; the other comparison operators are built the same way.\<close>

definition bintime_less :: "bintime \<Rightarrow> bintime \<Rightarrow> bool" where
  "bintime_less a b = (if bt_sec a = bt_sec b then bt_frac a < bt_frac b else bt_sec a < bt_sec b)"

section \<open>Host clock\<close>

record timebase =
  numer :: u64
  denom :: u64

definition nanos_to_abs :: "timebase \<Rightarrow> u64 \<Rightarrow> u64" where
  "nanos_to_abs tb nanos = (nanos * denom tb) div numer tb"

definition abs_to_nanos :: "timebase \<Rightarrow> u64 \<Rightarrow> u64" where
  "abs_to_nanos tb ab = (ab * numer tb) div denom tb"

definition sbt2mat :: "timebase \<Rightarrow> sbintime \<Rightarrow> u64" where
  "sbt2mat tb sbt =
     (let w = word_of_int sbt :: u64;
          s = drop_bit 32 w;
          ns = drop_bit 32 (1000000000 * ucast (ucast w :: u32)) :: u64
      in nanos_to_abs tb (s * 1000000000 + ns))"

definition mat_to_ts :: "timebase \<Rightarrow> u64 \<Rightarrow> u64 \<times> u64" where
  "mat_to_ts tb mat = (let ns = abs_to_nanos tb mat in (ns div 1000000000, ns mod 1000000000))"

definition binuptime :: "timebase \<Rightarrow> u64 \<Rightarrow> bintime" where
  "binuptime tb mat =
     (let ns = abs_to_nanos tb mat
      in \<lparr>bt_sec = ns div 1000000000, bt_frac = (ns mod 1000000000) * (push_bit 63 1 div 500000000)\<rparr>)"

definition sbinuptime :: "timebase \<Rightarrow> u64 \<Rightarrow> sbintime" where
  "sbinuptime tb mat = bttosbt (binuptime tb mat)"

text \<open>Seconds and microseconds; the latter are converted to a 32-bit signed integer.\<close>

definition getmicrotime :: "timebase \<Rightarrow> u64 \<Rightarrow> int \<times> int" where
  "getmicrotime tb mat =
     (let ns = abs_to_nanos tb mat; sns = ns div 1000000000
      in (sint sns, sint (ucast ((ns - sns) div 1000) :: u32)))"

section \<open>Callouts\<close>

definition C_ABSOLUTE :: int where "C_ABSOLUTE = 0x0200"
definition CALLOUT_ACTIVE :: u32 where "CALLOUT_ACTIVE = 0x0002"
definition CALLOUT_PENDING :: u32 where "CALLOUT_PENDING = 0x0004"
definition CALLOUT_COMPLETED :: u32 where "CALLOUT_COMPLETED = 0x0020"
definition CALLOUT_WAITING :: u32 where "CALLOUT_WAITING = 0x0040"

lemmas callout_flags =
  CALLOUT_ACTIVE_def CALLOUT_PENDING_def CALLOUT_COMPLETED_def CALLOUT_WAITING_def

record callout =
  timeout :: u64
  cflags :: u32
  queued :: bool

text \<open>\<open>sleeping\<close> holds the callouts on whose condition \<^verbatim>\<open>c->wait\<close> a draining thread sleeps.\<close>

record callouts =
  ctab :: "nat \<Rightarrow> callout"
  callout_queue :: "nat list"
  work :: bool
  sleeping :: "nat list"

definition upd_callout :: "nat \<Rightarrow> (callout \<Rightarrow> callout) \<Rightarrow> callouts \<Rightarrow> callouts" where
  "upd_callout c f s = s\<lparr>ctab := (ctab s)(c := f (ctab s c))\<rparr>"

definition callout_active :: "callout \<Rightarrow> bool" where
  "callout_active co \<longleftrightarrow> cflags co AND CALLOUT_ACTIVE \<noteq> 0"

definition callout_pending :: "callout \<Rightarrow> bool" where
  "callout_pending co \<longleftrightarrow> cflags co AND CALLOUT_PENDING \<noteq> 0"

definition callout_completed :: "callout \<Rightarrow> bool" where
  "callout_completed co \<longleftrightarrow> cflags co AND CALLOUT_COMPLETED \<noteq> 0"

definition callout_deactivate :: "nat \<Rightarrow> callouts \<Rightarrow> callouts" where
  "callout_deactivate c = upd_callout c (\<lambda>co. co\<lparr>cflags := cflags co AND NOT CALLOUT_ACTIVE\<rparr>)"

definition callout_cmp :: "callout \<Rightarrow> callout \<Rightarrow> bool" where
  "callout_cmp a b \<longleftrightarrow> timeout a < timeout b"

definition callout_init :: "nat \<Rightarrow> callouts \<Rightarrow> callouts" where
  "callout_init c = upd_callout c (\<lambda>_. \<lparr>timeout = 0, cflags = 0, queued = False\<rparr>)"

text \<open>The search of \<^verbatim>\<open>callout_insert\<close> for the first node with a later timeout.\<close>

fun place :: "(nat \<Rightarrow> callout) \<Rightarrow> nat \<Rightarrow> nat list \<Rightarrow> nat list" where
  "place tab c [] = [c]"
| "place tab c (node # nodes) =
     (if callout_cmp (tab c) (tab node) then c # node # nodes else node # place tab c nodes)"

definition callout_insert :: "nat \<Rightarrow> callouts \<Rightarrow> callouts" where
  "callout_insert c s =
     upd_callout c (\<lambda>co. co\<lparr>queued := True\<rparr>) (s\<lparr>callout_queue := place (ctab s) c (callout_queue s)\<rparr>)"

definition callout_remove :: "nat \<Rightarrow> callouts \<Rightarrow> callouts" where
  "callout_remove c s =
     (if \<not> queued (ctab s c) then s
      else upd_callout c (\<lambda>co. co\<lparr>queued := False\<rparr>) (s\<lparr>callout_queue := remove1 c (callout_queue s)\<rparr>))"

text \<open>The part of \<^verbatim>\<open>callout_stop_safe_locked\<close> after the wait, which is all of it when not draining.\<close>

definition stop_tail :: "nat \<Rightarrow> callouts \<Rightarrow> callouts" where
  "stop_tail c s =
     upd_callout c (\<lambda>co. co\<lparr>cflags := cflags co AND
         NOT (CALLOUT_ACTIVE OR CALLOUT_PENDING OR CALLOUT_COMPLETED OR CALLOUT_WAITING)\<rparr>)
       (callout_remove c s)"

text \<open>The wait of a draining thread other than the callout thread. It gives the state in which the
  thread goes to sleep on \<^verbatim>\<open>c->wait\<close>, or \<open>None\<close> where the code aborts.\<close>

definition must_wait :: "nat \<Rightarrow> callouts \<Rightarrow> bool" where
  "must_wait c s \<longleftrightarrow> callout_pending (ctab s c) \<or> callout_active (ctab s c) \<and> \<not> callout_completed (ctab s c)"

definition drain_wait :: "nat \<Rightarrow> callouts \<Rightarrow> callouts option" where
  "drain_wait c s =
     (if cflags (ctab s c) AND CALLOUT_WAITING \<noteq> 0 then None
      else
        let s1 = (upd_callout c (\<lambda>co. co\<lparr>cflags := cflags co OR CALLOUT_WAITING\<rparr>) s)\<lparr>work := True\<rparr>
        in Some (if callout_completed (ctab s1 c) then s1 else s1\<lparr>sleeping := c # sleeping s1\<rparr>))"

definition callout_stop_safe_locked :: "nat \<Rightarrow> bool \<Rightarrow> callouts \<Rightarrow> callouts option" where
  "callout_stop_safe_locked c drain s =
     (if drain \<and> must_wait c s
      then (case drain_wait c s of
              None \<Rightarrow> None
            | Some s1 \<Rightarrow> Some (if c \<in> set (sleeping s1) then s1 else stop_tail c s1))
      else Some (stop_tail c s))"

definition callout_reset_sbt :: "timebase \<Rightarrow> u64 \<Rightarrow> nat \<Rightarrow> sbintime \<Rightarrow> int \<Rightarrow> callouts \<Rightarrow> callouts" where
  "callout_reset_sbt tb mat c sbt flags s =
     (let s1 = upd_callout c (\<lambda>co. co\<lparr>timeout := sbt2mat tb sbt + (if flags \<noteq> C_ABSOLUTE then mat else 0)\<rparr>) s;
          s2 = stop_tail c s1;
          s3 = upd_callout c (\<lambda>co. co\<lparr>cflags := cflags co OR (CALLOUT_PENDING OR CALLOUT_ACTIVE)\<rparr>) s2;
          s4 = callout_insert c s3
      in if callout_queue s4 \<noteq> [] \<and> hd (callout_queue s4) = c then s4\<lparr>work := True\<rparr> else s4)"

text \<open>
  What clients and handlers do with callouts. Firing gives the tick at which the callout thread finds
  the first callout of the queue expired and what its handler does; \<open>None\<close> is \<^verbatim>\<open>abort()\<close>.
\<close>

datatype callout_op =
  Init nat
| Reset timebase u64 nat sbintime int
| Stop nat
| Deactivate nat

fun callout_do :: "callout_op \<Rightarrow> callouts \<Rightarrow> callouts" where
  "callout_do (Init c) s = (if queued (ctab s c) then s else callout_init c s)"
| "callout_do (Reset tb mat c sbt flags) s = callout_reset_sbt tb mat c sbt flags s"
| "callout_do (Stop c) s = stop_tail c s"
| "callout_do (Deactivate c) s = callout_deactivate c s"

definition callout_finish :: "nat \<Rightarrow> callouts \<Rightarrow> callouts" where
  "callout_finish c s =
     (if queued (ctab s c)
          \<and> (cflags (ctab s c) AND CALLOUT_PENDING = 0 \<or> cflags (ctab s c) AND CALLOUT_WAITING \<noteq> 0)
      then callout_remove c (upd_callout c (\<lambda>co. co\<lparr>cflags := cflags co OR CALLOUT_COMPLETED\<rparr>) s)
      else s)"

definition callout_fire :: "u64 \<Rightarrow> callout_op list \<Rightarrow> callouts \<Rightarrow> callouts option" where
  "callout_fire mat handler s =
     (case callout_queue s of
        [] \<Rightarrow> Some s
      | c # _ \<Rightarrow>
          if cflags (ctab s c) AND (CALLOUT_ACTIVE OR CALLOUT_PENDING) = 0 then None
          else if timeout (ctab s c) \<le> mat
          then
            let s1 = upd_callout c (\<lambda>co. co\<lparr>cflags := cflags co AND NOT CALLOUT_PENDING\<rparr>) (s\<lparr>work := False\<rparr>)
            in Some (callout_finish c (fold callout_do handler s1))
          else Some (s\<lparr>work := False\<rparr>))"

definition callout_system_init :: callouts where
  "callout_system_init = \<lparr>ctab = (\<lambda>_. \<lparr>timeout = 0, cflags = 0, queued = False\<rparr>), callout_queue = [], work = False, sleeping = []\<rparr>"

section \<open>Invariant of the queue\<close>

definition keys :: "callouts \<Rightarrow> u64 list" where
  "keys s = map (\<lambda>c. timeout (ctab s c)) (callout_queue s)"

text \<open>The queue is sorted by timeout, the \<open>queued\<close> flag tells who is in it, and everything in it is
  pending, except perhaps the callouts in \<open>X\<close>.\<close>

definition queue_ok :: "nat set \<Rightarrow> callouts \<Rightarrow> bool" where
  "queue_ok X s \<longleftrightarrow> distinct (callout_queue s) \<and> (\<forall>c. queued (ctab s c) \<longleftrightarrow> c \<in> set (callout_queue s))
     \<and> sorted (keys s) \<and> (\<forall>c \<in> set (callout_queue s) - X. callout_pending (ctab s c))"

lemma set_place [simp]: "set (place tab c q) = insert c (set q)"
  by (induction q) auto

lemma distinct_place: "\<lbrakk>distinct q; c \<notin> set q\<rbrakk> \<Longrightarrow> distinct (place tab c q)"
  by (induction q) auto

lemma sorted_place:
  "sorted (map (\<lambda>n. timeout (tab n)) q) \<Longrightarrow> sorted (map (\<lambda>n. timeout (tab n)) (place tab c q))"
  by (induction q) (auto simp: callout_cmp_def)

lemma map_timeout_upd [simp]:
  "(c \<in> set q \<Longrightarrow> timeout x = timeout (tab c)) \<Longrightarrow>
   map (\<lambda>n. timeout (if n = c then x else tab n)) q = map (\<lambda>n. timeout (tab n)) q"
  by (auto simp: map_eq_conv)

lemma sorted_timeout_upd [intro]:
  "\<lbrakk>sorted (map (\<lambda>n. timeout (tab n)) q); c \<notin> set q\<rbrakk> \<Longrightarrow>
   sorted (map (\<lambda>n. timeout (if n = c then x else tab n)) q)"
  by (subst map_timeout_upd) auto

lemma pending_bit: "w AND CALLOUT_PENDING \<noteq> 0 \<longleftrightarrow> bit w 2"
  using and_shift_eq_bit [of 2 w] by (simp add: CALLOUT_PENDING_def)

lemma ok_flags [inv_intros]:
  assumes "queue_ok X s" "c \<in> X \<or> c \<notin> set (callout_queue s)
    \<or> (\<forall>w. w AND CALLOUT_PENDING \<noteq> 0 \<longrightarrow> f w AND CALLOUT_PENDING \<noteq> 0)"
  shows "queue_ok X (upd_callout c (\<lambda>co. co\<lparr>cflags := f (cflags co)\<rparr>) s)"
proof -
  have "keys (upd_callout c (\<lambda>co. co\<lparr>cflags := f (cflags co)\<rparr>) s) = keys s"
    by (simp add: keys_def upd_callout_def)
  with assms show ?thesis by (auto simp: queue_ok_def upd_callout_def callout_pending_def)
qed

lemma ok_remove:
  assumes ok: "queue_ok X s" and f: "\<And>co. queued (f co) = queued co"
  shows "queue_ok X (callout_remove c (upd_callout c f s))" "\<not> queued (ctab (callout_remove c (upd_callout c f s)) c)"
    "c \<notin> set (callout_queue (callout_remove c (upd_callout c f s)))"
proof -
  define r where "r = remove1 c (callout_queue s)"
  have c: "c \<notin> set r" using ok by (simp add: r_def queue_ok_def)
  have srt: "sorted (map (\<lambda>n. timeout (ctab s n)) r)"
    using ok by (auto simp: queue_ok_def keys_def r_def intro: sorted_map_remove1)
  show "queue_ok X (callout_remove c (upd_callout c f s))"
  proof (cases "queued (ctab s c)")
    case True
    then show ?thesis
      using ok c srt
      by (auto simp: queue_ok_def callout_remove_def upd_callout_def f keys_def r_def callout_pending_def)
  next
    case False
    then have "c \<notin> set (callout_queue s)" using ok by (simp add: queue_ok_def)
    with False show ?thesis
      using ok
      by (auto simp: queue_ok_def callout_remove_def upd_callout_def f keys_def callout_pending_def)
  qed
  show "\<not> queued (ctab (callout_remove c (upd_callout c f s)) c)"
    by (simp add: callout_remove_def upd_callout_def)
  show "c \<notin> set (callout_queue (callout_remove c (upd_callout c f s)))"
    using ok by (auto simp: callout_remove_def upd_callout_def f queue_ok_def)
qed

lemma upd_callout_id: "upd_callout c (\<lambda>co. co) s = s"
  by (simp add: upd_callout_def)

lemmas ok_remove_id = ok_remove [where f = "\<lambda>co. co", unfolded upd_callout_id, OF _ refl]

lemma ok_stop:
  assumes "queue_ok X s" "\<And>co. queued (f co) = queued co"
  shows "queue_ok X (stop_tail c (upd_callout c f s))" "\<not> queued (ctab (stop_tail c (upd_callout c f s)) c)"
    "c \<notin> set (callout_queue (stop_tail c (upd_callout c f s)))"
proof -
  note r = ok_remove [OF assms, of c]
  show "queue_ok X (stop_tail c (upd_callout c f s))" using r unfolding stop_tail_def by (intro ok_flags) auto
  then show "\<not> queued (ctab (stop_tail c (upd_callout c f s)) c)"
    "c \<notin> set (callout_queue (stop_tail c (upd_callout c f s)))"
    using r(3) by (auto simp: stop_tail_def queue_ok_def) (simp_all add: upd_callout_def)
qed

lemmas ok_stop_id = ok_stop [where f = "\<lambda>co. co", unfolded upd_callout_id, OF _ refl]

lemma ok_insert:
  assumes ok: "queue_ok X s" and c: "c \<notin> set (callout_queue s)" "callout_pending (ctab s c)"
  shows "queue_ok X (callout_insert c s)"
proof -
  define q where "q = place (ctab s) c (callout_queue s)"
  have "sorted (keys (callout_insert c s))"
    using sorted_place [of "ctab s" "callout_queue s" c] ok
    by (simp add: keys_def callout_insert_def upd_callout_def q_def queue_ok_def)
  moreover have "distinct q" using distinct_place ok c by (simp add: q_def queue_ok_def)
  ultimately show ?thesis
    using ok c by (auto simp: queue_ok_def callout_insert_def upd_callout_def callout_pending_def q_def)
qed

lemma ok_work [simp]: "queue_ok X (s\<lparr>work := b\<rparr>) = queue_ok X s"
  by (simp add: queue_ok_def keys_def)

lemma ok_reset:
  assumes "queue_ok X s"
  shows "queue_ok X (callout_reset_sbt tb mat c sbt fl s)"
proof -
  define s2 where "s2 = stop_tail c (upd_callout c (\<lambda>co. co\<lparr>timeout := sbt2mat tb sbt + (if fl \<noteq> C_ABSOLUTE then mat else 0)\<rparr>) s)"
  define s3 where "s3 = upd_callout c (\<lambda>co. co\<lparr>cflags := cflags co OR (CALLOUT_PENDING OR CALLOUT_ACTIVE)\<rparr>) s2"
  have s2: "queue_ok X s2" "c \<notin> set (callout_queue s2)" using ok_stop assms by (simp_all add: s2_def)
  then have "queue_ok X s3" unfolding s3_def by (intro ok_flags) auto
  moreover have "c \<notin> set (callout_queue s3)" using s2 by (simp add: s3_def upd_callout_def)
  moreover have "callout_pending (ctab s3 c)"
    by (simp add: s3_def upd_callout_def callout_pending_def pending_bit bit_or_iff) (simp add: CALLOUT_PENDING_def)
  ultimately have "queue_ok X (callout_insert c s3)" by (rule ok_insert)
  then show ?thesis by (simp add: callout_reset_sbt_def Let_def s2_def [symmetric] s3_def [symmetric])
qed

lemma ok_init: "queue_ok X s \<Longrightarrow> \<not> queued (ctab s c) \<Longrightarrow> queue_ok X (callout_init c s)"
  by (auto simp: queue_ok_def callout_init_def upd_callout_def keys_def)

lemma ok_deactivate: "queue_ok X s \<Longrightarrow> queue_ok X (callout_deactivate c s)"
proof -
  have "bit (NOT CALLOUT_ACTIVE) 2" by (simp add: CALLOUT_ACTIVE_def bit_not_iff)
  then have "w AND CALLOUT_PENDING \<noteq> 0 \<longrightarrow> (w AND NOT CALLOUT_ACTIVE) AND CALLOUT_PENDING \<noteq> 0" for w
    by (simp add: pending_bit bit_and_iff)
  then show "queue_ok X s \<Longrightarrow> queue_ok X (callout_deactivate c s)"
    unfolding callout_deactivate_def by (intro ok_flags) auto
qed

lemma ok_do: "queue_ok X s \<Longrightarrow> queue_ok X (callout_do op s)"
  by (cases op) (simp_all add: ok_init ok_reset ok_stop_id ok_deactivate)

lemma ok_handler: "queue_ok X s \<Longrightarrow> queue_ok X (fold callout_do ops s)"
  by (induction ops arbitrary: s) (simp_all add: ok_do)

lemma ok_finish:
  assumes "queue_ok {c} s"
  shows "queue_ok {} (callout_finish c s)"
proof (cases "queued (ctab s c) \<and> (cflags (ctab s c) AND CALLOUT_PENDING = 0 \<or> cflags (ctab s c) AND CALLOUT_WAITING \<noteq> 0)")
  case True
  define s1 where "s1 = callout_remove c (upd_callout c (\<lambda>co. co\<lparr>cflags := cflags co OR CALLOUT_COMPLETED\<rparr>) s)"
  have "queue_ok {c} s1" "c \<notin> set (callout_queue s1)" using ok_remove [OF assms] by (simp_all add: s1_def)
  then have "queue_ok {} s1" by (auto simp: queue_ok_def)
  with True show ?thesis by (simp add: callout_finish_def s1_def)
next
  case False
  then have "c \<in> set (callout_queue s) \<longrightarrow> callout_pending (ctab s c)"
    using assms by (auto simp: queue_ok_def callout_pending_def)
  with False assms show ?thesis by (auto simp: callout_finish_def queue_ok_def)
qed

lemma fire_not_abort: "queue_ok {} s \<Longrightarrow> callout_fire mat h s \<noteq> None"
proof (cases "callout_queue s")
  case (Cons c q)
  assume "queue_ok {} s"
  with Cons have "bit (cflags (ctab s c)) 2" by (simp add: queue_ok_def callout_pending_def pending_bit)
  then have "bit (cflags (ctab s c) AND (CALLOUT_ACTIVE OR CALLOUT_PENDING)) 2"
    by (simp add: bit_and_iff bit_or_iff CALLOUT_PENDING_def)
  then have "cflags (ctab s c) AND (CALLOUT_ACTIVE OR CALLOUT_PENDING) \<noteq> 0" by (metis bit_0_eq bot_apply bot_bool_def)
  with Cons show ?thesis by (simp add: callout_fire_def Let_def)
qed (simp add: callout_fire_def)

lemma ok_fire:
  assumes "queue_ok {} s" "callout_fire mat h s = Some s'"
  shows "queue_ok {} s'"
proof (cases "callout_queue s")
  case (Cons c q)
  have "queue_ok {c} s" using assms(1) by (auto simp: queue_ok_def)
  then have "queue_ok {c} (upd_callout c (\<lambda>co. co\<lparr>cflags := cflags co AND NOT CALLOUT_PENDING\<rparr>) (s\<lparr>work := False\<rparr>))"
    by (intro ok_flags) auto
  from ok_finish [OF ok_handler [OF this]] show ?thesis
    using assms Cons by (auto simp: callout_fire_def Let_def split: if_splits)
qed (use assms in \<open>simp add: callout_fire_def\<close>)

lemma ok_sleep [simp]: "queue_ok X (s\<lparr>sleeping := cs\<rparr>) = queue_ok X s"
  by (simp add: queue_ok_def keys_def)

lemma ok_drain:
  assumes "queue_ok {} s" "callout_stop_safe_locked c drain s = Some s'"
  shows "queue_ok {} s'"
proof -
  have "w AND CALLOUT_PENDING \<noteq> 0 \<longrightarrow> (w OR CALLOUT_WAITING) AND CALLOUT_PENDING \<noteq> 0" for w
    by (simp add: pending_bit bit_or_iff)
  then have w: "queue_ok {} (upd_callout c (\<lambda>co. co\<lparr>cflags := cflags co OR CALLOUT_WAITING\<rparr>) s)"
    using assms(1) by (intro ok_flags) auto
  have "queue_ok {} s1" if "drain_wait c s = Some s1" for s1
    using that w by (auto simp: drain_wait_def Let_def split: if_splits)
  then show ?thesis
    using assms by (auto simp: callout_stop_safe_locked_def ok_stop_id split: if_splits option.splits)
qed

section \<open>The timer system\<close>

text \<open>The threads interleave at the granularity of the critical sections under \<^verbatim>\<open>callout_mtx\<close>.\<close>

inductive timer_step :: "callouts \<Rightarrow> callouts \<Rightarrow> bool" where
  client: "timer_step s (callout_do op s)"
| fire: "callout_fire mat h s = Some s' \<Longrightarrow> timer_step s s'"
| drain: "callout_stop_safe_locked c drain s = Some s' \<Longrightarrow> timer_step s s'"

inductive_cases timer_stepE: "timer_step s s'"

lemma timer_step_ok: "\<lbrakk>timer_step s s'; queue_ok {} s\<rbrakk> \<Longrightarrow> queue_ok {} s'"
  by (erule timer_stepE) (auto intro: ok_do ok_fire ok_drain)

lemma timer_run_ok: "\<lbrakk>timer_step\<^sup>*\<^sup>* s s'; queue_ok {} s\<rbrakk> \<Longrightarrow> queue_ok {} s'"
  by (induction rule: rtranclp_induct) (auto intro: timer_step_ok)

lemma system_init_ok: "queue_ok X callout_system_init"
  by (simp add: queue_ok_def callout_system_init_def keys_def)

lemma sleeping_upd [simp]: "sleeping (upd_callout c f s) = sleeping s"
  by (simp add: upd_callout_def)

lemma sleeping_stop [simp]: "sleeping (stop_tail c s) = sleeping s"
  by (simp add: stop_tail_def callout_remove_def)

lemma sleeping_do [simp]: "sleeping (callout_do op s) = sleeping s"
  by (cases op)
     (simp_all add: callout_init_def callout_reset_sbt_def Let_def callout_insert_def callout_deactivate_def)

lemma sleeping_handler [simp]: "sleeping (fold callout_do ops s) = sleeping s"
  by (induction ops arbitrary: s) simp_all

lemma sleeping_step: "\<lbrakk>timer_step s s'; c \<in> set (sleeping s)\<rbrakk> \<Longrightarrow> c \<in> set (sleeping s')"
  by (erule timer_stepE)
     (auto simp: callout_fire_def callout_finish_def callout_remove_def Let_def callout_stop_safe_locked_def drain_wait_def
       split: list.splits if_splits option.splits)

section \<open>Binary time is 128-bit arithmetic\<close>

definition bt_val :: "bintime \<Rightarrow> nat" where
  "bt_val bt = unat (bt_sec bt) * 2 ^ 64 + unat (bt_frac bt)"

lemma two_words: "f < n \<Longrightarrow> (s * n + f) mod (n * n) = (s mod n) * n + f" for s n f :: nat
  by (simp add: mod_mult2_eq)

lemma exp_128: "(2 :: nat) ^ 128 = 2 ^ 64 * 2 ^ 64"
  by (simp flip: power_add)

lemma add_two_words:
  fixes fa fb sa sb n :: nat
  assumes "fa < n" "fb < n"
  shows "(sa * n + fa + (sb * n + fb)) mod (n * n) =
    ((sa + (if (fa + fb) mod n < fa then 1 else 0) + sb) mod n) * n + (fa + fb) mod n"
proof -
  have "sa * n + fa + (sb * n + fb) = (sa + (if (fa + fb) mod n < fa then 1 else 0) + sb) * n + (fa + fb) mod n"
  proof (cases "fa + fb < n")
    case False
    then have "(fa + fb) mod n = fa + fb - n" using assms by (simp add: mod_if)
    with False assms show ?thesis by (simp add: algebra_simps)
  qed (simp add: algebra_simps)
  then show ?thesis using two_words [of "(fa + fb) mod n" n] assms by simp
qed

text \<open>A subtrahend \<open>sb * n + fb\<close> has the complement \<open>t * n + g\<close> where \<open>sb + 1 + t = n\<close> and \<open>fb + g = n\<close>.\<close>

lemma sub_two_words:
  fixes fa g sa t n :: nat
  assumes "fa < n" "0 < g" "g \<le> n"
  shows "(sa * n + fa + (t * n + g)) mod (n * n) =
    ((sa + (if fa < (fa + g) mod n then n - 1 else 0) + Suc t) mod n) * n + (fa + g) mod n"
proof (cases "fa + g < n")
  case True
  have e: "sa * n + fa + (t * n + g) = (sa + t) * n + (fa + g)" by (simp add: algebra_simps)
  have "sa + (n - 1) + Suc t = sa + t + n" using assms by simp
  then have m: "(sa + (n - 1) + Suc t) mod n = (sa + t) mod n" by (simp only: mod_add_self2)
  have "fa < (fa + g) mod n" "(fa + g) mod n = fa + g" using True assms(2) by simp_all
  then show ?thesis using two_words [OF True, of "sa + t"] by (simp only: e m if_True)
next
  case False
  then have m: "(fa + g) mod n = fa + g - n" "\<not> fa < fa + g - n" "fa + g - n < n" using assms by (auto simp: mod_if)
  have e: "sa * n + fa + (t * n + g) = (sa + Suc t) * n + (fa + g - n)" using False by (simp add: algebra_simps)
  show ?thesis using two_words [OF m(3), of "sa + Suc t"] by (simp only: e m(1,2) if_False add_0_right)
qed

lemma unat_bound_64: "unat (w :: u64) < 2 ^ 64" and unat_bound_32: "unat (v :: u32) < 2 ^ 32"
  using unat_bound [of w] unat_bound [of v] by simp_all

lemma bt_val_add: "bt_val (bintime_add a b) = (bt_val a + bt_val b) mod 2 ^ 128"
proof -
  have f: "unat (bt_frac a + bt_frac b) = (unat (bt_frac a) + unat (bt_frac b)) mod 2 ^ 64"
    by (simp add: unat_word_ariths)
  have s: "unat ((if bt_frac a + bt_frac b < bt_frac a then bt_sec a + 1 else bt_sec a) + bt_sec b) =
    (unat (bt_sec a) + (if (unat (bt_frac a) + unat (bt_frac b)) mod 2 ^ 64 < unat (bt_frac a) then 1 else 0) + unat (bt_sec b)) mod 2 ^ 64"
    unfolding word_less_nat_alt f by (simp add: unat_word_ariths mod_simps)
  show ?thesis
    unfolding bt_val_def exp_128 bintime_add_def Let_def bintime.select_convs s f
    using add_two_words [of "unat (bt_frac a)" "2 ^ 64" "unat (bt_frac b)"] unat_bound [of "bt_frac a"] unat_bound [of "bt_frac b"]
    by simp
qed

lemma unat_diff:
  fixes v w :: u64
  shows "unat (v - w) = (unat v + (2 ^ 64 - unat w)) mod 2 ^ 64"
proof -
  have le: "unat w \<le> 2 ^ 64" using unat_bound [of w] by simp
  have z: "word_of_nat (2 ^ 64) = (0 :: u64)" by simp
  have "word_of_nat (unat v + (2 ^ 64 - unat w)) = v - w"
    by (simp only: of_nat_add of_nat_diff [OF le] z) simp
  then have "unat (v - w) = unat (word_of_nat (unat v + (2 ^ 64 - unat w)) :: u64)" by simp
  also have "\<dots> = (unat v + (2 ^ 64 - unat w)) mod 2 ^ 64" by (simp only: unat_of_nat) simp
  finally show ?thesis .
qed

lemma bt_val_sub: "bt_val (bintime_sub a b) = (bt_val a + (2 ^ 128 - bt_val b)) mod 2 ^ 128"
proof -
  let ?n = "2 ^ 64 :: nat"
  obtain g where g: "?n = unat (bt_frac b) + g" "0 < g"
    using unat_bound_64 [of "bt_frac b"] by (metis less_imp_add_positive)
  obtain t where t: "?n = unat (bt_sec b) + Suc t"
    using unat_bound_64 [of "bt_sec b"] by (metis less_iff_Suc_add add_Suc_right)
  have f: "unat (bt_frac a - bt_frac b) = (unat (bt_frac a) + g) mod ?n"
    unfolding unat_diff [of "bt_frac a" "bt_frac b"] by (subst g(1)) (simp only: add_diff_cancel_left')
  have sb: "?n - unat (bt_sec b) = Suc t" by (subst t) (simp only: add_diff_cancel_left')
  have "unat (bt_sec a - 1 - bt_sec b) = (unat (bt_sec a) + (?n - 1) + Suc t) mod ?n"
    unfolding unat_diff [of "bt_sec a - 1"] unat_diff [of "bt_sec a" 1] unat_1 sb by (rule mod_add_left_eq)
  moreover have "unat (bt_sec a - bt_sec b) = (unat (bt_sec a) + 0 + Suc t) mod ?n"
    unfolding unat_diff [of "bt_sec a"] sb add_0_right ..
  ultimately have s: "unat ((if bt_frac a < bt_frac a - bt_frac b then bt_sec a - 1 else bt_sec a) - bt_sec b) =
    (unat (bt_sec a) + (if unat (bt_frac a) < (unat (bt_frac a) + g) mod ?n then ?n - 1 else 0) + Suc t) mod ?n"
    unfolding word_less_nat_alt f by (auto split: if_split)
  have "?n * ?n - bt_val b = t * ?n + g"
  proof -
    have "?n * ?n = (unat (bt_sec b) + Suc t) * ?n" by (subst t) (rule refl)
    also have "\<dots> = unat (bt_sec b) * ?n + t * ?n + (unat (bt_frac b) + g)" unfolding g(1) [symmetric] by (simp add: algebra_simps)
    also have "\<dots> = bt_val b + (t * ?n + g)" unfolding bt_val_def by (simp only: ac_simps)
    finally show ?thesis by (simp only: add_diff_cancel_left')
  qed
  then have "(bt_val a + (2 ^ 128 - bt_val b)) mod 2 ^ 128 = (unat (bt_sec a) * ?n + unat (bt_frac a) + (t * ?n + g)) mod (?n * ?n)"
    unfolding exp_128 by (simp only: bt_val_def)
  also have "\<dots> = bt_val (bintime_sub a b)"
    unfolding bt_val_def bintime_sub_def Let_def bintime.select_convs s f
    by (rule sub_two_words) (use g unat_bound_64 [of "bt_frac a"] in auto)
  finally show ?thesis ..
qed

lemma mul_two_words:
  fixes f s x m n p1 p2 :: nat
  assumes "n = m * m" "0 < m" and p1: "p1 = (f mod m) * x" and p2: "p2 = (f div m) * x + p1 div m"
  shows "((s * n + f) * x) mod (n * n) = ((s * x + p2 div m) mod n) * n + ((p2 mod m) * m + p1 mod m)"
proof -
  have "f * x = (f div m * m + f mod m) * x" by (simp only: div_mult_mod_eq)
  also have "\<dots> = (f div m) * x * m + p1" unfolding p1 by (simp only: add_mult_distrib add_mult_distrib2 ac_simps)
  also have "\<dots> = p2 * m + p1 mod m"
    using div_mult_mod_eq [of p1 m] by (simp add: p2 algebra_simps)
  also have "\<dots> = (p2 div m) * n + ((p2 mod m) * m + p1 mod m)"
    using div_mult_mod_eq [of p2 m] unfolding assms(1) by (metis add.assoc add_mult_distrib mult.assoc)
  finally have "(s * n + f) * x = (s * x + p2 div m) * n + ((p2 mod m) * m + p1 mod m)" by (simp add: algebra_simps)
  moreover have "(p2 mod m) * m + p1 mod m < n"
  proof -
    have "(p2 mod m) * m + p1 mod m < (p2 mod m) * m + m" using assms(2) by simp
    also have "\<dots> = (p2 mod m + 1) * m" by simp
    also have "\<dots> \<le> m * m" using assms(2) by (intro mult_le_mono1) (simp add: Suc_leI)
    finally show ?thesis by (simp add: assms(1))
  qed
  ultimately show ?thesis using two_words by simp
qed

lemma low_word: "w AND 0xffffffff = take_bit 32 (w :: u64)"
  by (simp add: take_bit_eq_mask mask_eq_exp_minus_1)

lemma unat_low_word: "unat (w AND 0xffffffff :: u64) = unat w mod 2 ^ 32"
  unfolding low_word unsigned_take_bit_eq by (rule take_bit_eq_mod)

lemma unat_high_word: "unat (drop_bit 32 w :: u64) = unat w div 2 ^ 32"
  by (simp add: drop_bit_eq_div unat_div)

lemma unat_join_words:
  fixes p q :: u64
  shows "unat (push_bit 32 p OR (q AND 0xffffffff)) = (unat p mod 2 ^ 32) * 2 ^ 32 + unat q mod 2 ^ 32"
proof -
  have "push_bit 32 p AND take_bit 32 q = 0"
    by (rule bit_eqI) (auto simp: bit_and_iff bit_push_bit_iff bit_take_bit_iff)
  then have j: "push_bit 32 p OR (q AND 0xffffffff) = push_bit 32 p + (q AND 0xffffffff)"
    unfolding low_word by (rule disjunctive_add_eq_or [symmetric])
  have p: "unat (push_bit 32 p) = (unat p mod 2 ^ 32) * 2 ^ 32"
    using mod_mult_mult2 [of "unat p" "2 ^ 32" "2 ^ 32"] by (simp add: push_bit_eq_mult unat_word_ariths)
  have "(unat p mod 2 ^ 32) * 2 ^ 32 + unat q mod 2 ^ 32 < 2 ^ 64"
    using mod_less_divisor [of "2 ^ 32" "unat p"] mod_less_divisor [of "2 ^ 32" "unat q"] by simp
  then show ?thesis unfolding j by (simp only: unat_word_ariths p unat_low_word) simp
qed

lemma mul_halves:
  fixes f x :: nat
  assumes "f < 2 ^ 64" "x < 2 ^ 32"
  shows "(f mod 2 ^ 32) * x < 2 ^ 64" "(f div 2 ^ 32) * x + (f mod 2 ^ 32) * x div 2 ^ 32 < 2 ^ 64"
proof -
  have h: "f div 2 ^ 32 \<le> 2 ^ 32 - 1" using assms(1) by (simp add: less_mult_imp_div_less)
  have x: "x \<le> 2 ^ 32 - 1" using assms(2) by simp
  have l: "f mod 2 ^ 32 \<le> 2 ^ 32 - 1" by simp
  have 1: "(f mod 2 ^ 32) * x \<le> (2 ^ 32 - 1) * (2 ^ 32 - 1)" by (rule mult_le_mono [OF l x])
  then show "(f mod 2 ^ 32) * x < 2 ^ 64" by simp
  have "(f mod 2 ^ 32) * x div 2 ^ 32 \<le> (2 ^ 32 - 1) * (2 ^ 32 - 1) div 2 ^ 32" by (rule div_le_mono [OF 1])
  moreover have "(f div 2 ^ 32) * x \<le> (2 ^ 32 - 1) * (2 ^ 32 - 1)" by (rule mult_le_mono [OF h x])
  ultimately show "(f div 2 ^ 32) * x + (f mod 2 ^ 32) * x div 2 ^ 32 < 2 ^ 64" by simp
qed

lemma bt_val_mul: "bt_val (bintime_mul bt x) = (bt_val bt * unat x) mod 2 ^ 128"
proof -
  define p1 where "p1 = (bt_frac bt AND 0xffffffff) * ucast x"
  define p2 where "p2 = drop_bit 32 (bt_frac bt) * ucast x + drop_bit 32 p1"
  have x: "unat (ucast x :: u64) = unat x" by (simp add: unsigned_ucast_eq take_bit_nat_eq_self less_trans [OF unat_bound])
  note b = mul_halves [OF unat_bound_64 [of "bt_frac bt"] unat_bound_32 [of x]]
  have p1: "unat p1 = (unat (bt_frac bt) mod 2 ^ 32) * unat x"
    using b(1) by (simp add: p1_def unat_word_ariths unat_low_word x)
  have p2: "unat p2 = (unat (bt_frac bt) div 2 ^ 32) * unat x + unat p1 div 2 ^ 32"
    using b(2) unfolding p1 [symmetric] by (simp add: p2_def unat_word_ariths unat_high_word x mod_simps)
  have "unat (bt_sec bt * ucast x + drop_bit 32 p2) = (unat (bt_sec bt) * unat x + unat p2 div 2 ^ 32) mod 2 ^ 64"
    by (simp add: unat_word_ariths unat_high_word x mod_simps)
  then show ?thesis
    unfolding bt_val_def exp_128 bintime_mul_def Let_def bintime.select_convs p1_def [symmetric] p2_def [symmetric] unat_join_words
    using mul_two_words [OF _ _ p1 p2, of "2 ^ 64" "unat (bt_sec bt)"] by simp
qed

lemma bintime_less_val: "bintime_less a b \<longleftrightarrow> bt_val a < bt_val b"
proof -
  have two: "f < n \<Longrightarrow> g < n \<Longrightarrow> s < t \<Longrightarrow> s * n + f < t * n + g" for f g s t n :: nat
  proof -
    assume "f < n" "s < t"
    then have "s * n + f < Suc s * n" by simp
    also have "\<dots> \<le> t * n" using \<open>s < t\<close> by (intro mult_le_mono1) simp
    finally show ?thesis by simp
  qed
  show ?thesis
  proof (cases "unat (bt_sec a)" "unat (bt_sec b)" rule: linorder_cases)
    case less
    then have "bt_val a < bt_val b" unfolding bt_val_def by (rule two [OF unat_bound_64 unat_bound_64])
    with less show ?thesis by (auto simp: bintime_less_def word_less_nat_alt)
  next
    case equal
    then have "bt_sec a = bt_sec b" by (simp only: word_unat_eq_iff)
    with equal show ?thesis by (simp add: bintime_less_def word_less_nat_alt bt_val_def)
  next
    case greater
    then have "bt_val b < bt_val a" unfolding bt_val_def by (rule two [OF unat_bound_64 unat_bound_64])
    with greater show ?thesis by (auto simp: bintime_less_def word_less_nat_alt)
  qed
qed

section \<open>Properties\<close>

text \<open>
  C36 (equivalence). The two-word binary time operations compute with the 128-bit value \<open>sec * 2^64 + frac\<close>:
  addition, subtraction and multiplication are those operations modulo \<open>2^128\<close>, carries and borrows
  between the words included, and the comparison is the order of the values.
\<close>

theorem bintime_arithmetic:
  "bt_val (bintime_add a b) = (bt_val a + bt_val b) mod 2 ^ 128
   \<and> bt_val (bintime_sub a b) = (bt_val a + (2 ^ 128 - bt_val b)) mod 2 ^ 128
   \<and> bt_val (bintime_mul a x) = (bt_val a * unat x) mod 2 ^ 128
   \<and> bintime_less a b = (bt_val a < bt_val b)"
  using bt_val_add bt_val_sub bt_val_mul bintime_less_val by blast


definition one_armed :: callouts where
  "one_armed = callout_do (Reset \<lparr>numer = 1, denom = 1\<rparr> 5 7 SBT_1S 0) callout_system_init"

lemma one_armed_queue: "callout_queue one_armed = [7]"
  by (simp add: one_armed_def callout_reset_sbt_def Let_def callout_insert_def upd_callout_def stop_tail_def
      callout_remove_def callout_system_init_def)

lemma one_armed_reached: "timer_step\<^sup>*\<^sup>* callout_system_init one_armed"
  unfolding one_armed_def by (intro r_into_rtranclp timer_step.client)


text \<open>
  A thread that drains a pending callout goes to sleep on the callout's condition and is
  never woken: no later action of any thread signals that condition, so \<^verbatim>\<open>callout_drain\<close> does not return.
\<close>

theorem drain_never_woken:
  assumes "callout_pending (ctab s c)" and "\<not> callout_completed (ctab s c)" and "cflags (ctab s c) AND CALLOUT_WAITING = 0"
  shows "\<exists>s1. callout_stop_safe_locked c True s = Some s1 \<and> (\<forall>s2. timer_step\<^sup>*\<^sup>* s1 s2 \<longrightarrow> c \<in> set (sleeping s2))"
proof -
  define s1 where "s1 = (upd_callout c (\<lambda>co. co\<lparr>cflags := cflags co OR CALLOUT_WAITING\<rparr>) s)\<lparr>work := True, sleeping := c # sleeping s\<rparr>"
  have "\<not> callout_completed ((ctab s c)\<lparr>cflags := cflags (ctab s c) OR CALLOUT_WAITING\<rparr>)"
    using assms(2) by (simp add: callout_completed_def callout_flags bit.conj_disj_distrib2)
  then have "callout_stop_safe_locked c True s = Some s1"
    using assms by (simp add: callout_stop_safe_locked_def must_wait_def drain_wait_def s1_def upd_callout_def Let_def)
  moreover have "c \<in> set (sleeping s2)" if "timer_step\<^sup>*\<^sup>* s1 s2" for s2
    using that by (induction rule: rtranclp_induct) (auto simp: s1_def intro: sleeping_step)
  ultimately show ?thesis by blast
qed

lemma one_armed_flags: "cflags (ctab one_armed 7) = 6"
  by (simp add: one_armed_def callout_reset_sbt_def Let_def callout_insert_def upd_callout_def stop_tail_def
      callout_remove_def callout_system_init_def callout_flags)

theorem drain_never_woken_witness:
  "\<exists>s1. callout_stop_safe_locked 7 True one_armed = Some s1 \<and> 7 \<in> set (sleeping s1)"
  using drain_never_woken [of one_armed 7]
  by (auto simp: callout_pending_def callout_completed_def one_armed_flags callout_flags)

text \<open>The microseconds of \<^verbatim>\<open>getmicrotime\<close> are not below one million: two seconds after boot they are 1999999.\<close>

lemma getmicrotime_not_normalised: "getmicrotime \<lparr>numer = 1, denom = 1\<rparr> 2000000000 = (2, 1999999)"
  by (simp add: getmicrotime_def abs_to_nanos_def Let_def)

end
