(* ===== verification/Vlapic.thy ===== *)
theory Vlapic
  imports Callout
begin

text \<open>
  One local APIC: \<^verbatim>\<open>src/src/lib/vmm/io/vlapic.c\<close> and \<^verbatim>\<open>vlapic_priv.h\<close>. The 256-bit registers ISR, TMR and IRR
  are arrays of eight words, the local vector table is an array indexed as \<^verbatim>\<open>lvt_last\<close> is. The hooks \<^verbatim>\<open>ops\<close> of
  hardware-assisted virtual APICs are null, as the rest of the program leaves them. What the APIC asks of
  others (waking its virtual CPU, injecting exceptions, passing an end of interrupt to the I/O APIC) is appended to
  \<open>evts\<close>. Operations that can reach \<^verbatim>\<open>xhyve_abort\<close> return \<open>None\<close> there. Operations on several APICs are in
  the theory of \<^verbatim>\<open>vmm_lapic.c\<close>.
\<close>

section \<open>Registers\<close>

definition VLAPIC_VERSION :: u32 where "VLAPIC_VERSION = 16"
definition VLAPIC_BUS_FREQ :: nat where "VLAPIC_BUS_FREQ = 128 * 1024 * 1024"
definition APICBASE_BSP :: u64 where "APICBASE_BSP = 0x100"
definition APICBASE_X2APIC :: u64 where "APICBASE_X2APIC = 0x400"
definition APICBASE_ENABLED :: u64 where "APICBASE_ENABLED = 0x800"
definition DEFAULT_APIC_BASE :: u64 where "DEFAULT_APIC_BASE = 0xfee00000"
definition APIC_LDR_RESERVED :: u32 where "APIC_LDR_RESERVED = 0x00ffffff"
definition APIC_DFR_RESERVED :: u32 where "APIC_DFR_RESERVED = 0x0fffffff"
definition APIC_DFR_MODEL_MASK :: u32 where "APIC_DFR_MODEL_MASK = 0xf0000000"
definition APIC_DFR_MODEL_FLAT :: u32 where "APIC_DFR_MODEL_FLAT = 0xf0000000"
definition APIC_DFR_MODEL_CLUSTER :: u32 where "APIC_DFR_MODEL_CLUSTER = 0x00000000"
definition APIC_SVR_VECTOR :: u32 where "APIC_SVR_VECTOR = 0xff"
definition APIC_SVR_ENABLE :: u32 where "APIC_SVR_ENABLE = 0x100"
definition APIC_ESR_SEND_ILLEGAL_VECTOR :: u32 where "APIC_ESR_SEND_ILLEGAL_VECTOR = 0x20"
definition APIC_ESR_RECEIVE_ILLEGAL_VECTOR :: u32 where "APIC_ESR_RECEIVE_ILLEGAL_VECTOR = 0x40"
definition APIC_LVT_VECTOR :: u32 where "APIC_LVT_VECTOR = 0xff"
definition APIC_LVT_DM :: u32 where "APIC_LVT_DM = 0x700"
definition APIC_LVT_DM_FIXED :: u32 where "APIC_LVT_DM_FIXED = 0"
definition APIC_LVT_DM_NMI :: u32 where "APIC_LVT_DM_NMI = 0x400"
definition APIC_LVT_DM_EXTINT :: u32 where "APIC_LVT_DM_EXTINT = 0x700"
definition APIC_LVT_DS :: u32 where "APIC_LVT_DS = 0x1000"
definition APIC_LVT_IIPP :: u32 where "APIC_LVT_IIPP = 0x2000"
definition APIC_LVT_RIRR :: u32 where "APIC_LVT_RIRR = 0x4000"
definition APIC_LVT_TM :: u32 where "APIC_LVT_TM = 0x8000"
definition APIC_LVT_M :: u32 where "APIC_LVT_M = 0x10000"
definition APIC_LVTT_TM :: u32 where "APIC_LVTT_TM = 0x20000"
definition APIC_LVTT_TM_PERIODIC :: u32 where "APIC_LVTT_TM_PERIODIC = 0x20000"
definition MAXLVTSHIFT :: nat where "MAXLVTSHIFT = 16"
definition APIC_LVT_LINT0 :: nat where "APIC_LVT_LINT0 = 0"
definition APIC_LVT_LINT1 :: nat where "APIC_LVT_LINT1 = 1"
definition APIC_LVT_TIMER :: nat where "APIC_LVT_TIMER = 2"
definition APIC_LVT_ERROR :: nat where "APIC_LVT_ERROR = 3"
definition APIC_LVT_PMC :: nat where "APIC_LVT_PMC = 4"
definition APIC_LVT_THERMAL :: nat where "APIC_LVT_THERMAL = 5"
definition APIC_LVT_CMCI :: nat where "APIC_LVT_CMCI = 6"
definition ISRVEC_STK_SIZE :: nat where "ISRVEC_STK_SIZE = 16 + 1"

lemmas lvt_idx =
  APIC_LVT_LINT0_def APIC_LVT_LINT1_def APIC_LVT_TIMER_def APIC_LVT_ERROR_def APIC_LVT_PMC_def APIC_LVT_THERMAL_def
  APIC_LVT_CMCI_def

lemmas lvt_bits =
  APIC_LVT_VECTOR_def APIC_LVT_DM_def APIC_LVT_DM_FIXED_def APIC_LVT_DM_NMI_def APIC_LVT_DM_EXTINT_def APIC_LVT_DS_def
  APIC_LVT_IIPP_def APIC_LVT_RIRR_def APIC_LVT_TM_def APIC_LVT_M_def APIC_LVTT_TM_def APIC_LVTT_TM_PERIODIC_def

datatype boot_state = BS_INIT | BS_SIPI | BS_RUNNING

datatype lapic_event = NotifyVcpu | InjectNmi | InjectExtint | InjectGp | EoiToIoapic nat

record LAPIC =
  lapic_id :: u32
  version :: u32
  tpr :: u32
  apr :: u32
  ppr :: u32
  eoi_reg :: u32
  ldr :: u32
  dfr :: u32
  svr :: u32
  isr :: "nat \<Rightarrow> u32"
  tmr :: "nat \<Rightarrow> u32"
  irr :: "nat \<Rightarrow> u32"
  esr :: u32
  lvt :: "nat \<Rightarrow> u32"
  icr_lo :: u32
  icr_hi :: u32
  icr_timer :: u32
  dcr_timer :: u32

record vlapic =
  vcpuid :: nat
  page :: LAPIC
  esr_pending :: u32
  esr_firing :: bool
  lapic_active :: bool
  lapic_pending :: bool
  timer_fire_bt :: bintime
  timer_freq_bt :: bintime
  timer_period_bt :: bintime
  timer_sbt :: sbintime
  isrvec_stk :: "nat \<Rightarrow> u8"
  isrvec_stk_top :: nat
  msr_apicbase :: u64
  boot_st :: boot_state
  svr_last :: u32
  lvt_last :: "nat \<Rightarrow> u32"
  evts :: "lapic_event list"

definition upd_page :: "(LAPIC \<Rightarrow> LAPIC) \<Rightarrow> vlapic \<Rightarrow> vlapic" where
  "upd_page f v = v\<lparr>page := f (page v)\<rparr>"

definition emit :: "lapic_event \<Rightarrow> vlapic \<Rightarrow> vlapic" where
  "emit e v = v\<lparr>evts := evts v @ [e]\<rparr>"

definition PRIO :: "nat \<Rightarrow> nat" where
  "PRIO x = x div 16"

definition x2apic :: "vlapic \<Rightarrow> bool" where
  "x2apic v \<longleftrightarrow> msr_apicbase v AND APICBASE_X2APIC \<noteq> 0"

definition vlapic_get_id :: "vlapic \<Rightarrow> u32" where
  "vlapic_get_id v = (if x2apic v then word_of_nat (vcpuid v) else push_bit 24 (word_of_nat (vcpuid v)))"

definition x2apic_ldr :: "vlapic \<Rightarrow> u32" where
  "x2apic_ldr v =
     (let apicid = vlapic_get_id v
      in push_bit (unat (apicid AND 0xf)) 1 OR push_bit 12 (apicid AND 0xffff0))"

section \<open>Identification and timer registers\<close>

definition vlapic_dfr_write_handler :: "vlapic \<Rightarrow> vlapic" where
  "vlapic_dfr_write_handler v =
     (if x2apic v then upd_page (\<lambda>p. p\<lparr>dfr := 0\<rparr>) v
      else upd_page (\<lambda>p. p\<lparr>dfr := (dfr p AND APIC_DFR_MODEL_MASK) OR APIC_DFR_RESERVED\<rparr>) v)"

definition vlapic_ldr_write_handler :: "vlapic \<Rightarrow> vlapic" where
  "vlapic_ldr_write_handler v =
     (if x2apic v then upd_page (\<lambda>p. p\<lparr>ldr := x2apic_ldr v\<rparr>) v
      else upd_page (\<lambda>p. p\<lparr>ldr := ldr p AND NOT APIC_LDR_RESERVED\<rparr>) v)"

definition vlapic_id_write_handler :: "vlapic \<Rightarrow> vlapic" where
  "vlapic_id_write_handler v = upd_page (\<lambda>p. p\<lparr>lapic_id := vlapic_get_id v\<rparr>) v"

text \<open>\<open>None\<close> is the abort of the default branch.\<close>

definition vlapic_timer_divisor :: "u32 \<Rightarrow> nat option" where
  "vlapic_timer_divisor dcr =
     (let d = dcr AND 0xB
      in if d = 0x0b then Some 1 else if d = 0x00 then Some 2 else if d = 0x01 then Some 4 else if d = 0x02 then Some 8
         else if d = 0x03 then Some 16 else if d = 0x08 then Some 32 else if d = 0x09 then Some 64
         else if d = 0x0a then Some 128 else None)"

definition vlapic_get_ccr :: "bintime \<Rightarrow> vlapic \<Rightarrow> u32" where
  "vlapic_get_ccr bt_now v =
     (if lapic_active v \<and> bintime_less bt_now (timer_fire_bt v)
      then
        let bt_rem = bintime_sub (timer_fire_bt v) bt_now;
            ccr = ucast (bt_sec bt_rem * BT2FREQ (timer_freq_bt v)) :: u32
        in ccr + ucast (bt_frac bt_rem div bt_frac (timer_freq_bt v))
      else 0)"

definition vlapic_dcr_write_handler :: "vlapic \<Rightarrow> vlapic option" where
  "vlapic_dcr_write_handler v =
     (case vlapic_timer_divisor (dcr_timer (page v)) of
        None \<Rightarrow> None
      | Some divisor \<Rightarrow>
          let f = FREQ2BT (word_of_nat (VLAPIC_BUS_FREQ div divisor))
          in Some (v\<lparr>timer_freq_bt := f, timer_period_bt := bintime_mul f (icr_timer (page v))\<rparr>))"

definition vlapic_esr_write_handler :: "vlapic \<Rightarrow> vlapic" where
  "vlapic_esr_write_handler v = (upd_page (\<lambda>p. p\<lparr>esr := esr_pending v\<rparr>) v)\<lparr>esr_pending := 0\<rparr>"

section \<open>Vector registers\<close>

definition vec_bit :: "(nat \<Rightarrow> u32) \<Rightarrow> nat \<Rightarrow> bool" where
  "vec_bit r vector = bit (r (vector div 32)) (vector mod 32)"

definition vec_set :: "nat \<Rightarrow> (nat \<Rightarrow> u32) \<Rightarrow> nat \<Rightarrow> u32" where
  "vec_set vector r = r(vector div 32 := set_bit (vector mod 32) (r (vector div 32)))"

definition vec_clear :: "nat \<Rightarrow> (nat \<Rightarrow> u32) \<Rightarrow> nat \<Rightarrow> u32" where
  "vec_clear vector r = r(vector div 32 := unset_bit (vector mod 32) (r (vector div 32)))"

definition fls :: "u32 \<Rightarrow> nat" where
  "fls w = (case List.find (bit w) (rev [0..<32]) of None \<Rightarrow> 0 | Some b \<Rightarrow> b + 1)"

text \<open>The descending search of \<^verbatim>\<open>vlapic_process_eoi\<close> and \<^verbatim>\<open>vlapic_pending_intr\<close>.\<close>

fun scan_vectors :: "(nat \<Rightarrow> u32) \<Rightarrow> nat list \<Rightarrow> nat option" where
  "scan_vectors r [] = None"
| "scan_vectors r (i # is) =
     (case fls (r i) of 0 \<Rightarrow> scan_vectors r is | Suc bitpos \<Rightarrow> Some (i * 32 + bitpos))"

section \<open>Local vector table and errors\<close>

definition lvt_off_to_idx :: "u32 \<Rightarrow> nat option" where
  "lvt_off_to_idx offset =
     (if offset = 0x2F0 then Some APIC_LVT_CMCI else if offset = 0x320 then Some APIC_LVT_TIMER
      else if offset = 0x330 then Some APIC_LVT_THERMAL else if offset = 0x340 then Some APIC_LVT_PMC
      else if offset = 0x350 then Some APIC_LVT_LINT0 else if offset = 0x360 then Some APIC_LVT_LINT1
      else if offset = 0x370 then Some APIC_LVT_ERROR else None)"

definition lvt_mask :: "nat \<Rightarrow> u32" where
  "lvt_mask idx =
     (let m = APIC_LVT_M OR APIC_LVT_DS OR APIC_LVT_VECTOR
      in if idx = APIC_LVT_TIMER then m OR APIC_LVTT_TM
         else if idx = APIC_LVT_ERROR then m
         else if idx = APIC_LVT_LINT0 \<or> idx = APIC_LVT_LINT1
         then (m OR (APIC_LVT_TM OR APIC_LVT_RIRR OR APIC_LVT_IIPP)) OR APIC_LVT_DM
         else m OR APIC_LVT_DM)"

definition vlapic_lvt_write_handler :: "nat \<Rightarrow> vlapic \<Rightarrow> vlapic" where
  "vlapic_lvt_write_handler idx v =
     (let val0 = lvt (page v) idx;
          val1 = (if svr (page v) AND APIC_SVR_ENABLE = 0 then val0 OR APIC_LVT_M else val0);
          val2 = val1 AND lvt_mask idx
      in (upd_page (\<lambda>p. p\<lparr>lvt := (lvt p)(idx := val2)\<rparr>) v)\<lparr>lvt_last := (lvt_last v)(idx := val2)\<rparr>)"

definition mask_lvt :: "nat \<Rightarrow> vlapic \<Rightarrow> vlapic" where
  "mask_lvt idx v =
     vlapic_lvt_write_handler idx (upd_page (\<lambda>p. p\<lparr>lvt := (lvt p)(idx := lvt p idx OR APIC_LVT_M)\<rparr>) v)"

definition vlapic_mask_lvts :: "vlapic \<Rightarrow> vlapic" where
  "vlapic_mask_lvts v =
     fold mask_lvt [APIC_LVT_CMCI, APIC_LVT_TIMER, APIC_LVT_THERMAL, APIC_LVT_PMC, APIC_LVT_LINT0, APIC_LVT_LINT1, APIC_LVT_ERROR] v"

text \<open>
  \<^verbatim>\<open>vlapic_set_error\<close>, \<^verbatim>\<open>vlapic_fire_lvt\<close> and \<^verbatim>\<open>vlapic_set_intr_ready\<close> call each other; the flag \<^verbatim>\<open>esr_firing\<close> makes the
  inner call of \<^verbatim>\<open>vlapic_set_error\<close> only record the error. The argument \<open>err\<close> is the error function in force.
\<close>

definition set_intr_ready_with :: "(u32 \<Rightarrow> vlapic \<Rightarrow> vlapic) \<Rightarrow> nat \<Rightarrow> vlapic \<Rightarrow> bool \<times> vlapic" where
  "set_intr_ready_with err vector v =
     (if svr (page v) AND APIC_SVR_ENABLE = 0 then (False, v)
      else if vector < 16 then (True, err APIC_ESR_RECEIVE_ILLEGAL_VECTOR v)
      else (True, upd_page (\<lambda>p. p\<lparr>irr := vec_set vector (irr p)\<rparr>) v))"

definition fire_lvt_with :: "(u32 \<Rightarrow> vlapic \<Rightarrow> vlapic) \<Rightarrow> u32 \<Rightarrow> vlapic \<Rightarrow> bool \<times> vlapic" where
  "fire_lvt_with err l v =
     (if l AND APIC_LVT_M \<noteq> 0 then (False, v)
      else
        let vec = l AND APIC_LVT_VECTOR; mode = l AND APIC_LVT_DM
        in if mode = APIC_LVT_DM_FIXED
           then
             if vec < 16 then (False, err APIC_ESR_SEND_ILLEGAL_VECTOR v)
             else
               case set_intr_ready_with err (unat vec) v of
                 (rdy, v1) \<Rightarrow> (True, if rdy then emit NotifyVcpu v1 else v1)
           else if mode = APIC_LVT_DM_NMI then (True, emit InjectNmi v)
           else if mode = APIC_LVT_DM_EXTINT then (True, emit InjectExtint v)
           else (False, v))"

definition record_error :: "u32 \<Rightarrow> vlapic \<Rightarrow> vlapic" where
  "record_error m v = v\<lparr>esr_pending := esr_pending v OR m\<rparr>"

definition vlapic_set_error :: "u32 \<Rightarrow> vlapic \<Rightarrow> vlapic" where
  "vlapic_set_error m v =
     (let v1 = record_error m v
      in if esr_firing v1 then v1
         else
           let v2 = v1\<lparr>esr_firing := True\<rparr>;
               v3 = snd (fire_lvt_with record_error (lvt_last v2 APIC_LVT_ERROR OR APIC_LVT_DM_FIXED) v2)
           in v3\<lparr>esr_firing := False\<rparr>)"

definition vlapic_set_intr_ready :: "nat \<Rightarrow> vlapic \<Rightarrow> bool \<times> vlapic" where
  "vlapic_set_intr_ready = set_intr_ready_with vlapic_set_error"

definition vlapic_fire_lvt :: "u32 \<Rightarrow> vlapic \<Rightarrow> bool \<times> vlapic" where
  "vlapic_fire_lvt = fire_lvt_with vlapic_set_error"

definition vlapic_fire_timer :: "vlapic \<Rightarrow> vlapic" where
  "vlapic_fire_timer v = snd (vlapic_fire_lvt (lvt_last v APIC_LVT_TIMER OR APIC_LVT_DM_FIXED) v)"

definition vlapic_fire_cmci :: "vlapic \<Rightarrow> vlapic" where
  "vlapic_fire_cmci v = snd (vlapic_fire_lvt (lvt_last v APIC_LVT_CMCI) v)"

definition vlapic_enabled :: "vlapic \<Rightarrow> bool" where
  "vlapic_enabled v \<longleftrightarrow> msr_apicbase v AND APICBASE_ENABLED \<noteq> 0 \<and> svr (page v) AND APIC_SVR_ENABLE \<noteq> 0"

text \<open>\<open>False\<close> is the error \<^verbatim>\<open>EINVAL\<close>.\<close>

definition vlapic_trigger_lvt :: "int \<Rightarrow> vlapic \<Rightarrow> bool \<times> vlapic" where
  "vlapic_trigger_lvt vector v =
     (if \<not> vlapic_enabled v
      then (True, if vector = int APIC_LVT_LINT0 then emit InjectExtint v
                  else if vector = int APIC_LVT_LINT1 then emit InjectNmi v else v)
      else if vector < 0 \<or> vector > int APIC_LVT_CMCI then (False, v)
      else
        let i = nat vector;
            l = (if i = APIC_LVT_TIMER \<or> i = APIC_LVT_ERROR then lvt_last v i OR APIC_LVT_DM_FIXED else lvt_last v i)
        in (True, snd (vlapic_fire_lvt l v)))"

section \<open>Priorities\<close>

text \<open>The two consistency checks of \<^verbatim>\<open>vlapic_update_ppr\<close>.\<close>

fun prio_increasing :: "int \<Rightarrow> nat list \<Rightarrow> bool" where
  "prio_increasing lastprio [] = True"
| "prio_increasing lastprio (vec # vecs) =
     (if int (PRIO vec) \<le> lastprio then False else prio_increasing (int (PRIO vec)) vecs)"

fun isr_in_sync :: "vlapic \<Rightarrow> nat \<Rightarrow> nat list \<Rightarrow> bool" where
  "isr_in_sync v i [] = True"
| "isr_in_sync v i (vector # vectors) =
     (if vec_bit (isr (page v)) vector
      then if i > isrvec_stk_top v \<or> unat (isrvec_stk v i) \<noteq> vector then False
           else isr_in_sync v (i + 1) vectors
      else isr_in_sync v i vectors)"

definition vlapic_update_ppr :: "vlapic \<Rightarrow> vlapic option" where
  "vlapic_update_ppr v =
     (let isrvec = unat (isrvec_stk v (isrvec_stk_top v));
          t = unat (tpr (page v))
      in if isrvec_stk_top v = 0 \<and> isrvec \<noteq> 0 then None
         else if \<not> prio_increasing (- 1) (map (\<lambda>i. unat (isrvec_stk v i)) [1..<isrvec_stk_top v + 1]) then None
         else if \<not> isr_in_sync v 1 [0..<256] then None
         else
           let new = (if PRIO t \<ge> PRIO isrvec then tpr (page v) else word_of_nat isrvec AND 0xf0)
           in Some (upd_page (\<lambda>p. p\<lparr>ppr := new\<rparr>) v))"

definition vlapic_process_eoi :: "vlapic \<Rightarrow> vlapic option" where
  "vlapic_process_eoi v =
     (case scan_vectors (isr (page v)) [7, 6, 5, 4, 3, 2, 1, 0] of
        None \<Rightarrow> Some v
      | Some vector \<Rightarrow>
          if isrvec_stk_top v = 0 then None
          else
            let v1 = (upd_page (\<lambda>p. p\<lparr>isr := vec_clear vector (isr p)\<rparr>) v)\<lparr>isrvec_stk_top := isrvec_stk_top v - 1\<rparr>
            in case vlapic_update_ppr v1 of
                 None \<Rightarrow> None
               | Some v2 \<Rightarrow> Some (if vec_bit (tmr (page v2)) vector then emit (EoiToIoapic vector) v2 else v2))"

definition vlapic_set_tpr :: "u8 \<Rightarrow> vlapic \<Rightarrow> vlapic option" where
  "vlapic_set_tpr val v =
     (if tpr (page v) \<noteq> ucast val then vlapic_update_ppr (upd_page (\<lambda>p. p\<lparr>tpr := ucast val\<rparr>) v) else Some v)"

definition vlapic_get_tpr :: "vlapic \<Rightarrow> u8" where
  "vlapic_get_tpr v = ucast (tpr (page v))"

definition vlapic_set_cr8 :: "u64 \<Rightarrow> vlapic \<Rightarrow> vlapic option" where
  "vlapic_set_cr8 val v =
     (if val AND NOT 0xf \<noteq> 0 then Some (emit InjectGp v) else vlapic_set_tpr (ucast (push_bit 4 val)) v)"

definition vlapic_get_cr8 :: "vlapic \<Rightarrow> u64" where
  "vlapic_get_cr8 v = ucast (drop_bit 4 (vlapic_get_tpr v))"

definition vlapic_pending_intr :: "vlapic \<Rightarrow> nat option" where
  "vlapic_pending_intr v =
     (case scan_vectors (irr (page v)) [7, 6, 5, 4, 3, 2, 1, 0] of
        None \<Rightarrow> None
      | Some vector \<Rightarrow> if PRIO vector > PRIO (unat (ppr (page v))) then Some vector else None)"

definition vlapic_intr_accepted :: "nat \<Rightarrow> vlapic \<Rightarrow> vlapic option" where
  "vlapic_intr_accepted vector v =
     (let v1 = upd_page (\<lambda>p. p\<lparr>irr := vec_clear vector (irr p), isr := vec_set vector (isr p)\<rparr>) v;
          stk_top = isrvec_stk_top v + 1
      in if stk_top \<ge> ISRVEC_STK_SIZE then None
         else vlapic_update_ppr (v1\<lparr>isrvec_stk_top := stk_top, isrvec_stk := (isrvec_stk v)(stk_top := word_of_nat vector)\<rparr>))"

section \<open>Timer\<close>

definition vlapic_periodic_timer :: "vlapic \<Rightarrow> bool" where
  "vlapic_periodic_timer v \<longleftrightarrow> lvt_last v APIC_LVT_TIMER AND APIC_LVTT_TM_PERIODIC \<noteq> 0"

text \<open>\<open>timer_sbt\<close> is the relative time the callout was last reset with.\<close>

definition vlapic_callout_handler :: "bintime \<Rightarrow> vlapic \<Rightarrow> vlapic" where
  "vlapic_callout_handler btnow v =
     (if lapic_pending v then v
      else if \<not> lapic_active v then v
      else
        let v1 = vlapic_fire_timer (v\<lparr>lapic_active := False\<rparr>)
        in if vlapic_periodic_timer v1
           then
             let bt = bintime_sub btnow (timer_fire_bt v1);
                 period = timer_period_bt v1;
                 (rem_sbt, base) = (if bintime_less bt period then (bttosbt period - bttosbt bt, timer_fire_bt v1)
                                    else (bttosbt period, btnow))
             in v1\<lparr>timer_fire_bt := bintime_add base period, lapic_active := True, lapic_pending := True, timer_sbt := rem_sbt\<rparr>
           else v1)"

definition vlapic_icrtmr_write_handler :: "bintime \<Rightarrow> vlapic \<Rightarrow> vlapic" where
  "vlapic_icrtmr_write_handler btnow v =
     (let n = icr_timer (page v);
          v1 = v\<lparr>timer_period_bt := bintime_mul (timer_freq_bt v) n\<rparr>
      in if n \<noteq> 0
         then v1\<lparr>timer_fire_bt := bintime_add btnow (timer_period_bt v1), lapic_active := True, lapic_pending := True,
                timer_sbt := bttosbt (timer_period_bt v1)\<rparr>
         else v1\<lparr>lapic_active := False, lapic_pending := False\<rparr>)"

definition vlapic_svr_write_handler :: "bintime \<Rightarrow> vlapic \<Rightarrow> vlapic" where
  "vlapic_svr_write_handler btnow v =
     (let new = svr (page v);
          old = svr_last v;
          v1 = v\<lparr>svr_last := new\<rparr>
      in if (old XOR new) AND APIC_SVR_ENABLE \<noteq> 0
         then
           if new AND APIC_SVR_ENABLE = 0 then vlapic_mask_lvts (v1\<lparr>lapic_active := False, lapic_pending := False\<rparr>)
           else if vlapic_periodic_timer v1 then vlapic_icrtmr_write_handler btnow v1 else v1
         else v1)"

section \<open>Reset and trigger modes\<close>

definition vlapic_set_tmr :: "nat \<Rightarrow> bool \<Rightarrow> vlapic \<Rightarrow> vlapic" where
  "vlapic_set_tmr vector level v =
     upd_page (\<lambda>p. p\<lparr>tmr := (if level then vec_set vector (tmr p) else vec_clear vector (tmr p))\<rparr>) v"

definition vlapic_reset_tmr :: "vlapic \<Rightarrow> vlapic" where
  "vlapic_reset_tmr v = fold (\<lambda>vector. vlapic_set_tmr vector False) [0..<256] v"

definition zero_page :: LAPIC where
  "zero_page = \<lparr>lapic_id = 0, version = 0, tpr = 0, apr = 0, ppr = 0, eoi_reg = 0, ldr = 0, dfr = 0, svr = 0,
     isr = (\<lambda>_. 0), tmr = (\<lambda>_. 0), irr = (\<lambda>_. 0), esr = 0, lvt = (\<lambda>_. 0), icr_lo = 0, icr_hi = 0, icr_timer = 0, dcr_timer = 0\<rparr>"

definition vlapic_reset :: "vlapic \<Rightarrow> vlapic option" where
  "vlapic_reset v =
     (let v1 = v\<lparr>page := zero_page\<lparr>lapic_id := vlapic_get_id v,
                  version := VLAPIC_VERSION OR push_bit MAXLVTSHIFT (word_of_nat APIC_LVT_CMCI),
                  dfr := 0xffffffff, svr := APIC_SVR_VECTOR\<rparr>\<rparr>;
          v2 = vlapic_reset_tmr (vlapic_mask_lvts v1)
      in case vlapic_dcr_write_handler (upd_page (\<lambda>p. p\<lparr>dcr_timer := 0\<rparr>) v2) of
           None \<Rightarrow> None
         | Some v3 \<Rightarrow> Some (v3\<lparr>boot_st := (if vcpuid v3 = 0 then BS_RUNNING else BS_INIT), svr_last := svr (page v3)\<rparr>))"

text \<open>The structure is zeroed before \<^verbatim>\<open>vlapic_init\<close> is called.\<close>

definition vlapic_init :: "nat \<Rightarrow> vlapic option" where
  "vlapic_init n =
     (let zero_bt = \<lparr>bt_sec = 0, bt_frac = 0\<rparr>;
          base = DEFAULT_APIC_BASE OR APICBASE_ENABLED
      in vlapic_reset \<lparr>vcpuid = n, page = zero_page, esr_pending = 0, esr_firing = False, lapic_active = False, lapic_pending = False,
           timer_fire_bt = zero_bt, timer_freq_bt = zero_bt, timer_period_bt = zero_bt, timer_sbt = 0, isrvec_stk = (\<lambda>_. 0),
           isrvec_stk_top = 0, msr_apicbase = (if n = 0 then base OR APICBASE_BSP else base), boot_st = BS_INIT, svr_last = 0,
           lvt_last = (\<lambda>_. 0), evts = []\<rparr>)"

definition vlapic_get_apicbase :: "vlapic \<Rightarrow> u64" where
  "vlapic_get_apicbase v = msr_apicbase v"

text \<open>The result is whether the write succeeds; it never changes anything.\<close>

definition vlapic_set_apicbase :: "u64 \<Rightarrow> vlapic \<Rightarrow> bool" where
  "vlapic_set_apicbase new v \<longleftrightarrow> msr_apicbase v = new"

definition vlapic_set_x2apic_state :: "bool \<Rightarrow> vlapic \<Rightarrow> vlapic" where
  "vlapic_set_x2apic_state enabled v =
     (let v1 = v\<lparr>msr_apicbase := (if enabled then msr_apicbase v OR APICBASE_X2APIC
                                 else msr_apicbase v AND NOT APICBASE_X2APIC)\<rparr>;
          v2 = upd_page (\<lambda>p. p\<lparr>lapic_id := vlapic_get_id v1\<rparr>) v1
      in if x2apic v2 then upd_page (\<lambda>p. p\<lparr>ldr := x2apic_ldr v2, dfr := 0\<rparr>) v2
         else upd_page (\<lambda>p. p\<lparr>ldr := 0, dfr := 0xffffffff\<rparr>) v2)"

section \<open>Register reads\<close>

definition vlapic_read :: "bintime \<Rightarrow> bool \<Rightarrow> u64 \<Rightarrow> vlapic \<Rightarrow> u64" where
  "vlapic_read bt_now mmio_access offset v =
     (let p = page v; r = unat (offset AND NOT 3)
      in if x2apic v = mmio_access then 0
         else if unat offset > 0x400 then 0
         else if r = 0x20 then ucast (lapic_id p)
         else if r = 0x30 then ucast (version p)
         else if r = 0x80 then ucast (vlapic_get_tpr v)
         else if r = 0x90 then ucast (apr p)
         else if r = 0xA0 then ucast (ppr p)
         else if r = 0xB0 then ucast (eoi_reg p)
         else if r = 0xD0 then ucast (ldr p)
         else if r = 0xE0 then ucast (dfr p)
         else if r = 0xF0 then ucast (svr p)
         else if 0x100 \<le> r \<and> r \<le> 0x170 \<and> r mod 16 = 0 then ucast (isr p ((r - 0x100) div 16))
         else if 0x180 \<le> r \<and> r \<le> 0x1F0 \<and> r mod 16 = 0 then ucast (tmr p ((r - 0x180) div 16))
         else if 0x200 \<le> r \<and> r \<le> 0x270 \<and> r mod 16 = 0 then ucast (irr p ((r - 0x200) div 16))
         else if r = 0x280 then ucast (esr p)
         else if r = 0x300 then ucast (icr_lo p) OR (if x2apic v then push_bit 32 (ucast (icr_hi p)) else 0)
         else if r = 0x310 then ucast (icr_hi p)
         else if r = 0x380 then ucast (icr_timer p)
         else if r = 0x390 then ucast (vlapic_get_ccr bt_now v)
         else if r = 0x3E0 then ucast (dcr_timer p)
         else case lvt_off_to_idx (word_of_nat r) of
                None \<Rightarrow> 0
              | Some idx \<Rightarrow> ucast (lvt_last v idx))"

section \<open>Vectors as lists\<close>

definition vectors :: "(nat \<Rightarrow> u32) \<Rightarrow> nat list" where
  "vectors r = filter (vec_bit r) [0..<256]"

lemma vec_bit_set: "vec_bit (vec_set n r) m \<longleftrightarrow> m = n \<or> vec_bit r m"
proof -
  have "m = n \<longleftrightarrow> m div 32 = n div 32 \<and> m mod 32 = n mod 32" by (metis div_mod_decomp)
  then show ?thesis by (auto simp: vec_bit_def vec_set_def bit_set_bit_word)
qed

lemma vec_bit_clear: "vec_bit (vec_clear n r) m \<longleftrightarrow> m \<noteq> n \<and> vec_bit r m"
proof -
  have "m = n \<longleftrightarrow> m div 32 = n div 32 \<and> m mod 32 = n mod 32" by (metis div_mod_decomp)
  then show ?thesis by (auto simp: vec_bit_def vec_clear_def bit_unset_bit_iff)
qed

lemma find_rev: "List.find P (rev xs) = (if filter P xs = [] then None else Some (last (filter P xs)))"
  by (induction xs rule: rev_induct) auto

lemma find_append: "List.find P (xs @ ys) = (case List.find P xs of None \<Rightarrow> List.find P ys | Some x \<Rightarrow> Some x)"
  by (induction xs) auto

lemma find_map: "List.find P (map f xs) = map_option f (List.find (P \<circ> f) xs)"
  by (induction xs) auto

lemma find_cong: "(\<And>x. x \<in> set xs \<Longrightarrow> P x = Q x) \<Longrightarrow> List.find P xs = List.find Q xs"
  by (induction xs) auto

lemma find_word: "List.find (vec_bit r) (rev [32 * n..<32 * n + 32]) = map_option (\<lambda>b. n * 32 + b) (List.find (bit (r n)) (rev [0..<32]))"
proof -
  have "[32 * n..<32 * n + 32] = map (\<lambda>b. n * 32 + b) [0..<32]" using map_add_upt[of "32 * n" 32] by (simp add: add.commute mult.commute)
  then have "List.find (vec_bit r) (rev [32 * n..<32 * n + 32]) = map_option (\<lambda>b. n * 32 + b) (List.find (vec_bit r \<circ> (\<lambda>b. n * 32 + b)) (rev [0..<32]))"
    by (simp only: rev_map find_map)
  also have "List.find (vec_bit r \<circ> (\<lambda>b. n * 32 + b)) (rev [0..<32]) = List.find (bit (r n)) (rev [0..<32])"
    by (rule find_cong) (auto simp: vec_bit_def)
  finally show ?thesis .
qed

lemma scan_find: "scan_vectors r (rev [0..<n]) = List.find (vec_bit r) (rev [0..<32 * n])"
proof (induction n)
  case (Suc n)
  have "[0..<32 * Suc n] = [0..<32 * n] @ [32 * n..<32 * n + 32]" using upt_add_eq_append[of 0 "32 * n" 32] by (simp add: add.commute)
  then have "List.find (vec_bit r) (rev [0..<32 * Suc n]) =
    (case map_option (\<lambda>b. n * 32 + b) (List.find (bit (r n)) (rev [0..<32])) of None \<Rightarrow> List.find (vec_bit r) (rev [0..<32 * n]) | Some x \<Rightarrow> Some x)"
    by (simp only: rev_append find_append find_word)
  then show ?case using Suc.IH by (simp add: fls_def split: option.splits)
qed simp

lemma scan_last: "scan_vectors r [7, 6, 5, 4, 3, 2, 1, 0] = (if vectors r = [] then None else Some (last (vectors r)))"
proof -
  have "[7, 6, 5, 4, 3, 2, 1, 0] = rev [0..<8::nat]" by (simp add: upt_rec)
  then have "scan_vectors r [7, 6, 5, 4, 3, 2, 1, 0] = List.find (vec_bit r) (rev [0..<256])" using scan_find[of r 8] by (simp del: upt_rec_numeral)
  then show ?thesis by (simp only: find_rev vectors_def)
qed

lemma vectors_sorted: "sorted_wrt (<) (vectors r)"
  unfolding vectors_def by (intro sorted_wrt_filter) simp

lemma vectors_mem: "n \<in> set (vectors r) \<longleftrightarrow> n < 256 \<and> vec_bit r n"
  by (auto simp: vectors_def)

lemma vectors_cong: "(\<And>n. n < 256 \<Longrightarrow> vec_bit r n = vec_bit s n) \<Longrightarrow> vectors r = vectors s"
  unfolding vectors_def by (rule filter_cong) auto

lemma vectors_push:
  assumes "n < 256" "\<forall>m \<in> set (vectors r). m < n"
  shows "vectors (vec_set n r) = vectors r @ [n]"
proof -
  have e: "sorted_wrt (<) (vectors r @ [n])" using assms(2) vectors_sorted[of r] by (auto simp: sorted_wrt_append)
  have "set (vectors (vec_set n r)) = set (vectors r @ [n])" using assms(1) by (auto simp: vectors_mem vec_bit_set)
  then show ?thesis using e vectors_sorted strict_sorted_equal by blast
qed

lemma vectors_pop:
  assumes "vectors r \<noteq> []"
  shows "vectors (vec_clear (last (vectors r)) r) = butlast (vectors r)"
proof -
  let ?l = "vectors r"
  have e: "?l = butlast ?l @ [last ?l]" using assms by simp
  have s: "sorted_wrt (<) (butlast ?l @ [last ?l])" using vectors_sorted[of r] e by simp
  then have "last ?l \<notin> set (butlast ?l)" by (auto simp: sorted_wrt_append)
  moreover have "set ?l = insert (last ?l) (set (butlast ?l))" by (subst e) simp
  ultimately have "set (butlast ?l) = set ?l - {last ?l}" by blast
  also have "\<dots> = set (vectors (vec_clear (last ?l) r))" by (auto simp: vectors_mem vec_bit_clear)
  finally show ?thesis using s vectors_sorted strict_sorted_equal by (metis sorted_wrt_append)
qed

section \<open>Nested interrupts\<close>

text \<open>The vectors in service, as the stack has them, oldest first.\<close>

definition in_service :: "vlapic \<Rightarrow> nat list" where
  "in_service v = map (\<lambda>i. unat (isrvec_stk v i)) [1..<isrvec_stk_top v + 1]"

definition isrv :: "vlapic \<Rightarrow> nat" where
  "isrv v = unat (isrvec_stk v (isrvec_stk_top v))"

definition ppr_of :: "vlapic \<Rightarrow> u32" where
  "ppr_of v = (if PRIO (isrv v) \<le> PRIO (unat (tpr (page v))) then tpr (page v) else word_of_nat (isrv v) AND 0xf0)"

definition stack_inv :: "vlapic \<Rightarrow> bool" where
  "stack_inv v \<longleftrightarrow> isrvec_stk v 0 = 0 \<and> in_service v = vectors (isr (page v))
     \<and> sorted_wrt (\<lambda>a b. PRIO a < PRIO b) (in_service v) \<and> (\<forall>n \<in> set (in_service v). 16 \<le> n)"

definition lapic_inv :: "vlapic \<Rightarrow> bool" where
  "lapic_inv v \<longleftrightarrow> stack_inv v \<and> ppr (page v) = ppr_of v"

lemma prio_increasing_sorted:
  "sorted_wrt (\<lambda>a b. PRIO a < PRIO b) vs \<Longrightarrow> (\<And>x. x \<in> set vs \<Longrightarrow> k < int (PRIO x)) \<Longrightarrow> prio_increasing k vs"
  by (induction vs arbitrary: k) (auto simp: linorder_not_le[symmetric])

lemma map_upt_Cons: "map f [i..<n] = x # xs \<longleftrightarrow> i < n \<and> f i = x \<and> map f [i + 1..<n] = xs"
  by (cases "i < n") (simp_all add: upt_conv_Cons)

lemma in_sync_stack:
  "filter (vec_bit (isr (page v))) vs = map (\<lambda>i. unat (isrvec_stk v i)) [i..<isrvec_stk_top v + 1] \<Longrightarrow> isr_in_sync v i vs"
proof (induction vs arbitrary: i)
  case (Cons n vs)
  show ?case
  proof (cases "vec_bit (isr (page v)) n")
    case True
    with Cons.prems have "map (\<lambda>i. unat (isrvec_stk v i)) [i..<isrvec_stk_top v + 1] = n # filter (vec_bit (isr (page v))) vs"
      by (metis filter.simps(2))
    then have "i < isrvec_stk_top v + 1" "unat (isrvec_stk v i) = n" "isr_in_sync v (i + 1) vs"
      unfolding map_upt_Cons by (blast, blast, metis Cons.IH)
    with True show ?thesis by simp
  next
    case False
    with Cons show ?thesis by (metis filter.simps(2) isr_in_sync.simps(2))
  qed
qed simp

lemma update_ppr_ok:
  assumes "stack_inv v"
  shows "vlapic_update_ppr v = Some (upd_page (\<lambda>p. p\<lparr>ppr := ppr_of v\<rparr>) v)"
proof -
  have p: "prio_increasing (- 1) (in_service v)"
    using assms unfolding stack_inv_def by (intro prio_increasing_sorted) auto
  have q: "isr_in_sync v 1 [0..<256]"
    using assms unfolding stack_inv_def in_service_def vectors_def by (intro in_sync_stack) metis
  have z: "\<not> (isrvec_stk_top v = 0 \<and> isrv v \<noteq> 0)" using assms by (cases "isrvec_stk_top v = 0") (simp_all add: stack_inv_def isrv_def)
  show ?thesis
    unfolding vlapic_update_ppr_def Let_def in_service_def[symmetric] isrv_def[symmetric]
    using p q z by (simp only: ppr_of_def if_False not_True_eq_False)
qed

lemma stack_inv_cong:
  assumes "isrvec_stk w = isrvec_stk v" "isrvec_stk_top w = isrvec_stk_top v" "isr (page w) = isr (page v)"
  shows "stack_inv w = stack_inv v" "isrv w = isrv v" "in_service w = in_service v"
  using assms by (simp_all add: stack_inv_def in_service_def isrv_def)

lemma update_ppr_inv:
  assumes "stack_inv v"
  shows "\<exists>w. vlapic_update_ppr v = Some w \<and> lapic_inv w \<and> in_service w = in_service v \<and> page w = (page v)\<lparr>ppr := ppr_of v\<rparr> \<and> evts w = evts v"
proof (intro exI conjI)
  let ?w = "upd_page (\<lambda>p. p\<lparr>ppr := ppr_of v\<rparr>) v"
  have "stack_inv ?w = stack_inv v" "isrv ?w = isrv v" "in_service ?w = in_service v"
    by (rule stack_inv_cong; simp add: upd_page_def)+
  then show "lapic_inv ?w" "in_service ?w = in_service v"
    using assms by (simp_all add: lapic_inv_def ppr_of_def) (simp_all add: upd_page_def)
qed (simp_all add: update_ppr_ok[OF assms] upd_page_def)

lemma in_service_push:
  "in_service (v\<lparr>isrvec_stk_top := isrvec_stk_top v + 1, isrvec_stk := (isrvec_stk v)(isrvec_stk_top v + 1 := x)\<rparr>) = in_service v @ [unat x]"
  by (simp add: in_service_def)

lemma in_service_pop: "in_service (v\<lparr>isrvec_stk_top := isrvec_stk_top v - 1\<rparr>) = butlast (in_service v)"
  by (cases "isrvec_stk_top v") (simp_all add: in_service_def butlast_append)

lemma in_service_length: "length (in_service v) = isrvec_stk_top v"
  by (simp add: in_service_def)

lemma isrv_last: "isrvec_stk v 0 = 0 \<Longrightarrow> isrv v = (if in_service v = [] then 0 else last (in_service v))"
  by (cases "isrvec_stk_top v") (simp_all add: in_service_def isrv_def)

text \<open>One vector per priority class, and no vector of class 0: at most fifteen can be nested.\<close>

lemma nested_at_most_15:
  assumes "stack_inv v"
  shows "isrvec_stk_top v \<le> 15"
proof -
  have "sorted_wrt (<) (map PRIO (in_service v))" using assms unfolding stack_inv_def sorted_wrt_map by blast
  then have d: "distinct (map PRIO (in_service v))" using strict_sorted_iff by blast
  have "set (map PRIO (in_service v)) \<subseteq> {1..<16}"
  proof
    fix k assume "k \<in> set (map PRIO (in_service v))"
    then obtain n where n: "n \<in> set (in_service v)" "k = PRIO n" by auto
    then have "16 \<le> n" "n < 256" using assms unfolding stack_inv_def by (blast, auto simp: vectors_mem)
    then show "k \<in> {1..<16}" using n by (auto simp: PRIO_def)
  qed
  then have "card (set (map PRIO (in_service v))) \<le> card {1..<16::nat}" by (intro card_mono) auto
  then show ?thesis using distinct_card[OF d] by (simp add: in_service_length)
qed

lemma isrv_less: "isrv v < 256"
  using unsigned_less[where 'a = nat and w = "isrvec_stk v (isrvec_stk_top v)"] by (simp add: isrv_def)

lemma PRIO_ppr_of: "PRIO (unat (ppr_of v)) = max (PRIO (unat (tpr (page v)))) (PRIO (isrv v))"
proof -
  have "unat (word_of_nat n AND 0xf0 :: u32) div 16 = n div 16" if "n < 256" for n
  proof -
    let ?w = "word_of_nat n :: u32"
    have "drop_bit 4 (?w AND 0xf0) = take_bit 4 (drop_bit 4 ?w)" by (simp add: drop_bit_and take_bit_eq_mask mask_eq_exp_minus_1)
    moreover have d: "unat (drop_bit 4 x) = unat x div 16" for x :: u32
      by (simp add: drop_bit_eq_div unat_div)
    moreover have "unat ?w = n" using that by (simp add: unsigned_of_nat take_bit_nat_eq_self)
    ultimately have "unat (?w AND 0xf0) div 16 = take_bit 4 (n div 16)" by (metis unsigned_take_bit_eq)
    then show ?thesis using that by (simp add: take_bit_nat_eq_self)
  qed
  then show ?thesis using isrv_less[of v] by (simp add: ppr_of_def PRIO_def)
qed

lemma pending_some:
  assumes "lapic_inv v" "vlapic_pending_intr v = Some n"
  shows "n < 256" "16 \<le> n" "vec_bit (irr (page v)) n" "PRIO (unat (tpr (page v))) < PRIO n" "\<forall>m \<in> set (in_service v). PRIO m < PRIO n"
proof -
  let ?l = "vectors (irr (page v))"
  have n: "?l \<noteq> []" "n = last ?l" "PRIO (unat (ppr (page v))) < PRIO n"
    using assms(2) unfolding vlapic_pending_intr_def scan_last by (auto split: if_splits)
  then have "n \<in> set ?l" by simp
  then show "n < 256" "vec_bit (irr (page v)) n" by (simp_all add: vectors_mem)
  have p: "PRIO (unat (tpr (page v))) < PRIO n" "PRIO (isrv v) < PRIO n"
    using n(3) assms(1) by (simp_all add: lapic_inv_def PRIO_ppr_of)
  then show "PRIO (unat (tpr (page v))) < PRIO n" "16 \<le> n" by (auto simp: PRIO_def)
  show "\<forall>m \<in> set (in_service v). PRIO m < PRIO n"
  proof
    fix m assume m: "m \<in> set (in_service v)"
    then have e: "in_service v = butlast (in_service v) @ [isrv v]"
      using assms(1) isrv_last[of v] by (auto simp: lapic_inv_def stack_inv_def)
    have "sorted_wrt (\<lambda>a b. PRIO a < PRIO b) (butlast (in_service v) @ [isrv v])"
      using assms(1) e unfolding lapic_inv_def stack_inv_def by metis
    moreover have "m \<in> set (butlast (in_service v)) \<or> m = isrv v" using m e by (metis Un_iff set_append set_ConsD empty_iff list.set(1) insert_iff list.set(2))
    ultimately have "PRIO m \<le> PRIO (isrv v)" by (auto simp: sorted_wrt_append less_imp_le)
    then show "PRIO m < PRIO n" using p by simp
  qed
qed

lemma accept_ok:
  assumes inv: "lapic_inv v" and pend: "vlapic_pending_intr v = Some n"
  shows "\<exists>w. vlapic_intr_accepted n v = Some w \<and> lapic_inv w \<and> in_service w = in_service v @ [n]
    \<and> irr (page w) = vec_clear n (irr (page v)) \<and> tmr (page w) = tmr (page v) \<and> evts w = evts v"
proof -
  note n = pending_some[OF inv pend]
  let ?v1 = "upd_page (\<lambda>p. p\<lparr>irr := vec_clear n (irr p), isr := vec_set n (isr p)\<rparr>) v"
  let ?v2 = "?v1\<lparr>isrvec_stk_top := isrvec_stk_top v + 1, isrvec_stk := (isrvec_stk v)(isrvec_stk_top v + 1 := word_of_nat n)\<rparr>"
  have s: "stack_inv v" using inv by (simp add: lapic_inv_def)
  have u: "unat (word_of_nat n :: u8) = n" using n(1) by (simp add: unsigned_of_nat take_bit_nat_eq_self)
  have serv: "in_service ?v2 = in_service v @ [n]" by (simp add: in_service_def u upd_page_def)
  have below: "\<forall>m \<in> set (vectors (isr (page v))). m < n"
    using n(5) s unfolding stack_inv_def PRIO_def by (metis div_le_mono not_le)
  have "stack_inv ?v2"
    unfolding stack_inv_def serv using s n below vectors_push[OF n(1) below]
    by (auto simp: stack_inv_def upd_page_def sorted_wrt_append)
  from update_ppr_inv[OF this] show ?thesis
    using nested_at_most_15[OF s] serv by (auto simp: vlapic_intr_accepted_def Let_def ISRVEC_STK_SIZE_def upd_page_def)
qed

lemma eoi_ok:
  assumes inv: "lapic_inv v"
  shows "\<exists>w. vlapic_process_eoi v = Some w \<and> lapic_inv w \<and> in_service w = butlast (in_service v)
    \<and> irr (page w) = irr (page v) \<and> tmr (page w) = tmr (page v)
    \<and> evts w = evts v @ (if in_service v \<noteq> [] \<and> vec_bit (tmr (page v)) (last (in_service v)) then [EoiToIoapic (last (in_service v))] else [])"
proof (cases "in_service v = []")
  case True
  then show ?thesis using inv unfolding vlapic_process_eoi_def scan_last by (auto simp: lapic_inv_def stack_inv_def)
next
  case False
  have s: "stack_inv v" using inv by (simp add: lapic_inv_def)
  then have e: "in_service v = vectors (isr (page v))" by (simp add: stack_inv_def)
  let ?n = "last (in_service v)"
  let ?v1 = "(upd_page (\<lambda>p. p\<lparr>isr := vec_clear ?n (isr p)\<rparr>) v)\<lparr>isrvec_stk_top := isrvec_stk_top v - 1\<rparr>"
  have serv: "in_service ?v1 = butlast (in_service v)"
    using in_service_pop[of v] by (simp add: in_service_def upd_page_def)
  have "in_service v = butlast (in_service v) @ [?n]" using False by simp
  then have "sorted_wrt (\<lambda>a b. PRIO a < PRIO b) (butlast (in_service v))"
    using s unfolding stack_inv_def by (metis sorted_wrt_append)
  then have "stack_inv ?v1"
    unfolding stack_inv_def serv using s vectors_pop[of "isr (page v)"] False
    by (auto simp: stack_inv_def upd_page_def e dest: in_set_butlastD)
  from update_ppr_inv[OF this] obtain w where w: "vlapic_update_ppr ?v1 = Some w" "lapic_inv w"
    "in_service w = butlast (in_service v)" "page w = (page ?v1)\<lparr>ppr := ppr_of ?v1\<rparr>" "evts w = evts v"
    using serv by (auto simp: upd_page_def)
  have em: "lapic_inv (emit x w) = lapic_inv w" "in_service (emit x w) = in_service w" for x
    by (simp_all add: lapic_inv_def stack_inv_def in_service_def emit_def ppr_of_def isrv_def)
  have top: "isrvec_stk_top v \<noteq> 0" using False in_service_length[of v] by (metis length_0_conv)
  have "vlapic_process_eoi v = Some (if vec_bit (tmr (page w)) ?n then emit (EoiToIoapic ?n) w else w)"
    using False top w(1) e unfolding vlapic_process_eoi_def scan_last by (simp add: Let_def)
  moreover have "page (emit x w) = page w" "evts (emit x w) = evts w @ [x]" for x by (simp_all add: emit_def)
  ultimately show ?thesis using w em False by (simp add: upd_page_def)
qed

section \<open>What the other operations leave alone\<close>

text \<open>The part of the state the invariant is about.\<close>

definition lcore :: "vlapic \<Rightarrow> (nat \<Rightarrow> u8) \<times> nat \<times> (nat \<Rightarrow> u32) \<times> u32 \<times> u32" where
  "lcore v = (isrvec_stk v, isrvec_stk_top v, isr (page v), tpr (page v), ppr (page v))"

lemma lapic_inv_lcore: "lcore w = lcore v \<Longrightarrow> lapic_inv w = lapic_inv v"
  by (simp add: lcore_def lapic_inv_def stack_inv_def in_service_def ppr_of_def isrv_def)

lemma in_service_lcore: "lcore w = lcore v \<Longrightarrow> in_service w = in_service v"
  by (simp add: lcore_def in_service_def)

lemma lcore_emit [simp]: "lcore (emit e v) = lcore v"
  by (simp add: lcore_def emit_def)

lemma lcore_error [simp]: "lcore (record_error m v) = lcore v"
  by (simp add: lcore_def record_error_def)

lemma lcore_ready_with: "(\<And>m v. lcore (err m v) = lcore v) \<Longrightarrow> lcore (snd (set_intr_ready_with err vector v)) = lcore v"
  by (simp add: set_intr_ready_with_def) (simp add: lcore_def upd_page_def)

lemma lcore_fire_with:
  assumes "\<And>m v. lcore (err m v) = lcore v"
  shows "lcore (snd (fire_lvt_with err l v)) = lcore v"
proof (cases "set_intr_ready_with err (unat (l AND APIC_LVT_VECTOR)) v")
  case (Pair r w)
  then have "lcore w = lcore v" using lcore_ready_with[of err "unat (l AND APIC_LVT_VECTOR)" v] assms by simp
  then show ?thesis unfolding fire_lvt_with_def Let_def Pair by (simp add: assms)
qed

lemma lcore_set_error [simp]: "lcore (vlapic_set_error m v) = lcore v"
proof -
  have "lcore (v\<lparr>esr_firing := b\<rparr>) = lcore v" for v b by (simp add: lcore_def)
  then show ?thesis by (simp add: vlapic_set_error_def Let_def lcore_fire_with)
qed

lemma lcore_intr_ready [simp]: "lcore (snd (vlapic_set_intr_ready vector v)) = lcore v"
  by (simp add: vlapic_set_intr_ready_def lcore_ready_with)

lemma lcore_fire_lvt [simp]: "lcore (snd (vlapic_fire_lvt l v)) = lcore v"
  by (simp add: vlapic_fire_lvt_def lcore_fire_with)

lemma lcore_fire_timer [simp]: "lcore (vlapic_fire_timer v) = lcore v"
  by (simp add: vlapic_fire_timer_def)

lemma lcore_trigger_lvt [simp]: "lcore (snd (vlapic_trigger_lvt vector v)) = lcore v"
  by (simp add: vlapic_trigger_lvt_def Let_def)

lemma lcore_registers [simp]:
  "lcore (vlapic_dfr_write_handler v) = lcore v" "lcore (vlapic_ldr_write_handler v) = lcore v"
  "lcore (vlapic_id_write_handler v) = lcore v" "lcore (vlapic_esr_write_handler v) = lcore v"
  "lcore (vlapic_lvt_write_handler idx v) = lcore v" "lcore (mask_lvt idx v) = lcore v"
  "lcore (vlapic_icrtmr_write_handler t v) = lcore v" "lcore (vlapic_set_x2apic_state b v) = lcore v"
  "lcore (vlapic_set_tmr vector level v) = lcore v"
  by (simp_all add: lcore_def upd_page_def vlapic_dfr_write_handler_def vlapic_ldr_write_handler_def vlapic_id_write_handler_def
      vlapic_esr_write_handler_def vlapic_lvt_write_handler_def mask_lvt_def vlapic_icrtmr_write_handler_def
      vlapic_set_x2apic_state_def vlapic_set_tmr_def Let_def)

lemma lcore_fold: "(\<And>x v. lcore (f x v) = lcore v) \<Longrightarrow> lcore (fold f xs v) = lcore v"
  by (induction xs arbitrary: v) auto

lemma lcore_mask_lvts [simp]: "lcore (vlapic_mask_lvts v) = lcore v"
  unfolding vlapic_mask_lvts_def by (rule lcore_fold) simp

lemma lcore_reset_tmr [simp]: "lcore (vlapic_reset_tmr v) = lcore v"
  unfolding vlapic_reset_tmr_def by (rule lcore_fold) simp

lemma lcore_svr [simp]: "lcore (vlapic_svr_write_handler t v) = lcore v"
proof -
  have "lcore (v\<lparr>svr_last := x\<rparr>) = lcore v" "lcore (v\<lparr>lapic_active := a, lapic_pending := b\<rparr>) = lcore v" for v x a b
    by (simp_all add: lcore_def)
  then show ?thesis by (simp add: vlapic_svr_write_handler_def Let_def)
qed

lemma lcore_callout [simp]: "lcore (vlapic_callout_handler t v) = lcore v"
proof -
  have u: "lcore (v\<lparr>lapic_active := b\<rparr>) = lcore v"
    "lcore (v\<lparr>timer_fire_bt := x, lapic_active := True, lapic_pending := True, timer_sbt := z\<rparr>) = lcore v" for v b x z
    by (simp_all add: lcore_def)
  then show ?thesis by (simp add: vlapic_callout_handler_def Let_def split: prod.split)
qed

text \<open>Every divide configuration is one of the eight the code knows.\<close>

lemma divisor_table:
  "list_all (\<lambda>n. \<exists>d \<in> set [1, 2, 4, 8, 16, 32, 64, 128]. vlapic_timer_divisor (word_of_nat n) = Some d) [0..<16]"
  by code_simp

lemma divisor_low: "vlapic_timer_divisor (take_bit 4 w) = vlapic_timer_divisor w"
proof -
  have "take_bit 4 w AND 0xB = w AND 0xB" by (simp add: take_bit_eq_mask and.assoc mask_eq_exp_minus_1)
  then show ?thesis by (simp only: vlapic_timer_divisor_def)
qed

lemma divisor_total: "\<exists>d \<in> {1, 2, 4, 8, 16, 32, 64, 128}. vlapic_timer_divisor w = Some d"
proof -
  define n where "n = unat (take_bit 4 w)"
  have "n < 2 ^ 4" unfolding n_def unsigned_take_bit_eq by (rule take_bit_nat_less_exp)
  then have "n \<in> set [0..<16]" by (simp del: upt_rec_numeral)
  then have "\<exists>d \<in> set [1, 2, 4, 8, 16, 32, 64, 128]. vlapic_timer_divisor (word_of_nat n) = Some d"
    using divisor_table unfolding list_all_iff by blast
  moreover have "word_of_nat n = take_bit 4 w" by (simp add: n_def)
  ultimately show ?thesis by (metis divisor_low list.simps(15) list.set(1))
qed

lemma dcr_ok: "\<exists>w. vlapic_dcr_write_handler v = Some w \<and> lcore w = lcore v"
  using divisor_total[of "dcr_timer (page v)"] by (auto simp: vlapic_dcr_write_handler_def Let_def lcore_def)

lemma set_tpr_ok:
  assumes "lapic_inv v"
  shows "\<exists>w. vlapic_set_tpr x v = Some w \<and> lapic_inv w \<and> in_service w = in_service v \<and> evts w = evts v"
proof -
  let ?v = "upd_page (\<lambda>p. p\<lparr>tpr := ucast x\<rparr>) v"
  have "stack_inv ?v = stack_inv v" "in_service ?v = in_service v" by (rule stack_inv_cong; simp add: upd_page_def)+
  then show ?thesis using assms update_ppr_inv[of ?v] by (auto simp: vlapic_set_tpr_def lapic_inv_def upd_page_def)
qed

lemma zero_vectors: "vectors (\<lambda>_. 0) = []"
  by (simp add: vectors_def vec_bit_def del: upt_rec_numeral)

lemma reset_ok:
  assumes "isrvec_stk v 0 = 0" "isrvec_stk_top v = 0"
  shows "\<exists>w. vlapic_reset v = Some w \<and> lapic_inv w"
proof -
  define v1 where "v1 = v\<lparr>page := zero_page\<lparr>lapic_id := vlapic_get_id v,
                  version := VLAPIC_VERSION OR push_bit MAXLVTSHIFT (word_of_nat APIC_LVT_CMCI),
                  dfr := 0xffffffff, svr := APIC_SVR_VECTOR\<rparr>\<rparr>"
  have i: "lapic_inv v1"
    using assms by (simp add: lapic_inv_def stack_inv_def in_service_def ppr_of_def isrv_def v1_def zero_page_def zero_vectors)
  define v2 where "v2 = upd_page (\<lambda>p. p\<lparr>dcr_timer := 0\<rparr>) (vlapic_reset_tmr (vlapic_mask_lvts v1))"
  have "lcore v2 = lcore (vlapic_reset_tmr (vlapic_mask_lvts v1))" unfolding v2_def by (simp add: lcore_def upd_page_def)
  then have "lcore v2 = lcore v1" by simp
  moreover obtain w where w: "vlapic_dcr_write_handler v2 = Some w" "lcore w = lcore v2" using dcr_ok by blast
  moreover have "lcore (w\<lparr>boot_st := b, svr_last := x\<rparr>) = lcore w" for b x by (simp add: lcore_def)
  ultimately have "lapic_inv (w\<lparr>boot_st := b, svr_last := x\<rparr>)" for b x using i lapic_inv_lcore by metis
  then show ?thesis using w(1) unfolding vlapic_reset_def Let_def v1_def[symmetric] v2_def[symmetric] by simp
qed

lemma init_ok: "\<exists>w. vlapic_init n = Some w \<and> lapic_inv w"
  unfolding vlapic_init_def Let_def by (rule reset_ok) simp_all

end
