(* ===== verification/Vmm_lapic.thy ===== *)
theory Vmm_lapic
  imports Vioapic Vlapic
begin

text \<open>
  The local APICs of a virtual machine: the functions of \<^verbatim>\<open>src/src/lib/vmm/io/vlapic.c\<close> that reach other APICs
  (destinations, inter-processor interrupts, register writes) and \<^verbatim>\<open>src/src/lib/vmm/vmm_lapic.c\<close>. Sets of virtual CPUs
  are one 64-bit word, as \<^verbatim>\<open>cpuset_t\<close> is. \<open>None\<close> is an abort, a failed \<^verbatim>\<open>KASSERT\<close> (they are enabled by
  \<^verbatim>\<open>config.mk\<close>) or a shift of undefined result. The flag \<^verbatim>\<open>*retu\<close> is false before a call and part of the result.
\<close>

section \<open>State\<close>

definition APIC_VECTOR_MASK :: u64 where "APIC_VECTOR_MASK = 0xff"
definition APIC_DELMODE_MASK :: u64 where "APIC_DELMODE_MASK = 0x700"
definition APIC_DELMODE_FIXED :: u32 where "APIC_DELMODE_FIXED = 0"
definition APIC_DELMODE_LOWPRIO :: u32 where "APIC_DELMODE_LOWPRIO = 0x100"
definition APIC_DELMODE_NMI :: u32 where "APIC_DELMODE_NMI = 0x400"
definition APIC_DELMODE_INIT :: u32 where "APIC_DELMODE_INIT = 0x500"
definition APIC_DELMODE_STARTUP :: u32 where "APIC_DELMODE_STARTUP = 0x600"
definition APIC_DESTMODE_LOG :: u64 where "APIC_DESTMODE_LOG = 0x800"
definition APIC_DELSTAT_PEND :: u32 where "APIC_DELSTAT_PEND = 0x1000"
definition APIC_LEVEL_MASK :: u64 where "APIC_LEVEL_MASK = 0x4000"
definition APIC_LEVEL_DEASSERT :: u64 where "APIC_LEVEL_DEASSERT = 0"
definition APIC_DEST_MASK :: u64 where "APIC_DEST_MASK = 0xc0000"
definition APIC_DEST_DESTFLD :: u64 where "APIC_DEST_DESTFLD = 0"
definition APIC_DEST_SELF :: u64 where "APIC_DEST_SELF = 0x40000"
definition APIC_DEST_ALLISELF :: u64 where "APIC_DEST_ALLISELF = 0x80000"
definition IOART_DELFIXED :: u32 where "IOART_DELFIXED = 0"
definition IOART_DELLOPRI :: u32 where "IOART_DELLOPRI = 0x100"
definition IOART_DELEXINT :: u32 where "IOART_DELEXINT = 0x700"
definition MSI_X86_ADDR_MASK :: u64 where "MSI_X86_ADDR_MASK = 0xfff00000"
definition MSI_X86_ADDR_BASE :: u64 where "MSI_X86_ADDR_BASE = 0xfee00000"
definition MSI_X86_ADDR_RH :: u64 where "MSI_X86_ADDR_RH = 8"
definition MSI_X86_ADDR_LOG :: u64 where "MSI_X86_ADDR_LOG = 4"
definition MSR_APICBASE :: nat where "MSR_APICBASE = 0x1b"

text \<open>\<open>spinup_ap c\<close> is the request to start a virtual CPU in the exit information of \<open>c\<close>, with its entry point.\<close>

record lapic_vm =
  lapics :: "nat \<Rightarrow> vlapic"
  active_cpus :: u64
  spinup_ap :: "nat \<Rightarrow> (nat \<times> u64) option"

definition upd_lapic :: "nat \<Rightarrow> (vlapic \<Rightarrow> vlapic) \<Rightarrow> lapic_vm \<Rightarrow> lapic_vm" where
  "upd_lapic c f m = m\<lparr>lapics := (lapics m)(c := f (lapics m c))\<rparr>"

definition upd_lapic_opt :: "nat \<Rightarrow> (vlapic \<Rightarrow> vlapic option) \<Rightarrow> lapic_vm \<Rightarrow> lapic_vm option" where
  "upd_lapic_opt c f m = map_option (\<lambda>v. m\<lparr>lapics := (lapics m)(c := v)\<rparr>) (f (lapics m c))"

text \<open>The virtual CPUs of a set in the order in which \<^verbatim>\<open>CPU_FFS\<close> finds them.\<close>

definition cpus_of :: "u64 \<Rightarrow> nat list" where
  "cpus_of dmask = filter (bit dmask) [0..<64]"

section \<open>Delivery\<close>

definition lapic_set_intr :: "int \<Rightarrow> int \<Rightarrow> lapic_vm \<Rightarrow> errno \<times> lapic_vm" where
  "lapic_set_intr cpu vector m =
     (if cpu < 0 \<or> cpu \<ge> int VM_MAXCPU then (EINVAL, m)
      else if vector < 16 \<or> vector > 255 then (EINVAL, m)
      else
        (OK, upd_lapic (nat cpu)
               (\<lambda>v. case vlapic_set_intr_ready (nat vector) v of (rdy, v1) \<Rightarrow> if rdy then emit NotifyVcpu v1 else v1) m))"

definition lapic_intr_edge :: "int \<Rightarrow> int \<Rightarrow> lapic_vm \<Rightarrow> errno \<times> lapic_vm" where
  "lapic_intr_edge cpu vector m = lapic_set_intr cpu vector m"

fun trigger_all :: "int \<Rightarrow> nat list \<Rightarrow> lapic_vm \<Rightarrow> errno \<times> lapic_vm" where
  "trigger_all vector [] m = (OK, m)"
| "trigger_all vector (cpu # cpus) m =
     (case vlapic_trigger_lvt vector (lapics m cpu) of
        (ok, v) \<Rightarrow>
          let m1 = upd_lapic cpu (\<lambda>_. v) m
          in if ok then trigger_all vector cpus m1 else (EINVAL, m1))"

definition lapic_set_local_intr :: "int \<Rightarrow> int \<Rightarrow> lapic_vm \<Rightarrow> errno \<times> lapic_vm" where
  "lapic_set_local_intr cpu vector m =
     (if cpu < - 1 \<or> cpu \<ge> int VM_MAXCPU then (EINVAL, m)
      else
        let dmask = (if cpu = - 1 then active_cpus m else set_bit (nat cpu) 0)
        in trigger_all vector (cpus_of dmask) m)"

text \<open>Whether the APIC of a virtual CPU matches a logical destination.\<close>

definition logical_match :: "u32 \<Rightarrow> bool \<Rightarrow> vlapic \<Rightarrow> bool" where
  "logical_match dest x2apic_dest v =
     (let mda_flat_ldest = dest AND 0xff;
          mda_cluster_id = (if x2apic_dest then drop_bit 16 dest else drop_bit 4 dest AND 0xf);
          mda_cluster_ldest = (if x2apic_dest then dest AND 0xffff else dest AND 0xf);
          d = dfr (page v) AND APIC_DFR_MODEL_MASK;
          l = ldr (page v)
      in if d = APIC_DFR_MODEL_FLAT then mda_flat_ldest AND drop_bit 24 l \<noteq> 0
         else if d = APIC_DFR_MODEL_CLUSTER
         then
           let cluster = (if x2apic v then drop_bit 16 l else drop_bit 28 l);
               ldest = (if x2apic v then l AND 0xffff else drop_bit 24 l AND 0xf)
           in cluster = mda_cluster_id \<and> mda_cluster_ldest AND ldest \<noteq> 0
         else False)"

fun calc_logical :: "(nat \<Rightarrow> bool) \<Rightarrow> bool \<Rightarrow> nat list \<Rightarrow> u64 \<Rightarrow> u64" where
  "calc_logical hit lopri [] dmask = dmask"
| "calc_logical hit lopri (c # cs) dmask =
     (if hit c
      then if lopri then set_bit c dmask else calc_logical hit lopri cs (set_bit c dmask)
      else calc_logical hit lopri cs dmask)"

definition vlapic_calcdest :: "lapic_vm \<Rightarrow> u32 \<Rightarrow> bool \<Rightarrow> bool \<Rightarrow> bool \<Rightarrow> u64 option" where
  "vlapic_calcdest m dest phys lopri x2apic_dest =
     (if x2apic_dest \<and> dest = 0xffffffff \<or> \<not> x2apic_dest \<and> dest = 0xff then Some (active_cpus m)
      else if phys
      then
        if sint dest < int VM_MAXCPU
        then if unat dest < 64 then Some (set_bit (unat dest) 0) else None
        else Some 0
      else Some (calc_logical (\<lambda>c. logical_match dest x2apic_dest (lapics m c)) lopri (cpus_of (active_cpus m)) 0))"

definition vlapic_deliver_intr :: "u32 \<Rightarrow> bool \<Rightarrow> u32 \<Rightarrow> u32 \<Rightarrow> lapic_vm \<Rightarrow> lapic_vm option" where
  "vlapic_deliver_intr dest phys delmode vec m =
     (if delmode \<noteq> IOART_DELFIXED \<and> delmode \<noteq> IOART_DELLOPRI \<and> delmode \<noteq> IOART_DELEXINT then Some m
      else
        case vlapic_calcdest m dest phys (delmode = IOART_DELLOPRI) False of
          None \<Rightarrow> None
        | Some dmask \<Rightarrow>
            Some (fold (\<lambda>c m. if delmode = IOART_DELEXINT then upd_lapic c (emit InjectExtint) m
                              else snd (lapic_set_intr (int c) (uint vec) m)) (cpus_of dmask) m))"

definition vlapic_set_tmr_level :: "nat \<Rightarrow> u32 \<Rightarrow> bool \<Rightarrow> u32 \<Rightarrow> nat \<Rightarrow> lapic_vm \<Rightarrow> lapic_vm option" where
  "vlapic_set_tmr_level c dest phys delmode vector m =
     (if vector > 255 then None
      else if delmode \<noteq> APIC_DELMODE_FIXED \<and> delmode \<noteq> APIC_DELMODE_LOWPRIO then Some m
      else
        case vlapic_calcdest m dest phys (delmode = APIC_DELMODE_LOWPRIO) False of
          None \<Rightarrow> None
        | Some dmask \<Rightarrow> Some (if bit dmask c then upd_lapic c (vlapic_set_tmr vector True) m else m))"

definition lapic_intr_msi :: "u64 \<Rightarrow> u64 \<Rightarrow> lapic_vm \<Rightarrow> (int \<times> lapic_vm) option" where
  "lapic_intr_msi addr msg m =
     (if addr AND MSI_X86_ADDR_MASK \<noteq> MSI_X86_ADDR_BASE then Some (- 1, m)
      else
        let dest = ucast (drop_bit 12 addr AND 0xff) :: u32;
            phys = (addr AND (MSI_X86_ADDR_RH OR MSI_X86_ADDR_LOG) \<noteq> (MSI_X86_ADDR_RH OR MSI_X86_ADDR_LOG));
            delmode = ucast (msg AND APIC_DELMODE_MASK) :: u32;
            vec = ucast (msg AND 0xff) :: u32
        in map_option (\<lambda>m. (0, m)) (vlapic_deliver_intr dest phys delmode vec m))"

section \<open>Inter-processor interrupts\<close>

definition ipi_targets :: "nat \<Rightarrow> u64 \<Rightarrow> u32 \<Rightarrow> lapic_vm \<Rightarrow> u64 option" where
  "ipi_targets c icrval dest m =
     (let shorthand = icrval AND APIC_DEST_MASK
      in if shorthand = APIC_DEST_DESTFLD
         then vlapic_calcdest m dest (icrval AND APIC_DESTMODE_LOG = 0) False (x2apic (lapics m c))
         else if shorthand = APIC_DEST_SELF then Some (set_bit c 0)
         else if shorthand = APIC_DEST_ALLISELF then Some (active_cpus m)
         else Some (unset_bit c (active_cpus m)))"

text \<open>The result is the return value, \<^verbatim>\<open>*retu\<close> and the new state. The fourth shorthand, all but self, is the last case.\<close>

definition vlapic_icrlo_write_handler :: "nat \<Rightarrow> lapic_vm \<Rightarrow> (int \<times> bool \<times> lapic_vm) option" where
  "vlapic_icrlo_write_handler c m0 =
     (let m = upd_lapic c (upd_page (\<lambda>p. p\<lparr>icr_lo := icr_lo p AND NOT APIC_DELSTAT_PEND\<rparr>)) m0;
          v = lapics m c;
          icrval = push_bit 32 (ucast (icr_hi (page v))) OR ucast (icr_lo (page v)) :: u64;
          dest = ucast (if x2apic v then drop_bit 32 icrval else drop_bit (32 + 24) icrval) :: u32;
          vec = ucast (icrval AND APIC_VECTOR_MASK) :: u32;
          mode = ucast (icrval AND APIC_DELMODE_MASK) :: u32;
          ap = (vcpuid v = 0 \<and> dest \<noteq> 0 \<and> unat dest < VM_MAXCPU);
          v2 = lapics m (unat dest)
      in if mode = APIC_DELMODE_FIXED \<and> vec < 16
         then Some (0, False, upd_lapic c (vlapic_set_error APIC_ESR_SEND_ILLEGAL_VECTOR) m)
         else if mode = APIC_DELMODE_FIXED \<or> mode = APIC_DELMODE_NMI
         then
           case ipi_targets c icrval dest m of
             None \<Rightarrow> None
           | Some dmask \<Rightarrow>
               Some (0, False,
                 fold (\<lambda>i m. if mode = APIC_DELMODE_FIXED then snd (lapic_intr_edge (int i) (uint vec) m)
                             else upd_lapic i (emit InjectNmi) m) (cpus_of dmask) m)
         else if mode = APIC_DELMODE_INIT \<and> icrval AND APIC_LEVEL_MASK = APIC_LEVEL_DEASSERT then Some (0, False, m)
         else if mode = APIC_DELMODE_INIT \<and> ap
         then Some (0, False, if boot_st v2 = BS_INIT then upd_lapic (unat dest) (\<lambda>v. v\<lparr>boot_st := BS_SIPI\<rparr>) m else m)
         else if mode = APIC_DELMODE_STARTUP \<and> ap
         then
           if boot_st v2 \<noteq> BS_SIPI then Some (0, False, m)
           else Some (0, True, (upd_lapic (unat dest) (\<lambda>v. v\<lparr>boot_st := BS_RUNNING\<rparr>) m)
                  \<lparr>spinup_ap := (spinup_ap m)(vcpuid v := Some (unat dest, ucast (push_bit XHYVE_PAGE_SHIFT vec)))\<rparr>)
         else Some (1, False, m))"

definition vlapic_self_ipi_handler :: "nat \<Rightarrow> u64 \<Rightarrow> lapic_vm \<Rightarrow> lapic_vm option" where
  "vlapic_self_ipi_handler c val m =
     (if \<not> x2apic (lapics m c) then None
      else Some (snd (lapic_intr_edge (int (vcpuid (lapics m c))) (uint (val AND 0xff)) m)))"

section \<open>Register access\<close>

text \<open>What a write does to the register of the APIC of virtual CPU \<open>c\<close>; \<open>retval\<close> is 0 except for the command register.\<close>

definition silent :: "lapic_vm option \<Rightarrow> (int \<times> bool \<times> lapic_vm) option" where
  "silent r = map_option (\<lambda>m. (0, False, m)) r"

definition write_reg :: "bintime \<Rightarrow> nat \<Rightarrow> nat \<Rightarrow> u64 \<Rightarrow> lapic_vm \<Rightarrow> (int \<times> bool \<times> lapic_vm) option" where
  "write_reg bt_now c offset data m =
     (let d = ucast data :: u32;
          plain = (\<lambda>f. silent (Some (upd_lapic c f m)));
          partial = (\<lambda>f. silent (upd_lapic_opt c f m))
      in if offset = 0x20 then plain (\<lambda>v. vlapic_id_write_handler (upd_page (\<lambda>p. p\<lparr>lapic_id := d\<rparr>) v))
         else if offset = 0x80 then partial (vlapic_set_tpr (ucast (data AND 0xff)))
         else if offset = 0xB0 then partial vlapic_process_eoi
         else if offset = 0xD0 then plain (\<lambda>v. vlapic_ldr_write_handler (upd_page (\<lambda>p. p\<lparr>ldr := d\<rparr>) v))
         else if offset = 0xE0 then plain (\<lambda>v. vlapic_dfr_write_handler (upd_page (\<lambda>p. p\<lparr>dfr := d\<rparr>) v))
         else if offset = 0xF0 then plain (\<lambda>v. vlapic_svr_write_handler bt_now (upd_page (\<lambda>p. p\<lparr>svr := d\<rparr>) v))
         else if offset = 0x280 then plain vlapic_esr_write_handler
         else if offset = 0x300
         then vlapic_icrlo_write_handler c
                (upd_lapic c (\<lambda>v. upd_page (\<lambda>p. if x2apic v then p\<lparr>icr_lo := d, icr_hi := ucast (drop_bit 32 data)\<rparr>
                                               else p\<lparr>icr_lo := d\<rparr>) v) m)
         else if offset = 0x310 then plain (upd_page (\<lambda>p. p\<lparr>icr_hi := d\<rparr>))
         else if offset = 0x380 then plain (\<lambda>v. vlapic_icrtmr_write_handler bt_now (upd_page (\<lambda>p. p\<lparr>icr_timer := d\<rparr>) v))
         else if offset = 0x3E0 then partial (\<lambda>v. vlapic_dcr_write_handler (upd_page (\<lambda>p. p\<lparr>dcr_timer := d\<rparr>) v))
         else if offset = 0x3F0
         then if x2apic (lapics m c) then silent (vlapic_self_ipi_handler c data m) else silent (Some m)
         else
           case lvt_off_to_idx (word_of_nat offset) of
             None \<Rightarrow> silent (Some m)
           | Some idx \<Rightarrow> plain (\<lambda>v. vlapic_lvt_write_handler idx (upd_page (\<lambda>p. p\<lparr>lvt := (lvt p)(idx := d)\<rparr>) v)))"

definition vlapic_write :: "bintime \<Rightarrow> nat \<Rightarrow> bool \<Rightarrow> u64 \<Rightarrow> u64 \<Rightarrow> lapic_vm \<Rightarrow> (int \<times> bool \<times> lapic_vm) option" where
  "vlapic_write bt_now c mmio_access offset data m =
     (if \<not> (offset AND 0xf = 0 \<and> unat offset < XHYVE_PAGE_SIZE) then None
      else if unat offset > 0x400 then Some (0, False, m)
      else if x2apic (lapics m c) = mmio_access then Some (0, False, m)
      else write_reg bt_now c (unat offset) data m)"

section \<open>Accesses of the guest\<close>

definition x2apic_msr :: "nat \<Rightarrow> bool" where
  "x2apic_msr msr \<longleftrightarrow> msr \<ge> 0x800 \<and> msr \<le> 0xBFF"

definition x2apic_msr_to_regoff :: "u32 \<Rightarrow> u32" where
  "x2apic_msr_to_regoff msr = push_bit 4 (msr - 0x800)"

definition lapic_msr :: "u32 \<Rightarrow> bool" where
  "lapic_msr msr \<longleftrightarrow> x2apic_msr (unat msr) \<or> unat msr = MSR_APICBASE"

definition lapic_rdmsr :: "bintime \<Rightarrow> nat \<Rightarrow> u32 \<Rightarrow> lapic_vm \<Rightarrow> u64" where
  "lapic_rdmsr bt_now cpu msr m =
     (if unat msr = MSR_APICBASE then vlapic_get_apicbase (lapics m cpu)
      else vlapic_read bt_now False (ucast (x2apic_msr_to_regoff msr)) (lapics m cpu))"

definition lapic_wrmsr :: "bintime \<Rightarrow> nat \<Rightarrow> u32 \<Rightarrow> u64 \<Rightarrow> lapic_vm \<Rightarrow> (int \<times> bool \<times> lapic_vm) option" where
  "lapic_wrmsr bt_now cpu msr val m =
     (if unat msr = MSR_APICBASE then Some (if vlapic_set_apicbase val (lapics m cpu) then 0 else - 1, False, m)
      else vlapic_write bt_now cpu False (ucast (x2apic_msr_to_regoff msr)) val m)"

text \<open>The error code \<^verbatim>\<open>EINVAL\<close> is 22.\<close>

definition lapic_mmio_write :: "bintime \<Rightarrow> nat \<Rightarrow> u64 \<Rightarrow> u64 \<Rightarrow> int \<Rightarrow> lapic_vm \<Rightarrow> (int \<times> bool \<times> lapic_vm) option" where
  "lapic_mmio_write bt_now cpu gpa wval sz m =
     (let off = gpa - DEFAULT_APIC_BASE
      in if sz \<noteq> 4 \<or> off AND 0xf \<noteq> 0 then Some (22, False, m) else vlapic_write bt_now cpu True off wval m)"

definition lapic_mmio_read :: "bintime \<Rightarrow> nat \<Rightarrow> u64 \<Rightarrow> lapic_vm \<Rightarrow> int \<times> u64 option" where
  "lapic_mmio_read bt_now cpu gpa m =
     (let off = (gpa - DEFAULT_APIC_BASE) AND NOT 3
      in if off AND 0xf \<noteq> 0 then (22, None) else (0, Some (vlapic_read bt_now True off (lapics m cpu))))"

section \<open>Operations on a virtual machine\<close>

text \<open>\<^verbatim>\<open>vcpu_init\<close> of \<^verbatim>\<open>src/src/lib/vmm/vmm.c\<close> as far as the APICs go, for every virtual CPU.\<close>

definition vm_init_lapics :: lapic_vm where
  "vm_init_lapics = \<lparr>lapics = (\<lambda>c. case vlapic_init c of Some v \<Rightarrow> vlapic_set_x2apic_state False v), active_cpus = 0, spinup_ap = (\<lambda>_. None)\<rparr>"

definition vm_activate_cpu :: "int \<Rightarrow> lapic_vm \<Rightarrow> lapic_vm" where
  "vm_activate_cpu c m = (if c < 0 \<or> c \<ge> int VM_MAXCPU then m else m\<lparr>active_cpus := set_bit (nat c) (active_cpus m)\<rparr>)"

text \<open>
  What the rest of the hypervisor does with the APICs. Register writes come from the instruction emulator, which
  forwards addresses of the APIC page, and from the exit handler, which forwards the APIC's model-specific registers.
  A virtual CPU accepts an interrupt only when one is pending. The I/O APIC sends eight-bit destinations.
\<close>

datatype lapic_op =
  SetIntr int int
| LocalIntr int int
| Msi u64 u64
| DeliverIntr u8 bool u32 u8
| SetTmrLvl nat u8 bool u32 u8
| ResetTmrs nat
| MmioWrite bintime nat u64 u64 int
| Wrmsr bintime nat u32 u64
| Cr8 nat u64
| Accept nat
| TimerFires bintime nat
| Activate int
| X2apic nat bool

fun lapic_step :: "lapic_op \<Rightarrow> lapic_vm \<Rightarrow> lapic_vm option" where
  "lapic_step (SetIntr cpu vector) m = Some (snd (lapic_set_intr cpu vector m))"
| "lapic_step (LocalIntr cpu vector) m = Some (snd (lapic_set_local_intr cpu vector m))"
| "lapic_step (Msi addr msg) m = map_option snd (lapic_intr_msi addr msg m)"
| "lapic_step (DeliverIntr dest phys delmode vec) m = vlapic_deliver_intr (ucast dest) phys delmode (ucast vec) m"
| "lapic_step (SetTmrLvl c dest phys delmode vec) m = vlapic_set_tmr_level c (ucast dest) phys delmode (unat vec) m"
| "lapic_step (ResetTmrs c) m = Some (upd_lapic c vlapic_reset_tmr m)"
| "lapic_step (MmioWrite t c gpa val sz) m =
     (if DEFAULT_APIC_BASE \<le> gpa \<and> gpa < DEFAULT_APIC_BASE + word_of_nat XHYVE_PAGE_SIZE
      then map_option (snd \<circ> snd) (lapic_mmio_write t c gpa val sz m) else Some m)"
| "lapic_step (Wrmsr t c msr val) m =
     (if lapic_msr msr then map_option (snd \<circ> snd) (lapic_wrmsr t c msr val m) else Some m)"
| "lapic_step (Cr8 c val) m = upd_lapic_opt c (vlapic_set_cr8 val) m"
| "lapic_step (Accept c) m =
     (case vlapic_pending_intr (lapics m c) of None \<Rightarrow> Some m | Some n \<Rightarrow> upd_lapic_opt c (vlapic_intr_accepted n) m)"
| "lapic_step (TimerFires t c) m =
     Some (upd_lapic c (\<lambda>v. vlapic_callout_handler t (v\<lparr>lapic_pending := False\<rparr>)) m)"
| "lapic_step (Activate c) m = Some (vm_activate_cpu c m)"
| "lapic_step (X2apic c en) m = Some (upd_lapic c (vlapic_set_x2apic_state en) m)"

section \<open>No abort but two\<close>

definition vm_inv :: "lapic_vm \<Rightarrow> bool" where
  "vm_inv m \<longleftrightarrow> (\<forall>c. lapic_inv (lapics m c))"

text \<open>The command of an APIC names a physical destination whose identifier is negative as a signed integer.\<close>

definition wild_command :: "vlapic \<Rightarrow> u64 \<Rightarrow> bool" where
  "wild_command v icr \<longleftrightarrow> x2apic v \<and> bit icr 63 \<and> drop_bit 32 icr \<noteq> 0xffffffff \<and> icr AND (APIC_DEST_MASK OR APIC_DESTMODE_LOG) = 0
     \<and> (icr AND APIC_DELMODE_MASK = 0 \<and> 16 \<le> icr AND 0xff \<or> icr AND APIC_DELMODE_MASK = 0x400)"

fun fatal :: "lapic_op \<Rightarrow> lapic_vm \<Rightarrow> bool" where
  "fatal (Wrmsr t c msr val) m =
     (0x900 \<le> msr \<and> msr \<le> 0xBFF \<or> msr = 0x830 \<and> wild_command (lapics m c) val)"
| "fatal _ m = False"

lemma inv_upd: "vm_inv m \<Longrightarrow> (\<And>v. lapic_inv v \<Longrightarrow> lapic_inv (f v)) \<Longrightarrow> vm_inv (upd_lapic c f m)"
  by (simp add: vm_inv_def upd_lapic_def)

lemma inv_upd_core: "vm_inv m \<Longrightarrow> (\<And>v. lcore (f v) = lcore v) \<Longrightarrow> vm_inv (upd_lapic c f m)"
  by (rule inv_upd) (assumption, metis lapic_inv_lcore)

lemma inv_upd_opt:
  assumes "vm_inv m" "\<And>v. lapic_inv v \<Longrightarrow> \<exists>w. f v = Some w \<and> lapic_inv w"
  shows "\<exists>m'. upd_lapic_opt c f m = Some m' \<and> vm_inv m'"
  using assms(1) assms(2)[of "lapics m c"] by (auto simp: upd_lapic_opt_def vm_inv_def)

lemma inv_fold: "vm_inv m \<Longrightarrow> (\<And>x m. vm_inv m \<Longrightarrow> vm_inv (f x m)) \<Longrightarrow> vm_inv (fold f xs m)"
  by (induction xs arbitrary: m) auto

lemma inv_set_intr: "vm_inv m \<Longrightarrow> vm_inv (snd (lapic_set_intr cpu vector m))"
proof -
  have "lcore (case vlapic_set_intr_ready n v of (rdy, v1) \<Rightarrow> if rdy then emit NotifyVcpu v1 else v1) = lcore v" for n v
    using lcore_intr_ready[of n v] by (cases "vlapic_set_intr_ready n v") auto
  then show "vm_inv m \<Longrightarrow> ?thesis" by (simp add: lapic_set_intr_def inv_upd_core)
qed

lemma inv_trigger: "vm_inv m \<Longrightarrow> vm_inv (snd (trigger_all vector cs m))"
proof (induction cs arbitrary: m)
  case (Cons c cs)
  obtain ok v where v: "vlapic_trigger_lvt vector (lapics m c) = (ok, v)" by fastforce
  then have "lcore v = lcore (lapics m c)" using lcore_trigger_lvt[of vector "lapics m c"] by simp
  then have "vm_inv (upd_lapic c (\<lambda>_. v) m)" using Cons.prems lapic_inv_lcore[of v "lapics m c"] by (simp add: vm_inv_def upd_lapic_def)
  then show ?case using Cons.IH by (simp add: v Let_def)
qed simp

lemma calcdest_None:
  "vlapic_calcdest m dest phys lopri x2 = None \<longleftrightarrow>
     \<not> (x2 \<and> dest = 0xffffffff \<or> \<not> x2 \<and> dest = 0xff) \<and> phys \<and> bit dest 31"
proof -
  have r: "0 \<le> uint dest" "uint dest < 4294967296" using unsigned_less[where 'a = int and w = dest] by simp_all
  have s: "sint dest = uint dest - (if bit dest 31 then 4294967296 else 0)"
    using r by (simp add: sint_uint signed_take_bit_eq_take_bit_minus bit_unsigned_iff take_bit_int_eq_self)
  have b: "bit dest 31 \<longleftrightarrow> 2147483648 \<le> uint dest"
  proof -
    have "bit dest 31 \<longleftrightarrow> bit (uint dest) 31" by (simp add: bit_unsigned_iff)
    also have "\<dots> \<longleftrightarrow> odd (uint dest div 2147483648)" by (simp add: bit_iff_odd)
    also have "\<dots> \<longleftrightarrow> 2147483648 \<le> uint dest"
    proof (cases "2147483648 \<le> uint dest")
      case True
      then have "uint dest div 2147483648 = 1" using r by linarith
      with True show ?thesis by simp
    qed (use r in simp)
    finally show ?thesis .
  qed
  have "unat dest < 64 \<longleftrightarrow> uint dest < 64" using r by (simp add: nat_less_iff flip: nat_uint_eq)
  with r s b have "sint dest < 64 \<and> \<not> unat dest < 64 \<longleftrightarrow> bit dest 31" by (cases "bit dest 31") simp_all
  then show ?thesis unfolding vlapic_calcdest_def VM_MAXCPU_def by (simp; blast)
qed

lemma byte_bit: "\<not> bit (ucast (b :: u8) :: u32) 31"
  using bit_imp_le_length[of b 31] by (auto simp: bit_unsigned_iff)

lemma calcdest_byte: "\<exists>d. vlapic_calcdest m (ucast (b :: u8)) phys lopri False = Some d"
  using calcdest_None[of m "ucast b" phys lopri False] byte_bit[of b] by auto

lemma inv_deliver: "vm_inv m \<Longrightarrow> vlapic_deliver_intr dest phys delmode vec m = Some m' \<Longrightarrow> vm_inv m'"
  unfolding vlapic_deliver_intr_def
  by (auto split: if_splits option.splits intro!: inv_fold inv_set_intr inv_upd_core)

lemma deliver_ok: "\<not> bit dest 31 \<Longrightarrow> \<exists>m'. vlapic_deliver_intr dest phys delmode vec m = Some m'"
  unfolding vlapic_deliver_intr_def using calcdest_None[of m dest phys "delmode = IOART_DELLOPRI" False] by auto

lemma inv_tmr_level: "vm_inv m \<Longrightarrow> vlapic_set_tmr_level c dest phys delmode vector m = Some m' \<Longrightarrow> vm_inv m'"
  unfolding vlapic_set_tmr_level_def by (auto split: if_splits option.splits intro!: inv_upd_core)

lemma inv_ipi:
  assumes "vm_inv m" "vlapic_icrlo_write_handler c m = Some (r, u, m')"
  shows "vm_inv m'"
proof -
  define m1 where "m1 = upd_lapic c (upd_page (\<lambda>p. p\<lparr>icr_lo := icr_lo p AND NOT APIC_DELSTAT_PEND\<rparr>)) m"
  have "vm_inv m1" unfolding m1_def by (rule inv_upd_core[OF assms(1)]) (simp add: lcore_def upd_page_def)
  moreover have "vm_inv (m\<lparr>spinup_ap := x\<rparr>) = vm_inv m" for m x by (simp add: vm_inv_def)
  moreover have "lcore (v\<lparr>boot_st := b\<rparr>) = lcore v" for v b by (simp add: lcore_def)
  ultimately show ?thesis
    using assms(2) unfolding vlapic_icrlo_write_handler_def Let_def m1_def[symmetric] lapic_intr_edge_def
    by (auto split: if_splits option.splits intro!: inv_fold inv_set_intr inv_upd_core)
qed

lemma ucast_low:
  fixes x :: u64
  assumes "x AND 0xffffffff = x"
  shows "ucast (ucast x :: u32) = x"
proof (rule bit_word_eqI)
  fix n
  have "bit x n \<longleftrightarrow> n < 32 \<and> bit x n" using bit_low[of x n] assms by simp
  then show "bit (ucast (ucast x :: u32) :: u64) n = bit x n" by (auto simp: bit_unsigned_iff)
qed

lemma field_low:
  fixes x k :: u64
  assumes "k AND 0xffffffff = k"
  shows "(ucast (x AND k) :: u32) = y \<longleftrightarrow> x AND k = ucast y" "(ucast (x AND k) :: u32) < 16 \<longleftrightarrow> x AND k < 16"
proof -
  have e: "ucast (ucast (x AND k) :: u32) = x AND k" by (rule ucast_low) (simp add: assms and.assoc)
  have "ucast (ucast y :: u64) = y" by (simp add: bit_eq_iff bit_unsigned_iff)
  with e show "(ucast (x AND k) :: u32) = y \<longleftrightarrow> x AND k = ucast y" by metis
  have "unat (x AND k) = unat (ucast (x AND k) :: u32)" using unat_up[of "ucast (x AND k)"] e by metis
  then show "(ucast (x AND k) :: u32) < 16 \<longleftrightarrow> x AND k < 16" by (simp only: word_less_nat_alt) simp
qed

text \<open>The two halves of the command register.\<close>

definition icr_of :: "vlapic \<Rightarrow> u64" where
  "icr_of v = push_bit 32 (ucast (icr_hi (page v))) OR ucast (icr_lo (page v))"

lemma bit_icr: "bit (icr_of v) n \<longleftrightarrow> n < 64 \<and> (if n < 32 then bit (icr_lo (page v)) n else bit (icr_hi (page v)) (n - 32))"
  using bit_imp_le_length[of "icr_lo (page v)" n]
  by (auto simp: icr_of_def bit_or_iff bit_push_bit_iff bit_unsigned_iff)

lemma icr_hi_of: "ucast (drop_bit 32 (icr_of v)) = icr_hi (page v)"
  by (rule bit_word_eqI) (simp add: bit_unsigned_iff bit_drop_bit_eq bit_icr)

lemma icr_top: "ucast (drop_bit (32 + 24) (icr_of v)) = (ucast (ucast (drop_bit 24 (icr_hi (page v))) :: u8) :: u32)"
proof (rule bit_word_eqI)
  fix n assume "n < LENGTH(32)"
  then show "bit (ucast (drop_bit (32 + 24) (icr_of v)) :: u32) n = bit (ucast (ucast (drop_bit 24 (icr_hi (page v))) :: u8) :: u32) n"
    by (auto simp: bit_unsigned_iff bit_drop_bit_eq bit_icr add.commute)
qed

lemma ipi_targets_None:
  "ipi_targets c icr dest m = None \<longleftrightarrow> icr AND (APIC_DEST_MASK OR APIC_DESTMODE_LOG) = 0 \<and> bit dest 31
     \<and> \<not> (x2apic (lapics m c) \<and> dest = 0xffffffff \<or> \<not> x2apic (lapics m c) \<and> dest = 0xff)"
proof -
  have "icr AND (APIC_DEST_MASK OR APIC_DESTMODE_LOG) = 0 \<longleftrightarrow> icr AND APIC_DEST_MASK = 0 \<and> icr AND APIC_DESTMODE_LOG = 0"
    by (simp add: bit.conj_disj_distrib or_eq_0_iff)
  then show ?thesis
    unfolding ipi_targets_def Let_def by (auto simp: calcdest_None APIC_DEST_DESTFLD_def)
qed

lemma icr_masked:
  assumes "w = upd_page (\<lambda>p. p\<lparr>icr_lo := icr_lo p AND NOT APIC_DELSTAT_PEND\<rparr>) v" "k AND 0x1000 = 0"
  shows "icr_of w AND k = icr_of v AND k"
proof (rule bit_word_eqI)
  fix n
  have "bit ((2 :: u32) ^ 12) n \<longleftrightarrow> n = 12" by (subst bit_exp_iff) auto
  moreover have "APIC_DELSTAT_PEND = 2 ^ 12" by (simp add: APIC_DELSTAT_PEND_def)
  moreover have "\<not> bit k 12" using assms(2) and_exp_eq_0_iff_not_bit[of k 12] by simp
  ultimately have "bit APIC_DELSTAT_PEND n \<longleftrightarrow> n = 12" "\<not> bit k 12" by (metis, metis)
  then show "bit (icr_of w AND k) n = bit (icr_of v AND k) n"
    by (auto simp: assms(1) bit_and_iff bit_icr upd_page_def bit_not_iff)
qed

lemma icr_wild_dest:
  "x2apic v \<Longrightarrow> bit (icr_hi (page v)) 31 \<longleftrightarrow> bit (icr_of v) 63"
  "icr_hi (page v) = 0xffffffff \<longleftrightarrow> drop_bit 32 (icr_of v) = 0xffffffff"
proof -
  show "bit (icr_hi (page v)) 31 \<longleftrightarrow> bit (icr_of v) 63" by (simp add: bit_icr)
  have "ucast (icr_hi (page v)) = drop_bit 32 (icr_of v)"
    by (rule bit_word_eqI) (use bit_imp_le_length[of "icr_hi (page v)"] in \<open>auto simp: bit_unsigned_iff bit_drop_bit_eq bit_icr\<close>)
  then show "icr_hi (page v) = 0xffffffff \<longleftrightarrow> drop_bit 32 (icr_of v) = 0xffffffff" using icr_hi_of[of v] by auto
qed

lemma icrlo_branches:
  "(if A \<and> V then Some a else if A \<or> N then (case t of None \<Rightarrow> None | Some y \<Rightarrow> Some (g y)) else if B1 then Some b1
    else if B2 then Some b2 else if B3 then (if B4 then Some b3 else Some b4) else Some b5) = None
    \<longleftrightarrow> (A \<and> \<not> V \<or> N \<and> \<not> (A \<and> V)) \<and> t = None"
  by (cases t) simp_all

lemma icrlo_None: "vlapic_icrlo_write_handler c m = None \<longleftrightarrow> wild_command (lapics m c) (icr_of (lapics m c))"
proof -
  define v where "v = lapics m c"
  define m1 where "m1 = upd_lapic c (upd_page (\<lambda>p. p\<lparr>icr_lo := icr_lo p AND NOT APIC_DELSTAT_PEND\<rparr>)) m"
  define w where "w = lapics m1 c"
  have w: "w = upd_page (\<lambda>p. p\<lparr>icr_lo := icr_lo p AND NOT APIC_DELSTAT_PEND\<rparr>) v"
    by (simp add: w_def m1_def v_def upd_lapic_def)
  have x: "x2apic w = x2apic v" "icr_hi (page w) = icr_hi (page v)" by (simp_all add: w upd_page_def x2apic_def)
  have f: "icr_of w AND APIC_VECTOR_MASK = icr_of v AND APIC_VECTOR_MASK" "icr_of w AND APIC_DELMODE_MASK = icr_of v AND APIC_DELMODE_MASK"
    "icr_of w AND (APIC_DEST_MASK OR APIC_DESTMODE_LOG) = icr_of v AND (APIC_DEST_MASK OR APIC_DESTMODE_LOG)"
    by (rule icr_masked[OF w], simp add: APIC_VECTOR_MASK_def APIC_DELMODE_MASK_def APIC_DEST_MASK_def APIC_DESTMODE_LOG_def)+
  let ?dest = "ucast (if x2apic w then drop_bit 32 (icr_of w) else drop_bit (32 + 24) (icr_of w)) :: u32"
  have d: "bit ?dest 31 \<and> \<not> (x2apic w \<and> ?dest = 0xffffffff \<or> \<not> x2apic w \<and> ?dest = 0xff) \<longleftrightarrow>
      x2apic v \<and> bit (icr_of v) 63 \<and> drop_bit 32 (icr_of v) \<noteq> 0xffffffff"
  proof (cases "x2apic v")
    case True
    then show ?thesis using icr_wild_dest[of v] by (simp only: x icr_hi_of if_True) auto
  next
    case False
    then show ?thesis using byte_bit by (simp only: x icr_top if_False) auto
  qed
  have "APIC_DELMODE_MASK AND 0xffffffff = APIC_DELMODE_MASK" "APIC_VECTOR_MASK AND 0xffffffff = APIC_VECTOR_MASK"
    by (simp_all add: APIC_VECTOR_MASK_def APIC_DELMODE_MASK_def)
  then have M: "(ucast (icr_of w AND APIC_DELMODE_MASK) :: u32) = APIC_DELMODE_FIXED \<longleftrightarrow> icr_of v AND APIC_DELMODE_MASK = 0"
    "(ucast (icr_of w AND APIC_DELMODE_MASK) :: u32) = APIC_DELMODE_NMI \<longleftrightarrow> icr_of v AND APIC_DELMODE_MASK = 0x400"
    "(ucast (icr_of w AND APIC_VECTOR_MASK) :: u32) < 16 \<longleftrightarrow> \<not> 16 \<le> icr_of v AND 0xff"
    using f by (simp_all add: field_low APIC_DELMODE_FIXED_def APIC_DELMODE_NMI_def not_le) (simp add: APIC_VECTOR_MASK_def)
  have T: "ipi_targets c (icr_of w) ?dest m1 = None \<longleftrightarrow>
      icr_of v AND (APIC_DEST_MASK OR APIC_DESTMODE_LOG) = 0 \<and> x2apic v \<and> bit (icr_of v) 63 \<and> drop_bit 32 (icr_of v) \<noteq> 0xffffffff"
    using d f(3) ipi_targets_None[of c "icr_of w" ?dest m1, folded w_def] by metis
  show ?thesis
    unfolding vlapic_icrlo_write_handler_def Let_def m1_def[symmetric] w_def[symmetric] icr_of_def[symmetric] v_def[symmetric]
      wild_command_def icrlo_branches M T by (cases "icr_of v AND APIC_DELMODE_MASK = 0") auto
qed

lemma silent_simps [simp]: "silent (Some m) = Some (0, False, m)" "silent r = None \<longleftrightarrow> r = None"
  by (simp_all add: silent_def)

lemma silent_Some: "silent r = Some (x, u, m') \<Longrightarrow> r = Some m'"
  by (auto simp: silent_def)

lemma icr_write_None:
  "vlapic_icrlo_write_handler c
     (upd_lapic c (\<lambda>v. upd_page (\<lambda>p. if x2apic v then p\<lparr>icr_lo := ucast data, icr_hi := ucast (drop_bit 32 data)\<rparr>
                                     else p\<lparr>icr_lo := ucast data\<rparr>) v) m) = None
   \<longleftrightarrow> wild_command (lapics m c) data"
proof (cases "x2apic (lapics m c)")
  case True
  let ?w = "upd_page (\<lambda>p. p\<lparr>icr_lo := ucast data, icr_hi := ucast (drop_bit 32 data)\<rparr>) (lapics m c)"
  have "icr_of ?w = data"
    by (rule bit_word_eqI) (auto simp: bit_icr upd_page_def bit_unsigned_iff bit_drop_bit_eq)
  moreover have "x2apic ?w" using True by (simp add: x2apic_def upd_page_def)
  ultimately show ?thesis using True unfolding icrlo_None by (simp add: upd_lapic_def wild_command_def)
next
  case False
  then show ?thesis unfolding icrlo_None by (simp add: upd_lapic_def wild_command_def) (simp add: x2apic_def upd_page_def)
qed

lemma silent_opt:
  assumes "vm_inv m" "\<And>v. lapic_inv v \<Longrightarrow> \<exists>w. f v = Some w \<and> lapic_inv w"
  shows "\<exists>m'. silent (upd_lapic_opt c f m) = Some (0, False, m') \<and> vm_inv m'"
  using inv_upd_opt[OF assms] by (auto simp: silent_def)

lemma lcore_page:
  "lcore (upd_page (\<lambda>p. p\<lparr>lapic_id := d\<rparr>) v) = lcore v" "lcore (upd_page (\<lambda>p. p\<lparr>ldr := d\<rparr>) v) = lcore v"
  "lcore (upd_page (\<lambda>p. p\<lparr>dfr := d\<rparr>) v) = lcore v" "lcore (upd_page (\<lambda>p. p\<lparr>svr := d\<rparr>) v) = lcore v"
  "lcore (upd_page (\<lambda>p. p\<lparr>icr_hi := d\<rparr>) v) = lcore v" "lcore (upd_page (\<lambda>p. p\<lparr>icr_timer := d\<rparr>) v) = lcore v"
  "lcore (upd_page (\<lambda>p. p\<lparr>dcr_timer := d\<rparr>) v) = lcore v" "lcore (upd_page (\<lambda>p. p\<lparr>lvt := (lvt p)(idx := d)\<rparr>) v) = lcore v"
  "lcore (upd_page (\<lambda>p. if b then p\<lparr>icr_lo := d, icr_hi := d'\<rparr> else p\<lparr>icr_lo := d\<rparr>) v) = lcore v"
  by (simp_all add: lcore_def upd_page_def)

lemma dcr_write_ok:
  assumes "lapic_inv v"
  shows "\<exists>w. vlapic_dcr_write_handler (upd_page (\<lambda>p. p\<lparr>dcr_timer := d\<rparr>) v) = Some w \<and> lapic_inv w"
  using dcr_ok[of "upd_page (\<lambda>p. p\<lparr>dcr_timer := d\<rparr>) v"] assms lapic_inv_lcore lcore_page(7)[of d v] by metis

lemma set_tpr_inv: "lapic_inv v \<Longrightarrow> \<exists>w. vlapic_set_tpr x v = Some w \<and> lapic_inv w"
  using set_tpr_ok by blast

lemma eoi_inv: "lapic_inv v \<Longrightarrow> \<exists>w. vlapic_process_eoi v = Some w \<and> lapic_inv w"
  using eoi_ok by blast

lemma self_ipi_inv:
  assumes "vm_inv m" "x2apic (lapics m c)"
  shows "\<exists>m'. silent (vlapic_self_ipi_handler c d m) = Some (0, False, m') \<and> vm_inv m'"
  using assms by (simp add: vlapic_self_ipi_handler_def lapic_intr_edge_def inv_set_intr)

text \<open>A write either succeeds and keeps the invariant, or is a wild command.\<close>

lemma write_reg_ok:
  assumes inv: "vm_inv m" and tame: "\<not> (off = 0x300 \<and> wild_command (lapics m c) data)"
  shows "\<exists>r u m'. write_reg t c off data m = Some (r, u, m') \<and> vm_inv m'"
proof (cases "off = 0x300")
  case True
  let ?m = "upd_lapic c (\<lambda>v. upd_page (\<lambda>p. if x2apic v then p\<lparr>icr_lo := ucast data, icr_hi := ucast (drop_bit 32 data)\<rparr>
                                     else p\<lparr>icr_lo := ucast data\<rparr>) v) m"
  have "vlapic_icrlo_write_handler c ?m \<noteq> None" using tame True unfolding icr_write_None by simp
  then obtain r u m' where r: "vlapic_icrlo_write_handler c ?m = Some (r, u, m')" by auto
  have "vm_inv ?m" by (rule inv_upd_core[OF inv]) (rule lcore_page(9))
  then have "vm_inv m'" using inv_ipi r by blast
  with r True show ?thesis by (simp add: write_reg_def Let_def)
next
  case False
  have plain: "\<exists>r u m'. silent (Some (upd_lapic c f m)) = Some (r, u, m') \<and> vm_inv m'" if "\<And>v. lcore (f v) = lcore v" for f
    using inv_upd_core[OF inv that] by auto
  have partial: "\<exists>r u m'. silent (upd_lapic_opt c f m) = Some (r, u, m') \<and> vm_inv m'"
    if "\<And>v. lapic_inv v \<Longrightarrow> \<exists>w. f v = Some w \<and> lapic_inv w" for f using silent_opt[of m f c, OF inv] that by blast
  have lvt: "\<exists>r u m'. (case i of None \<Rightarrow> silent (Some m) | Some idx \<Rightarrow> silent (Some (upd_lapic c (f idx) m))) = Some (r, u, m') \<and> vm_inv m'"
    if "\<And>idx v. lcore (f idx v) = lcore v" for i f using plain[OF that] inv by (cases i) auto
  have self: "\<exists>r u m'. (if x2apic (lapics m c) then silent (vlapic_self_ipi_handler c data m) else silent (Some m)) = Some (r, u, m') \<and> vm_inv m'"
    using self_ipi_inv[OF inv, of c data] inv by (cases "x2apic (lapics m c)") (simp, blast, auto)
  have ifs: "(P \<Longrightarrow> \<exists>r u m'. a = Some (r, u, m') \<and> vm_inv m') \<Longrightarrow> (\<not> P \<Longrightarrow> \<exists>r u m'. b = Some (r, u, m') \<and> vm_inv m')
     \<Longrightarrow> \<exists>r u m'. (if P then a else b) = Some (r, u, m') \<and> vm_inv m'" for P a b by (cases P) auto
  show ?thesis unfolding write_reg_def Let_def
    by (intro ifs plain partial lvt self set_tpr_inv eoi_inv dcr_write_ok; (simp add: lcore_page False)?)
qed

lemma mmio_ok:
  assumes "vm_inv m" "off AND 0xf = 0" "unat off < 0x1000" "\<not> (off = 0x300 \<and> wild_command (lapics m c) data \<and> \<not> mmio)"
  shows "\<exists>r u m'. vlapic_write t c mmio off data m = Some (r, u, m') \<and> vm_inv m'"
proof (cases "unat off > 0x400 \<or> x2apic (lapics m c) = mmio")
  case True
  then show ?thesis using assms by (auto simp: vlapic_write_def XHYVE_PAGE_SIZE_def)
next
  case False
  have "\<not> (unat off = 0x300 \<and> wild_command (lapics m c) data)"
  proof
    assume a: "unat off = 0x300 \<and> wild_command (lapics m c) data"
    then have "off = 0x300" by (simp add: word_unat_eq_iff)
    moreover have "\<not> mmio" using a False by (auto simp: wild_command_def)
    ultimately show False using a assms(4) by blast
  qed
  from write_reg_ok[OF assms(1) this] show ?thesis using False assms by (simp add: vlapic_write_def XHYVE_PAGE_SIZE_def)
qed

lemma regoff:
  assumes "0x800 \<le> msr" "msr \<le> 0xBFF"
  shows "unat (ucast (x2apic_msr_to_regoff msr) :: u64) = 16 * (unat msr - 0x800)"
    and "(ucast (x2apic_msr_to_regoff msr) :: u64) AND 0xf = 0"
proof -
  have u: "unat (msr - 0x800) = unat msr - 0x800" using assms by (simp add: unat_sub)
  moreover have "unat msr \<le> 0xBFF" using assms(2) by (simp add: word_le_nat_alt)
  ultimately have "unat (msr - 0x800) \<le> 0x3ff" by simp
  moreover have "unat (push_bit 4 x) = 16 * unat x" if "unat x \<le> 0x3ff" for x :: u32
    unfolding unsigned_push_bit_eq using that by (simp add: take_bit_nat_eq_self push_bit_eq_mult)
  ultimately have "unat (push_bit 4 (msr - 0x800)) = 16 * (unat msr - 0x800)" using u by metis
  then show "unat (ucast (x2apic_msr_to_regoff msr) :: u64) = 16 * (unat msr - 0x800)"
    unfolding unat_up x2apic_msr_to_regoff_def .
  have m: "(0xf :: u64) = Bit_Operations.mask 4" by (simp add: mask_eq_exp_minus_1)
  show "(ucast (x2apic_msr_to_regoff msr) :: u64) AND 0xf = 0"
    unfolding m by (rule bit_word_eqI) (auto simp: bit_and_iff bit_mask_iff x2apic_msr_to_regoff_def bit_unsigned_iff bit_push_bit_iff)
qed

lemma wrmsr_step:
  assumes "vm_inv m"
  shows "if fatal (Wrmsr t c msr d) m then lapic_step (Wrmsr t c msr d) m = None
         else \<exists>m'. lapic_step (Wrmsr t c msr d) m = Some m' \<and> vm_inv m'"
proof (cases "0x800 \<le> msr \<and> msr \<le> 0xBFF")
  case False
  have "\<not> fatal (Wrmsr t c msr d) m" using False by (auto simp: word_le_nat_alt)
  moreover have "lapic_msr msr \<longleftrightarrow> unat msr = MSR_APICBASE" using False by (auto simp: lapic_msr_def x2apic_msr_def word_le_nat_alt)
  ultimately show ?thesis using assms by (simp only: if_False lapic_step.simps) (simp add: lapic_wrmsr_def)
next
  case True
  define off where "off = (ucast (x2apic_msr_to_regoff msr) :: u64)"
  have off: "unat off = 16 * (unat msr - 0x800)" "off AND 0xf = 0" using regoff True unfolding off_def by blast+
  have msr: "lapic_msr msr" "unat msr \<noteq> MSR_APICBASE" "0x800 \<le> unat msr"
    using True by (auto simp: lapic_msr_def x2apic_msr_def word_le_nat_alt MSR_APICBASE_def)
  have big: "unat off < 0x1000 \<longleftrightarrow> msr < 0x900" using off msr by (auto simp: word_less_nat_alt)
  have icr: "off = 0x300 \<longleftrightarrow> msr = 0x830" using off msr by (auto simp: word_unat_eq_iff)
  have step: "lapic_step (Wrmsr t c msr d) m = map_option (snd \<circ> snd) (vlapic_write t c False off d m)"
    using msr by (simp add: lapic_wrmsr_def off_def)
  show ?thesis
  proof (cases "msr < 0x900")
    case False
    then have "fatal (Wrmsr t c msr d) m" using True by (simp add: not_less)
    moreover have "vlapic_write t c False off d m = None" using False big by (simp add: vlapic_write_def XHYVE_PAGE_SIZE_def)
    ultimately show ?thesis using step by simp
  next
    case small: True
    then have f: "fatal (Wrmsr t c msr d) m \<longleftrightarrow> msr = 0x830 \<and> wild_command (lapics m c) d" by auto
    show ?thesis
    proof (cases "msr = 0x830 \<and> wild_command (lapics m c) d")
      case wild: True
      then have "off = 0x300" "x2apic (lapics m c)" using icr by (auto simp: wild_command_def)
      then have "vlapic_write t c False off d m = None"
        using wild by (simp add: vlapic_write_def XHYVE_PAGE_SIZE_def write_reg_def Let_def icr_write_None)
      then show ?thesis using step f wild by simp
    next
      case tame: False
      then have "\<exists>r u m'. vlapic_write t c False off d m = Some (r, u, m') \<and> vm_inv m'"
        using mmio_ok[OF assms off(2)] big small icr by blast
      then show ?thesis using step f tame by auto
    qed
  qed
qed

lemma mmio_step:
  assumes "vm_inv m"
  shows "\<exists>m'. lapic_step (MmioWrite t c gpa d sz) m = Some m' \<and> vm_inv m'"
proof (cases "(DEFAULT_APIC_BASE \<le> gpa \<and> gpa < DEFAULT_APIC_BASE + word_of_nat XHYVE_PAGE_SIZE) \<and> sz = 4 \<and> (gpa - DEFAULT_APIC_BASE) AND 0xf = 0")
  case True
  let ?off = "gpa - DEFAULT_APIC_BASE"
  have "unat ?off < 0x1000"
    using True by (simp add: unat_sub) (auto simp: word_less_nat_alt word_le_nat_alt DEFAULT_APIC_BASE_def XHYVE_PAGE_SIZE_def)
  then have "\<exists>r u m'. vlapic_write t c True ?off d m = Some (r, u, m') \<and> vm_inv m'" using True by (intro mmio_ok[OF assms]) auto
  then show ?thesis using True by (auto simp: lapic_mmio_write_def Let_def)
next
  case False
  then have "lapic_step (MmioWrite t c gpa d sz) m = Some m" by (auto simp: lapic_mmio_write_def Let_def)
  then show ?thesis using assms by blast
qed

lemma accept_step:
  assumes "vm_inv m"
  shows "\<exists>m'. lapic_step (Accept c) m = Some m' \<and> vm_inv m'"
proof (cases "vlapic_pending_intr (lapics m c)")
  case None
  then show ?thesis using assms by simp
next
  case (Some n)
  have "lapic_inv (lapics m c)" using assms by (simp add: vm_inv_def)
  from accept_ok[OF this Some] obtain w where "vlapic_intr_accepted n (lapics m c) = Some w" "lapic_inv w" by blast
  then show ?thesis using assms Some by (simp add: upd_lapic_opt_def vm_inv_def)
qed

lemma cr8_ok: "lapic_inv v \<Longrightarrow> \<exists>w. vlapic_set_cr8 x v = Some w \<and> lapic_inv w"
  unfolding vlapic_set_cr8_def using set_tpr_inv[of v] lapic_inv_lcore[OF lcore_emit] by auto

lemma step_total:
  assumes inv: "vm_inv m" and ok: "\<not> fatal op m"
  shows "\<exists>m'. lapic_step op m = Some m' \<and> vm_inv m'"
proof (cases op)
  case (Msi addr msg)
  let ?d = "ucast (drop_bit 12 addr AND 0xff) :: u32"
  have "\<not> bit ?d 31" by (simp add: bit_unsigned_iff bit_and_iff)
  then obtain m' where "vlapic_deliver_intr ?d (addr AND (MSI_X86_ADDR_RH OR MSI_X86_ADDR_LOG) \<noteq> (MSI_X86_ADDR_RH OR MSI_X86_ADDR_LOG))
     (ucast (msg AND APIC_DELMODE_MASK)) (ucast (msg AND 0xff)) m = Some m'" using deliver_ok by blast
  then show ?thesis using inv inv_deliver Msi by (auto simp: lapic_intr_msi_def Let_def)
next
  case (DeliverIntr dest phys delmode vec)
  then show ?thesis using deliver_ok[OF byte_bit] inv_deliver[OF inv] by (metis lapic_step.simps(4))
next
  case (SetTmrLvl c dest phys delmode vec)
  have "unat vec \<le> 255" using unsigned_less[where 'a = nat and w = vec] by simp
  then have "\<exists>m'. vlapic_set_tmr_level c (ucast dest) phys delmode (unat vec) m = Some m'"
    unfolding vlapic_set_tmr_level_def using calcdest_byte[of m dest phys "delmode = APIC_DELMODE_LOWPRIO"] by auto
  then show ?thesis using SetTmrLvl inv_tmr_level[OF inv] by auto
next
  case (Wrmsr t c msr d)
  then show ?thesis using wrmsr_step[OF inv, of t c msr d] ok by presburger
next
  case (MmioWrite t c gpa d sz)
  then show ?thesis using mmio_step[OF inv] by simp
next
  case (Accept c)
  then show ?thesis using accept_step[OF inv] by simp
next
  case (Cr8 c x)
  then show ?thesis using inv_upd_opt[OF inv cr8_ok] by simp
next
  case (TimerFires t c)
  have "lcore (v\<lparr>lapic_pending := False\<rparr>) = lcore v" for v by (simp add: lcore_def)
  then show ?thesis using TimerFires by (auto intro!: inv_upd_core[OF inv])
next
  case (Activate c)
  then show ?thesis using inv by (simp add: vm_activate_cpu_def vm_inv_def)
qed (auto simp: lapic_set_local_intr_def Let_def inv inv_set_intr inv_trigger intro!: inv_upd_core[OF inv])

lemma step_None: "vm_inv m \<Longrightarrow> lapic_step op m = None \<longleftrightarrow> fatal op m"
proof
  assume a: "vm_inv m" "fatal op m"
  then obtain t c msr d where op: "op = Wrmsr t c msr d" by (auto elim: fatal.elims)
  show "lapic_step op m = None" using wrmsr_step[OF a(1), of t c msr d] a(2) unfolding op by presburger
qed (use step_total in fastforce)

lemma vm_init_inv: "vm_inv vm_init_lapics"
proof -
  have "lapic_inv (case vlapic_init c of Some v \<Rightarrow> vlapic_set_x2apic_state False v)" for c
    using init_ok[of c] lapic_inv_lcore[OF lcore_registers(8)] by auto
  then show ?thesis by (simp add: vm_inv_def vm_init_lapics_def)
qed

interpretation apics: partial_machine "\<lambda>m. m = vm_init_lapics" lapic_step vm_inv
proof
  show "vm_inv m \<Longrightarrow> lapic_step op m = Some m' \<Longrightarrow> vm_inv m'" for m op m'
    using step_total[of m op] step_None[of m op] by fastforce
qed (simp add: vm_init_inv)

lemma run_ok: "(\<And>op m. op \<in> set ops \<Longrightarrow> \<not> fatal op m) \<Longrightarrow> vm_inv m \<Longrightarrow> \<exists>m'. run_opt lapic_step ops m = Some m'"
proof (induction ops arbitrary: m)
  case (Cons op ops)
  then obtain m1 where "lapic_step op m = Some m1" "vm_inv m1" using step_total[of m op] by auto
  then show ?case using Cons by simp
qed simp



section \<open>Nested interrupts as a stack of priorities\<close>

lemma update_ppr_base: "vlapic_update_ppr v = Some w \<Longrightarrow> msr_apicbase w = msr_apicbase v"
  unfolding vlapic_update_ppr_def Let_def by (auto simp: upd_page_def split: if_splits)

lemma accepted_base: "vlapic_intr_accepted n v = Some w \<Longrightarrow> x2apic w = x2apic v"
  unfolding vlapic_intr_accepted_def Let_def
  by (auto simp: upd_page_def x2apic_def dest!: update_ppr_base split: if_splits)

definition EOI_GPA :: u64 where "EOI_GPA = DEFAULT_APIC_BASE + 0xB0"

lemma eoi_step:
  assumes "\<not> x2apic (lapics m c)"
  shows "lapic_step (MmioWrite t c EOI_GPA d 4) m = upd_lapic_opt c vlapic_process_eoi m"
proof -
  have "unat (0xB0 :: u64) = 0xB0" by simp
  then show ?thesis
    using assms by (simp add: lapic_mmio_write_def EOI_GPA_def DEFAULT_APIC_BASE_def XHYVE_PAGE_SIZE_def vlapic_write_def
        write_reg_def Let_def silent_def option.map_comp comp_def option.map_ident)
qed

lemma pending_max:
  assumes "vlapic_pending_intr v = Some n" "k < 256" "vec_bit (irr (page v)) k"
  shows "k \<le> n"
proof -
  have n: "vectors (irr (page v)) \<noteq> []" "n = last (vectors (irr (page v)))"
    using assms(1) unfolding vlapic_pending_intr_def scan_last by (auto split: if_splits)
  have "k \<in> set (vectors (irr (page v)))" using assms by (simp add: vectors_mem)
  moreover have "vectors (irr (page v)) = butlast (vectors (irr (page v))) @ [n]" using n by simp
  moreover have "sorted_wrt (<) (butlast (vectors (irr (page v))) @ [n])" using vectors_sorted[of "irr (page v)"] calculation(2) by metis
  ultimately show ?thesis by (metis (no_types, lifting) Un_iff empty_iff empty_set leI less_imp_le order.irrefl set_ConsD set_append sorted_wrt_append list.set_intros(1))
qed

text \<open>
  C11 (refinement). The interrupts a virtual CPU is servicing are a stack ordered by priority: the pending interrupt
  is the highest requested vector and of a higher class than the task priority and everything in service; accepting it pushes
  it and withdraws the request, and the next write to the end-of-interrupt register pops exactly it, passing it to the I/O APIC when its trigger
  mode is level.
\<close>

theorem nested_interrupt_stack:
  assumes inv: "vm_inv m" and mode: "\<not> x2apic (lapics m c)" and pend: "vlapic_pending_intr (lapics m c) = Some n"
  shows "\<exists>m1 m2. lapic_step (Accept c) m = Some m1 \<and> lapic_step (MmioWrite t c EOI_GPA d 4) m1 = Some m2
    \<and> in_service (lapics m1 c) = in_service (lapics m c) @ [n]
    \<and> in_service (lapics m2 c) = in_service (lapics m c)
    \<and> (\<forall>k. k \<in> set (vectors (irr (page (lapics m c)))) \<longrightarrow> k \<le> n)
    \<and> (\<forall>k. k \<in> set (in_service (lapics m c)) \<longrightarrow> PRIO k < PRIO n)
    \<and> PRIO (unat (tpr (page (lapics m c)))) < PRIO n
    \<and> irr (page (lapics m2 c)) = vec_clear n (irr (page (lapics m c)))
    \<and> evts (lapics m2 c) = evts (lapics m c) @ (if vec_bit (tmr (page (lapics m c))) n then [EoiToIoapic n] else [])"
proof -
  let ?v = "lapics m c"
  have li: "lapic_inv ?v" using inv by (simp add: vm_inv_def)
  obtain w where w: "vlapic_intr_accepted n ?v = Some w" "lapic_inv w" "in_service w = in_service ?v @ [n]"
    "irr (page w) = vec_clear n (irr (page ?v))" "tmr (page w) = tmr (page ?v)" "evts w = evts ?v"
    using accept_ok[OF li pend] by blast
  define m1 where "m1 = m\<lparr>lapics := (lapics m)(c := w)\<rparr>"
  have s1: "lapic_step (Accept c) m = Some m1" "lapics m1 c = w" using w(1) pend by (simp_all add: upd_lapic_opt_def m1_def)
  have x: "\<not> x2apic (lapics m1 c)" using accepted_base[OF w(1)] mode s1 by simp
  obtain u where u: "vlapic_process_eoi w = Some u" "in_service u = butlast (in_service w)" "irr (page u) = irr (page w)"
    "evts u = evts w @ (if in_service w \<noteq> [] \<and> vec_bit (tmr (page w)) (last (in_service w)) then [EoiToIoapic (last (in_service w))] else [])"
    using eoi_ok[OF w(2)] by blast
  define m2 where "m2 = m1\<lparr>lapics := (lapics m1)(c := u)\<rparr>"
  have s2: "lapic_step (MmioWrite t c EOI_GPA d 4) m1 = Some m2" "lapics m2 c = u"
    unfolding eoi_step[OF x] using u(1) s1 by (simp_all add: upd_lapic_opt_def m2_def)
  have "\<forall>k. k \<in> set (vectors (irr (page ?v))) \<longrightarrow> k \<le> n" using pending_max[OF pend] by (simp add: vectors_mem)
  then show ?thesis using s1 s2 u w pending_some(4,5)[OF li pend] by (intro exI[of _ m1] exI[of _ m2]) simp
qed

text \<open>An APIC with nothing in service and vector 0x41 requested in level mode.\<close>

definition one_pending :: lapic_vm where
  "one_pending = \<lparr>lapics = (\<lambda>_. \<lparr>vcpuid = 0, page = zero_page\<lparr>svr := 0x1ff, irr := vec_set 0x41 (\<lambda>_. 0), tmr := vec_set 0x41 (\<lambda>_. 0)\<rparr>,
     esr_pending = 0, esr_firing = False, lapic_active = False, lapic_pending = False, timer_fire_bt = \<lparr>bt_sec = 0, bt_frac = 0\<rparr>,
     timer_freq_bt = \<lparr>bt_sec = 0, bt_frac = 1\<rparr>, timer_period_bt = \<lparr>bt_sec = 0, bt_frac = 0\<rparr>, timer_sbt = 0, isrvec_stk = (\<lambda>_. 0),
     isrvec_stk_top = 0, msr_apicbase = DEFAULT_APIC_BASE OR APICBASE_ENABLED, boot_st = BS_RUNNING, svr_last = 0x1ff, lvt_last = (\<lambda>_. 0),
     evts = []\<rparr>), active_cpus = 1, spinup_ap = (\<lambda>_. None)\<rparr>"

lemma one_pending_facts:
  "vm_inv one_pending" "\<not> x2apic (lapics one_pending 0)" "vlapic_pending_intr (lapics one_pending 0) = Some 0x41"
proof -
  have z: "vectors (\<lambda>_. 0) = []" by (rule zero_vectors)
  show "vm_inv one_pending"
    by (simp add: vm_inv_def one_pending_def lapic_inv_def stack_inv_def in_service_def ppr_of_def isrv_def zero_page_def z)
  show "\<not> x2apic (lapics one_pending 0)"
    by (simp add: one_pending_def x2apic_def DEFAULT_APIC_BASE_def APICBASE_ENABLED_def APICBASE_X2APIC_def)
  have "vectors (vec_set 0x41 (\<lambda>_. 0)) = [0x41]" using vectors_push[where n = 65 and r = "\<lambda>_. 0"] z by simp
  then show "vlapic_pending_intr (lapics one_pending 0) = Some 0x41"
    unfolding vlapic_pending_intr_def scan_last by (simp add: one_pending_def PRIO_def zero_page_def)
qed

theorem nested_interrupt_stack_witness:
  "\<exists>m1 m2. lapic_step (Accept 0) one_pending = Some m1
    \<and> lapic_step (MmioWrite \<lparr>bt_sec = 0, bt_frac = 0\<rparr> 0 EOI_GPA 0 4) m1 = Some m2
    \<and> in_service (lapics m1 0) = [0x41] \<and> in_service (lapics m2 0) = [] \<and> evts (lapics m2 0) = [EoiToIoapic 0x41]"
proof -
  have "in_service (lapics one_pending 0) = []" "evts (lapics one_pending 0) = []" "vec_bit (tmr (page (lapics one_pending 0))) 0x41"
    by (simp_all add: one_pending_def in_service_def vec_bit_set)
  with nested_interrupt_stack[OF one_pending_facts, of "\<lparr>bt_sec = 0, bt_frac = 0\<rparr>" 0] show ?thesis
    by (auto simp del: lapic_step.simps)
qed

end
