(* ===== verification/Intr_path.thy ===== *)
theory Intr_path
  imports Vmm_lapic
begin

text \<open>
  The I/O APIC and the local APICs together. In the code \<^verbatim>\<open>vioapic_send_intr\<close> calls \<^verbatim>\<open>vlapic_deliver_intr\<close>, a write to the
  redirection table runs \<^verbatim>\<open>vioapic_update_tmr\<close> on every active virtual CPU, and \<^verbatim>\<open>vlapic_process_eoi\<close> calls
  \<^verbatim>\<open>vioapic_process_eoi\<close>; the two components log these calls, and the definitions here perform them. Neither side reads what the
  other changes during a call, so performing the logged calls after the operation is what the code does.
\<close>

section \<open>Calls between the components\<close>

record intr_sys =
  io :: vioapic
  apics :: lapic_vm

fun tmr_call_on :: "nat \<Rightarrow> tmr_call \<Rightarrow> lapic_vm \<Rightarrow> lapic_vm option" where
  "tmr_call_on c ResetTmr m = Some (upd_lapic c vlapic_reset_tmr m)"
| "tmr_call_on c (SetTmrLevel dest phys delmode vec) m = vlapic_set_tmr_level c dest phys delmode (unat vec) m"

definition update_tmr :: "vioapic \<Rightarrow> nat \<Rightarrow> lapic_vm \<Rightarrow> lapic_vm option" where
  "update_tmr v c m = run_opt (tmr_call_on c) (vioapic_update_tmr v) m"

fun perform :: "vioapic \<Rightarrow> ioapic_msg \<Rightarrow> lapic_vm \<Rightarrow> lapic_vm option" where
  "perform v (Deliver level dest phys delmode vec) m = vlapic_deliver_intr dest phys delmode vec m"
| "perform v (UpdateTmr vcpu) m = run_opt (update_tmr v) (cpus_of (active_cpus m)) m"

definition io_call :: "(vioapic \<Rightarrow> vioapic) \<Rightarrow> intr_sys \<Rightarrow> intr_sys option" where
  "io_call f s =
     (let v = f (io s)
      in map_option (\<lambda>m. \<lparr>io = v, apics = m\<rparr>) (run_opt (perform v) (drop (length (msgs (io s))) (msgs v)) (apics s)))"

definition irq_line :: "nat \<Rightarrow> bool \<Rightarrow> intr_sys \<Rightarrow> intr_sys option" where
  "irq_line pin level s = io_call (vioapic_set_pinstate pin level) s"

definition cpu_accept :: "nat \<Rightarrow> intr_sys \<Rightarrow> intr_sys option" where
  "cpu_accept c s =
     (case vlapic_pending_intr (lapics (apics s) c) of
        None \<Rightarrow> Some s
      | Some n \<Rightarrow> map_option (\<lambda>m. s\<lparr>apics := m\<rparr>) (upd_lapic_opt c (vlapic_intr_accepted n) (apics s)))"

fun forward :: "lapic_event \<Rightarrow> intr_sys \<Rightarrow> intr_sys option" where
  "forward (EoiToIoapic n) s = io_call (vioapic_process_eoi (int n)) s"
| "forward e s = Some s"

definition cpu_eoi :: "nat \<Rightarrow> intr_sys \<Rightarrow> intr_sys option" where
  "cpu_eoi c s =
     (case vlapic_process_eoi (lapics (apics s) c) of
        None \<Rightarrow> None
      | Some v \<Rightarrow>
          run_opt forward (drop (length (evts (lapics (apics s) c))) (evts v))
            (s\<lparr>apics := (apics s)\<lparr>lapics := (lapics (apics s))(c := v)\<rparr>\<rparr>))"

section \<open>Trigger modes\<close>

text \<open>The virtual CPUs an entry of the redirection table can reach, and whether its interrupts are level triggered there.\<close>

definition entry_targets :: "lapic_vm \<Rightarrow> u64 \<Rightarrow> u64 option" where
  "entry_targets m r =
     vlapic_calcdest m (drop_bit 24 (ucast (drop_bit 32 r))) (\<not> bit r 11) (ucast (r AND IOART_DELMOD) = APIC_DELMODE_LOWPRIO) False"

definition level_entry :: "lapic_vm \<Rightarrow> nat \<Rightarrow> u64 \<Rightarrow> nat \<Rightarrow> bool" where
  "level_entry m c r n \<longleftrightarrow> bit r 15 \<and> unat (r AND IOART_INTVEC) = n
     \<and> (ucast (r AND IOART_DELMOD) :: u32) \<in> {APIC_DELMODE_FIXED, APIC_DELMODE_LOWPRIO}
     \<and> (case entry_targets m r of None \<Rightarrow> False | Some dmask \<Rightarrow> bit dmask c)"

text \<open>What routing depends on.\<close>

definition route :: "lapic_vm \<Rightarrow> u64 \<times> (nat \<Rightarrow> u32 \<times> u32 \<times> u64)" where
  "route m = (active_cpus m, \<lambda>c. (dfr (page (lapics m c)), ldr (page (lapics m c)), msr_apicbase (lapics m c)))"

lemma calcdest_route:
  assumes "route m = route m'"
  shows "vlapic_calcdest m = vlapic_calcdest m'"
proof -
  have a: "active_cpus m = active_cpus m'" using assms by (simp add: route_def)
  have "snd (route m) c = snd (route m') c" for c using assms by simp
  then have "dfr (page (lapics m c)) = dfr (page (lapics m' c)) \<and> ldr (page (lapics m c)) = ldr (page (lapics m' c))
    \<and> msr_apicbase (lapics m c) = msr_apicbase (lapics m' c)" for c by (simp add: route_def)
  then have "logical_match d x (lapics m c) = logical_match d x (lapics m' c)" for d x c
    unfolding logical_match_def x2apic_def by presburger
  then show ?thesis unfolding vlapic_calcdest_def fun_eq_iff a by presburger
qed

lemma reset_tmr_page: "vlapic_reset_tmr v = upd_page (\<lambda>p. p\<lparr>tmr := fold vec_clear [0..<256] (tmr p)\<rparr>) v"
proof -
  have "fold (\<lambda>vector. vlapic_set_tmr vector False) xs v = upd_page (\<lambda>p. p\<lparr>tmr := fold vec_clear xs (tmr p)\<rparr>) v" for xs v
    by (induction xs arbitrary: v) (simp_all add: vlapic_set_tmr_def upd_page_def)
  then show ?thesis by (simp only: vlapic_reset_tmr_def)
qed

lemma cleared_vectors: "vectors (fold vec_clear [0..<256] r) = []"
proof -
  have "vec_bit (fold vec_clear xs r) n \<longleftrightarrow> vec_bit r n \<and> n \<notin> set xs" for xs r n
    by (induction xs arbitrary: r) (auto simp: vec_bit_clear)
  then show ?thesis by (simp add: vectors_def filter_empty_conv del: upt_rec_numeral)
qed

lemma drop24: "\<not> bit (drop_bit 24 (w :: u32)) 31"
  using bit_imp_le_length[of w 55] by (auto simp: bit_drop_bit_eq)

lemma targets_total: "\<exists>d. entry_targets m r = Some d"
  unfolding entry_targets_def using calcdest_None drop24 by (metis not_None_eq)

definition entry_calls :: "u64 \<Rightarrow> tmr_call list" where
  "entry_calls r =
     (if bit r 15
      then [SetTmrLevel (drop_bit 24 (ucast (drop_bit 32 r))) (\<not> bit r 11) (ucast (r AND IOART_DELMOD)) (ucast (r AND IOART_INTVEC))]
      else [])"

lemma update_tmr_calls: "vioapic_update_tmr v = ResetTmr # concat (map (\<lambda>pin. entry_calls (reg (rtbl v pin))) [0..<24])"
proof -
  have f: "(w AND 0xffffffff) AND IOART_DELMOD = w AND IOART_DELMOD" "(w AND 0xffffffff) AND IOART_INTVEC = w AND IOART_INTVEC" for w :: u64
    by (simp_all add: low_field ioart_consts)
  show ?thesis
    unfolding vioapic_update_tmr_def Let_def f ioart_bits bit_low entry_calls_def APIC_ID_SHIFT_def REDIR_ENTRIES_def
    by (simp del: upt_rec_numeral) (rule arg_cong[where f = concat], rule map_cong, simp_all)
qed

lemma intvec: "unat (ucast (r AND IOART_INTVEC) :: u32) = unat (r AND IOART_INTVEC)" "unat (r AND IOART_INTVEC) < 256"
proof -
  have k: "IOART_INTVEC AND 0xffffffff = IOART_INTVEC" by (simp add: IOART_INTVEC_def)
  have "ucast (ucast (r AND IOART_INTVEC) :: u32) = r AND IOART_INTVEC" by (rule ucast_low) (simp add: k and.assoc)
  then show "unat (ucast (r AND IOART_INTVEC) :: u32) = unat (r AND IOART_INTVEC)" using unat_up by metis
  have "r AND IOART_INTVEC = take_bit 8 r" by (simp add: IOART_INTVEC_def take_bit_eq_mask mask_eq_exp_minus_1)
  then have "unat (r AND IOART_INTVEC) = take_bit 8 (unat r)" by (simp add: unsigned_take_bit_eq)
  then show "unat (r AND IOART_INTVEC) < 256" using take_bit_nat_less_exp[of 8 "unat r"] by simp
qed

definition mark_level :: "lapic_vm \<Rightarrow> nat \<Rightarrow> u64 \<Rightarrow> lapic_vm" where
  "mark_level m c r =
     (if level_entry m c r (unat (r AND IOART_INTVEC)) then upd_lapic c (vlapic_set_tmr (unat (r AND IOART_INTVEC)) True) m else m)"

lemma run_entry: "run_opt (tmr_call_on c) (entry_calls r) m = Some (mark_level m c r)"
proof -
  obtain d where d: "entry_targets m r = Some d" using targets_total by blast
  show ?thesis
    using intvec[of r] d
    by (auto simp: entry_calls_def mark_level_def level_entry_def vlapic_set_tmr_level_def entry_targets_def)
qed

lemma run_append_opt: "run_opt f (xs @ ys) s = (case run_opt f xs s of None \<Rightarrow> None | Some t \<Rightarrow> run_opt f ys t)"
  by (induction xs arbitrary: s) (auto split: option.splits)

lemma run_entries: "run_opt (tmr_call_on c) (concat (map (\<lambda>pin. entry_calls (f pin)) pins)) m = Some (fold (\<lambda>pin m. mark_level m c (f pin)) pins m)"
  by (induction pins arbitrary: m) (simp_all add: run_append_opt run_entry)

lemma mark_level_sel:
  "route (mark_level m c r) = route m" "k \<noteq> c \<Longrightarrow> lapics (mark_level m c r) k = lapics m k"
  "vec_bit (tmr (page (lapics (mark_level m c r) c))) n \<longleftrightarrow> vec_bit (tmr (page (lapics m c))) n \<or> level_entry m c r n"
  by (auto simp: mark_level_def route_def upd_lapic_def vlapic_set_tmr_def upd_page_def vec_bit_set fun_eq_iff level_entry_def)

lemma level_entry_route: "route m = route m' \<Longrightarrow> level_entry m = level_entry m'"
  using calcdest_route[of m m'] by (intro ext) (simp add: level_entry_def entry_targets_def)

lemma mark_levels:
  "route (fold (\<lambda>pin m. mark_level m c (f pin)) pins m) = route m"
  "k \<noteq> c \<Longrightarrow> lapics (fold (\<lambda>pin m. mark_level m c (f pin)) pins m) k = lapics m k"
  "vec_bit (tmr (page (lapics (fold (\<lambda>pin m. mark_level m c (f pin)) pins m) c))) n \<longleftrightarrow>
     vec_bit (tmr (page (lapics m c))) n \<or> (\<exists>pin \<in> set pins. level_entry m c (f pin) n)"
proof (induction pins arbitrary: m)
  case (Cons pin pins)
  {
    case 1
    then show ?case using Cons.IH(1) by (simp add: mark_level_sel)
  next
    case 2
    then show ?case using Cons.IH(2) by (simp add: mark_level_sel)
  next
    case 3
    have "level_entry (mark_level m c (f pin)) = level_entry m" by (rule level_entry_route) (rule mark_level_sel)
    then show ?case using Cons.IH(3)[of "mark_level m c (f pin)"] by (auto simp: mark_level_sel)
  }
qed simp_all

lemma update_tmr_ok:
  "\<exists>m'. update_tmr v c m = Some m' \<and> route m' = route m \<and> (\<forall>k. k \<noteq> c \<longrightarrow> lapics m' k = lapics m k)
     \<and> vectors (tmr (page (lapics m' c))) = filter (\<lambda>n. \<exists>pin < 24. level_entry m c (reg (rtbl v pin)) n) [0..<256]"
proof -
  let ?m1 = "upd_lapic c vlapic_reset_tmr m"
  have r: "route ?m1 = route m" by (auto simp: route_def upd_lapic_def reset_tmr_page upd_page_def fun_eq_iff)
  have "vectors (tmr (page (lapics ?m1 c))) = []" by (simp add: upd_lapic_def reset_tmr_page upd_page_def cleared_vectors)
  then have z: "\<not> vec_bit (tmr (page (lapics ?m1 c))) n" if "n < 256" for n using that by (metis vectors_mem empty_iff empty_set)
  let ?m2 = "fold (\<lambda>pin m. mark_level m c (reg (rtbl v pin))) [0..<24] ?m1"
  have u: "update_tmr v c m = Some ?m2"
    unfolding update_tmr_def update_tmr_calls run_opt.simps tmr_call_on.simps option.case run_entries ..
  have "vec_bit (tmr (page (lapics ?m2 c))) n \<longleftrightarrow> (\<exists>pin < 24. level_entry m c (reg (rtbl v pin)) n)" if "n < 256" for n
    unfolding mark_levels(3) level_entry_route[OF r] using z[OF that] by (auto simp del: upt_rec_numeral)
  then have "vectors (tmr (page (lapics ?m2 c))) = filter (\<lambda>n. \<exists>pin < 24. level_entry m c (reg (rtbl v pin)) n) [0..<256]"
    unfolding vectors_def by (intro filter_cong) (simp_all del: upt_rec_numeral)
  moreover have "lapics ?m2 k = lapics m k" if "k \<noteq> c" for k
    using mark_levels(2)[OF that, of "\<lambda>pin. reg (rtbl v pin)" "[0..<24]" ?m1] that unfolding upd_lapic_def by simp
  moreover have "route ?m2 = route m" unfolding mark_levels(1) by (rule r)
  ultimately show ?thesis using u by blast
qed

lemma update_tmr_cpus:
  assumes "distinct cs"
  shows "\<exists>m'. run_opt (update_tmr v) cs m = Some m' \<and> (\<forall>c. c \<in> set cs \<longrightarrow>
     vectors (tmr (page (lapics m' c))) = filter (\<lambda>n. \<exists>pin < 24. level_entry m c (reg (rtbl v pin)) n) [0..<256])
     \<and> (\<forall>c. c \<notin> set cs \<longrightarrow> lapics m' c = lapics m c)"
  using assms
proof (induction cs arbitrary: m)
  case (Cons a cs)
  obtain m1 where m1: "update_tmr v a m = Some m1" "route m1 = route m" "\<forall>k. k \<noteq> a \<longrightarrow> lapics m1 k = lapics m k"
    "vectors (tmr (page (lapics m1 a))) = filter (\<lambda>n. \<exists>pin < 24. level_entry m a (reg (rtbl v pin)) n) [0..<256]"
    using update_tmr_ok by blast
  have le: "level_entry m1 = level_entry m" using m1(2) by (rule level_entry_route)
  obtain m' where m': "run_opt (update_tmr v) cs m1 = Some m'"
    "\<forall>c. c \<in> set cs \<longrightarrow> vectors (tmr (page (lapics m' c))) = filter (\<lambda>n. \<exists>pin < 24. level_entry m c (reg (rtbl v pin)) n) [0..<256]"
    "\<forall>c. c \<notin> set cs \<longrightarrow> lapics m' c = lapics m1 c"
    using Cons.IH[of m1] Cons.prems le by auto
  moreover have "lapics m' a = lapics m1 a" using m'(3) Cons.prems by simp
  ultimately show ?case using m1 by (intro exI[of _ m']) (auto simp del: upt_rec_numeral)
qed simp

text \<open>
  C15 (functional). When an entry of the redirection table changes, the trigger-mode register of every active virtual CPU is
  recomputed so that a vector is level triggered there exactly when some level-triggered entry with fixed or lowest-priority
  delivery sends that vector to it; only then does an end of interrupt reach the I/O APIC.
\<close>

theorem trigger_modes_exact:
  assumes "bit (active_cpus m) c"
  shows "\<exists>m'. perform v (UpdateTmr vcpu) m = Some m'
    \<and> vectors (tmr (page (lapics m' c))) = filter (\<lambda>n. \<exists>pin < 24. level_entry m c (reg (rtbl v pin)) n) [0..<256]"
proof -
  have "c \<in> set (cpus_of (active_cpus m))"
    using assms bit_imp_le_length[OF assms] by (simp add: cpus_of_def del: upt_rec_numeral)
  moreover have "distinct (cpus_of (active_cpus m))" by (simp add: cpus_of_def del: upt_rec_numeral)
  ultimately show ?thesis using update_tmr_cpus[of "cpus_of (active_cpus m)" v m] by auto
qed

section \<open>The life of a level-triggered interrupt\<close>

text \<open>An unmasked, level-triggered entry that sends vector \<open>n\<close> to the virtual CPU \<open>c\<close> by its identifier.\<close>

definition routed :: "nat \<Rightarrow> nat \<Rightarrow> u64 \<Rightarrow> bool" where
  "routed c n r \<longleftrightarrow> \<not> bit r 16 \<and> bit r 15 \<and> \<not> bit r 11 \<and> (ucast (r AND IOART_DELMOD) :: u32) = 0
     \<and> unat (r AND IOART_INTVEC) = n \<and> drop_bit 24 (ucast (drop_bit 32 r) :: u32) = word_of_nat c"

lemma routed_msg: "routed c n r \<Longrightarrow> entry_msg r = Deliver True (word_of_nat c) True 0 (ucast (r AND IOART_INTVEC))"
  by (simp add: routed_def entry_msg_def)

lemma field_bit14:
  fixes r k :: u64
  assumes "\<not> bit k 14"
  shows "set_bit 14 r AND k = r AND k" "unset_bit 14 r AND k = r AND k"
  by (rule bit_word_eqI; use assms in \<open>auto simp: bit_and_iff bit_set_bit_word bit_unset_bit_word\<close>)+

lemma drop32_bit14:
  fixes r :: u64
  shows "drop_bit 32 (set_bit 14 r) = drop_bit 32 r" "drop_bit 32 (unset_bit 14 r) = drop_bit 32 r"
  by (rule bit_word_eqI; auto simp: bit_drop_bit_eq bit_set_bit_word bit_unset_bit_word)+

lemma routed_rem [simp]: "routed c n (set_bit 14 r) = routed c n r" "routed c n (unset_bit 14 r) = routed c n r"
proof -
  have "\<not> bit IOART_DELMOD 14" "\<not> bit IOART_INTVEC 14" by (simp_all add: ioart_consts)
  then show "routed c n (set_bit 14 r) = routed c n r" "routed c n (unset_bit 14 r) = routed c n r"
    unfolding routed_def by (simp_all add: field_bit14 drop32_bit14 bit_set_bit_word bit_unset_bit_word)
qed

lemma cpus_single: "c < 64 \<Longrightarrow> cpus_of (2 ^ c) = [c]"
proof -
  assume c: "c < 64"
  have "bit ((2 :: u64) ^ c) n \<longleftrightarrow> n = c" if "n < 64" for n using that c by (subst bit_exp_iff) auto
  then have "set (cpus_of (2 ^ c)) = {c}" using c by (auto simp: cpus_of_def simp del: upt_rec_numeral)
  moreover have "sorted_wrt (<) (cpus_of (2 ^ c))" unfolding cpus_of_def by (intro sorted_wrt_filter) simp
  ultimately show ?thesis using strict_sorted_equal[of "cpus_of (2 ^ c)" "[c]"] by simp
qed

lemma deliver_to:
  assumes "c < 64" "16 \<le> n" "n < 256" "svr (page (lapics m c)) AND APIC_SVR_ENABLE \<noteq> 0" "unat (vec :: u32) = n"
  shows "vlapic_deliver_intr (word_of_nat c) True 0 vec m =
    Some (upd_lapic c (\<lambda>v. emit NotifyVcpu (upd_page (\<lambda>p. p\<lparr>irr := vec_set n (irr p)\<rparr>) v)) m)"
proof -
  have u: "unat (word_of_nat c :: u32) = c" using assms(1) by (simp add: unsigned_of_nat take_bit_nat_eq_self)
  have ne: "(word_of_nat c :: u32) \<noteq> 0xff" using u assms(1) by auto
  have "uint (word_of_nat c :: u32) = int c" using u by (metis uint_nat)
  then have "sint (word_of_nat c :: u32) = int c" using assms(1) by (simp add: sint_uint signed_take_bit_int_eq_self_iff)
  then have d: "vlapic_calcdest m (word_of_nat c) True False False = Some (set_bit c 0)"
    using ne u assms(1) by (simp add: vlapic_calcdest_def VM_MAXCPU_def)
  have v: "uint vec = int n" using assms(5) by (metis uint_nat)
  have i: "snd (lapic_set_intr (int c) (int n) m) =
     upd_lapic c (\<lambda>v. emit NotifyVcpu (upd_page (\<lambda>p. p\<lparr>irr := vec_set n (irr p)\<rparr>) v)) m"
    using assms by (simp add: lapic_set_intr_def VM_MAXCPU_def upd_lapic_def vlapic_set_intr_ready_def set_intr_ready_with_def)
  show ?thesis
    unfolding vlapic_deliver_intr_def by (simp add: IOART_DELFIXED_def IOART_DELLOPRI_def IOART_DELEXINT_def d cpus_single[OF assms(1)] v i)
qed

text \<open>
  The pin has been asserted \<open>k\<close> times, its remote IRR bit is \<open>rem\<close>, the virtual CPU has the vector requested or not and is servicing
  the vectors \<open>serv\<close>; no other pin uses the vector.
\<close>

definition lvl :: "nat \<Rightarrow> nat \<Rightarrow> nat \<Rightarrow> int \<Rightarrow> bool \<Rightarrow> bool \<Rightarrow> nat list \<Rightarrow> intr_sys \<Rightarrow> bool" where
  "lvl pin c n k rem req serv s \<longleftrightarrow>
     (let v = lapics (apics s) c; e = rtbl (io s) pin
      in pin < 24 \<and> c < 64 \<and> 16 \<le> n \<and> n < 256 \<and> routed c n (reg e) \<and> pin_acnt e = k \<and> bit (reg e) 14 = rem
        \<and> (\<forall>q. q < 24 \<longrightarrow> q \<noteq> pin \<longrightarrow> unat (reg (rtbl (io s) q) AND IOART_INTVEC) \<noteq> n)
        \<and> lapic_inv v \<and> svr (page v) AND APIC_SVR_ENABLE \<noteq> 0 \<and> tpr (page v) = 0 \<and> vec_bit (tmr (page v)) n
        \<and> vectors (irr (page v)) = (if req then [n] else []) \<and> in_service v = serv)"

lemma lvl_request:
  assumes "lvl pin c n k rem False serv s" "routed c n (reg e)" "pin_acnt e = k'"
    "\<And>q. q < 24 \<Longrightarrow> q \<noteq> pin \<Longrightarrow> rtbl v q = rtbl (io s) q" "rtbl v pin = e"
    "m = upd_lapic c (\<lambda>v. emit NotifyVcpu (upd_page (\<lambda>p. p\<lparr>irr := vec_set n (irr p)\<rparr>) v)) (apics s)"
  shows "lvl pin c n k' (bit (reg e) 14) True serv \<lparr>io = v, apics = m\<rparr>"
proof -
  let ?v = "lapics (apics s) c" and ?w = "lapics m c"
  have w: "?w = emit NotifyVcpu (upd_page (\<lambda>p. p\<lparr>irr := vec_set n (irr p)\<rparr>) ?v)" by (simp add: assms(6) upd_lapic_def)
  have c: "lcore ?w = lcore ?v" by (simp add: w) (simp add: lcore_def upd_page_def)
  have "vectors (irr (page ?v)) = []" "n < 256" using assms(1) by (auto simp: lvl_def Let_def)
  then have "vectors (irr (page ?w)) = [n]" using vectors_push[of n "irr (page ?v)"] by (simp add: w emit_def upd_page_def)
  moreover have "svr (page ?w) = svr (page ?v)" "tpr (page ?w) = tpr (page ?v)" "tmr (page ?w) = tmr (page ?v)"
    by (simp_all add: w emit_def upd_page_def)
  ultimately show ?thesis
    using assms lapic_inv_lcore[OF c] in_service_lcore[OF c] by (simp add: lvl_def Let_def)
qed

lemma send_msg:
  assumes "routed c n r" "reg (rtbl v pin) = r"
  shows "vioapic_send_intr pin v = (set_reg pin (set_bit 14 r) v)\<lparr>msgs := msgs v @ [Deliver True (word_of_nat c) True 0 (ucast (r AND IOART_INTVEC))]\<rparr>"
  using assms by (simp add: send_intr_eq routed_msg Let_def) (simp add: routed_def)

lemma lvl_assert:
  assumes "lvl pin c n 0 False False serv s"
  shows "\<exists>t. irq_line pin True s = Some t \<and> lvl pin c n 1 True True serv t"
proof -
  let ?r = "reg (rtbl (io s) pin)"
  have r: "routed c n ?r" "pin_acnt (rtbl (io s) pin) = 0" using assms by (simp_all add: lvl_def Let_def)
  define v1 where "v1 = (io s)\<lparr>rtbl := (rtbl (io s))(pin := (rtbl (io s) pin)\<lparr>pin_acnt := 1\<rparr>)\<rparr>"
  define v where "v = vioapic_send_intr pin v1"
  have p: "vioapic_set_pinstate pin True (io s) = v" using r by (simp add: vioapic_set_pinstate_def Let_def v_def v1_def)
  have v: "v = (set_reg pin (set_bit 14 ?r) v1)\<lparr>msgs := msgs (io s) @ [Deliver True (word_of_nat c) True 0 (ucast (?r AND IOART_INTVEC))]\<rparr>"
    unfolding v_def using send_msg[OF r(1), of v1 pin] by (simp add: v1_def)
  let ?m = "upd_lapic c (\<lambda>v. emit NotifyVcpu (upd_page (\<lambda>p. p\<lparr>irr := vec_set n (irr p)\<rparr>) v)) (apics s)"
  have "vlapic_deliver_intr (word_of_nat c) True 0 (ucast (?r AND IOART_INTVEC)) (apics s) = Some ?m"
    by (rule deliver_to) (use assms intvec[of ?r] in \<open>auto simp: lvl_def Let_def routed_def\<close>)
  then have "irq_line pin True s = Some \<lparr>io = v, apics = ?m\<rparr>" by (simp add: irq_line_def io_call_def Let_def p) (simp add: v)
  moreover have "lvl pin c n 1 (bit (reg (rtbl v pin)) 14) True serv \<lparr>io = v, apics = ?m\<rparr>"
    by (rule lvl_request[OF assms]) (use r in \<open>simp_all add: v v1_def\<close>)
  moreover have "bit (reg (rtbl v pin)) 14" by (simp add: v v1_def bit_set_bit_word)
  ultimately show ?thesis by simp
qed

lemma lvl_deassert:
  assumes "lvl pin c n 1 rem req serv s"
  shows "\<exists>t. irq_line pin False s = Some t \<and> lvl pin c n 0 rem req serv t"
proof -
  define v where "v = (io s)\<lparr>rtbl := (rtbl (io s))(pin := (rtbl (io s) pin)\<lparr>pin_acnt := 0\<rparr>)\<rparr>"
  have "vioapic_set_pinstate pin False (io s) = v"
    using assms by (simp add: vioapic_set_pinstate_def Let_def v_def lvl_def)
  then have "irq_line pin False s = Some \<lparr>io = v, apics = apics s\<rparr>" by (simp add: irq_line_def io_call_def Let_def) (simp add: v_def)
  moreover have "lvl pin c n 0 rem req serv \<lparr>io = v, apics = apics s\<rparr>" using assms by (simp add: lvl_def Let_def v_def)
  ultimately show ?thesis by blast
qed

lemma update_ppr_page: "vlapic_update_ppr v = Some w \<Longrightarrow> svr (page w) = svr (page v) \<and> tpr (page w) = tpr (page v)"
  unfolding vlapic_update_ppr_def Let_def by (auto simp: upd_page_def split: if_splits)

lemma accepted_page: "vlapic_intr_accepted n v = Some w \<Longrightarrow> svr (page w) = svr (page v) \<and> tpr (page w) = tpr (page v)"
  unfolding vlapic_intr_accepted_def Let_def by (auto simp: upd_page_def dest!: update_ppr_page split: if_splits)

lemma eoi_page: "vlapic_process_eoi v = Some w \<Longrightarrow> svr (page w) = svr (page v) \<and> tpr (page w) = tpr (page v)"
  unfolding vlapic_process_eoi_def Let_def
  by (auto simp: upd_page_def emit_def dest!: update_ppr_page split: if_splits option.splits)

lemma idle_pending:
  assumes "lapic_inv v" "in_service v = []" "tpr (page v) = 0" "vectors (irr (page v)) = (if req then [n] else [])" "16 \<le> n"
  shows "vlapic_pending_intr v = (if req then Some n else None)"
proof -
  have "isrv v = 0" using assms(1,2) isrv_last[of v] by (simp add: lapic_inv_def stack_inv_def)
  then have "PRIO (unat (ppr (page v))) = 0" using assms(1,3) PRIO_ppr_of[of v] by (simp add: lapic_inv_def PRIO_def)
  then show ?thesis unfolding vlapic_pending_intr_def scan_last using assms(4,5) by (auto simp: PRIO_def div_eq_0_iff)
qed

lemma lvl_pending: "lvl pin c n k rem req [] s \<Longrightarrow> vlapic_pending_intr (lapics (apics s) c) = (if req then Some n else None)"
  by (rule idle_pending) (auto simp: lvl_def Let_def)

lemma lvl_accept:
  assumes "lvl pin c n k rem True [] s"
  shows "\<exists>t. cpu_accept c s = Some t \<and> lvl pin c n k rem False [n] t"
proof -
  let ?v = "lapics (apics s) c"
  have v: "lapic_inv ?v" "vectors (irr (page ?v)) = [n]" "in_service ?v = []" using assms by (simp_all add: lvl_def Let_def)
  have p: "vlapic_pending_intr ?v = Some n" using lvl_pending[OF assms] by simp
  obtain w where w: "vlapic_intr_accepted n ?v = Some w" "lapic_inv w" "in_service w = [n]"
    "irr (page w) = vec_clear n (irr (page ?v))" "tmr (page w) = tmr (page ?v)" using accept_ok[OF v(1) p] v(3) by auto
  have "vectors (irr (page w)) = []" using vectors_pop[of "irr (page ?v)"] v(2) w(4) by simp
  then have "lvl pin c n k rem False [n] (s\<lparr>apics := (apics s)\<lparr>lapics := (lapics (apics s))(c := w)\<rparr>\<rparr>)"
    using assms w accepted_page[OF w(1)] by (simp add: lvl_def Let_def)
  then show ?thesis using w(1) p by (simp add: cpu_accept_def upd_lapic_opt_def)
qed

lemma eoi_one:
  assumes "pin < 24" "\<And>q. q < 24 \<Longrightarrow> q \<noteq> pin \<Longrightarrow> \<not> eoi_hit vec v q"
  shows "vioapic_process_eoi vec v = eoi_pin vec pin v"
proof -
  have no: "fold (eoi_pin vec) qs u = u" if "\<And>q. q \<in> set qs \<Longrightarrow> \<not> eoi_hit vec u q" for qs u
    using that by (induction qs) (simp_all add: eoi_pin_eq)
  have "[0..<24] = [0..<pin] @ pin # [Suc pin..<24]"
    using assms(1) upt_add_eq_append[of 0 pin "24 - pin"] by (simp add: upt_conv_Cons)
  moreover have "fold (eoi_pin vec) [0..<pin] v = v" using assms by (intro no) simp
  moreover have "fold (eoi_pin vec) [Suc pin..<24] (eoi_pin vec pin v) = eoi_pin vec pin v"
  proof (rule no)
    fix q assume "q \<in> set [Suc pin..<24]"
    then have q: "q < 24" "q \<noteq> pin" by auto
    then have "rtbl (eoi_pin vec pin v) q = rtbl v q" by (simp add: eoi_pin_eq Let_def)
    then show "\<not> eoi_hit vec (eoi_pin vec pin v) q" using assms(2)[OF q] by (simp add: eoi_hit_def)
  qed
  ultimately show ?thesis unfolding vioapic_process_eoi_def REDIR_ENTRIES_def by simp
qed

lemma lvl_eoi:
  assumes l: "lvl pin c n k True False [n] s"
  shows "\<exists>t. cpu_eoi c s = Some t \<and> lvl pin c n k (0 < k) (0 < k) [] t"
proof -
  let ?v = "lapics (apics s) c" and ?r = "reg (rtbl (io s) pin)"
  have v: "lapic_inv ?v" "in_service ?v = [n]" "vec_bit (tmr (page ?v)) n" "pin < 24" "routed c n ?r" "bit ?r 14"
    "pin_acnt (rtbl (io s) pin) = k" using l by (simp_all add: lvl_def Let_def)
  obtain w where w: "vlapic_process_eoi ?v = Some w" "lapic_inv w" "in_service w = []" "irr (page w) = irr (page ?v)"
    "tmr (page w) = tmr (page ?v)" "evts w = evts ?v @ [EoiToIoapic n]" using eoi_ok[OF v(1)] v by auto
  define t where "t = s\<lparr>apics := (apics s)\<lparr>lapics := (lapics (apics s))(c := w)\<rparr>\<rparr>"
  have t: "io t = io s" "lapics (apics t) c = w" by (simp_all add: t_def)
  have e: "cpu_eoi c s = io_call (vioapic_process_eoi (int n)) t"
    using w(1,6) by (simp add: cpu_eoi_def t_def) (simp split: option.split)
  have lt: "lvl pin c n k True False [] t"
    using l w eoi_page[OF w(1)] by (simp add: lvl_def Let_def t)
  have u: "uint (x AND IOART_INTVEC) = int n \<longleftrightarrow> unat (x AND IOART_INTVEC) = n" for x by (metis uint_nat of_nat_eq_iff)
  have "vioapic_process_eoi (int n) (io s) = eoi_pin (int n) pin (io s)"
    by (rule eoi_one) (use l in \<open>auto simp: lvl_def Let_def eoi_hit_def u\<close>)
  moreover have "eoi_hit (int n) (io s) pin" using v by (simp add: eoi_hit_def u routed_def)
  ultimately have p: "vioapic_process_eoi (int n) (io s) =
      (if 0 < k then vioapic_send_intr pin (set_reg pin (unset_bit 14 ?r) (io s)) else set_reg pin (unset_bit 14 ?r) (io s))"
    using v(7) by (simp add: eoi_pin_eq Let_def)
  show ?thesis
  proof (cases "0 < k")
    case False
    then have "cpu_eoi c s = Some \<lparr>io = set_reg pin (unset_bit 14 ?r) (io s), apics = apics t\<rparr>"
      by (simp add: e io_call_def t p Let_def)
    moreover have "lvl pin c n k False False [] \<lparr>io = set_reg pin (unset_bit 14 ?r) (io s), apics = apics t\<rparr>"
      using lt by (simp add: lvl_def Let_def t bit_unset_bit_word)
    ultimately show ?thesis using False by simp
  next
    case True
    let ?v1 = "set_reg pin (unset_bit 14 ?r) (io s)" and ?r1 = "unset_bit 14 ?r"
    define v2 where "v2 = vioapic_send_intr pin ?v1"
    have v2: "v2 = (set_reg pin (set_bit 14 ?r1) ?v1)\<lparr>msgs := msgs (io s) @ [Deliver True (word_of_nat c) True 0 (ucast (?r1 AND IOART_INTVEC))]\<rparr>"
      unfolding v2_def using send_msg[of c n ?r1 ?v1 pin] v(5) by simp
    let ?m = "upd_lapic c (\<lambda>v. emit NotifyVcpu (upd_page (\<lambda>p. p\<lparr>irr := vec_set n (irr p)\<rparr>) v)) (apics t)"
    have r1: "routed c n ?r1" using v(5) by simp
    have "vlapic_deliver_intr (word_of_nat c) True 0 (ucast (?r1 AND IOART_INTVEC)) (apics t) = Some ?m"
      by (rule deliver_to) (use lt r1 intvec[of ?r1] in \<open>auto simp: lvl_def Let_def routed_def\<close>)
    then have "cpu_eoi c s = Some \<lparr>io = v2, apics = ?m\<rparr>"
      using True by (simp add: e io_call_def t p Let_def v2_def[symmetric]) (simp add: v2)
    moreover have "lvl pin c n k (bit (reg (rtbl v2 pin)) 14) True [] \<lparr>io = v2, apics = ?m\<rparr>"
      by (rule lvl_request[OF lt]) (use v in \<open>simp_all add: v2 t\<close>)
    moreover have "bit (reg (rtbl v2 pin)) 14" by (simp add: v2 bit_set_bit_word)
    ultimately show ?thesis using True by simp
  qed
qed

text \<open>
  C4 (liveness). The life of a level-triggered interrupt across both components. When an idle virtual CPU is the target of an
  unmasked level-triggered pin, asserting the pin makes its vector pending and accepting it puts it in service; an end of interrupt while the pin
  is still asserted makes the vector pending again; once the pin is released the next end of interrupt leaves nothing pending, nothing in service and the remote IRR bit clear.
\<close>

theorem level_interrupt_cycle:
  assumes "lvl pin c n 0 False False [] s"
  shows "\<exists>s1 s2 s3 s4 s5 s6.
     irq_line pin True s = Some s1 \<and> vlapic_pending_intr (lapics (apics s1) c) = Some n
   \<and> cpu_accept c s1 = Some s2 \<and> in_service (lapics (apics s2) c) = [n]
   \<and> cpu_eoi c s2 = Some s3 \<and> vlapic_pending_intr (lapics (apics s3) c) = Some n
   \<and> cpu_accept c s3 = Some s4 \<and> irq_line pin False s4 = Some s5
   \<and> cpu_eoi c s5 = Some s6 \<and> vlapic_pending_intr (lapics (apics s6) c) = None
   \<and> in_service (lapics (apics s6) c) = [] \<and> reg (rtbl (io s6) pin) AND IOART_REM_IRR = 0"
proof -
  obtain s1 where 1: "irq_line pin True s = Some s1" "lvl pin c n 1 True True [] s1" using lvl_assert[OF assms] by blast
  obtain s2 where 2: "cpu_accept c s1 = Some s2" "lvl pin c n 1 True False [n] s2" using lvl_accept[OF 1(2)] by blast
  obtain s3 where 3: "cpu_eoi c s2 = Some s3" "lvl pin c n 1 True True [] s3" using lvl_eoi[OF 2(2)] by auto
  obtain s4 where 4: "cpu_accept c s3 = Some s4" "lvl pin c n 1 True False [n] s4" using lvl_accept[OF 3(2)] by blast
  obtain s5 where 5: "irq_line pin False s4 = Some s5" "lvl pin c n 0 True False [n] s5" using lvl_deassert[OF 4(2)] by blast
  obtain s6 where 6: "cpu_eoi c s5 = Some s6" "lvl pin c n 0 False False [] s6" using lvl_eoi[OF 5(2)] by auto
  have "in_service (lapics (apics s2) c) = [n]" "in_service (lapics (apics s6) c) = []" "reg (rtbl (io s6) pin) AND IOART_REM_IRR = 0"
    using 2(2) 6(2) by (simp_all add: lvl_def Let_def ioart_bits)
  then show ?thesis
    using 1 2 3 4 5 6 lvl_pending[OF 1(2)] lvl_pending[OF 3(2)] lvl_pending[OF 6(2)] by auto
qed

text \<open>Pin 4 sends vector 0x41 to the virtual CPU 0, whose APIC knows the vector as level triggered.\<close>

definition idle_sys :: intr_sys where
  "idle_sys = \<lparr>io = vioapic_init\<lparr>rtbl := (rtbl vioapic_init)(4 := \<lparr>reg = 0x8041, pin_acnt = 0\<rparr>)\<rparr>,
     apics = upd_lapic 0 (upd_page (\<lambda>p. p\<lparr>irr := \<lambda>_. 0\<rparr>)) one_pending\<rparr>"

lemma idle_sys_lvl: "lvl 4 0 0x41 0 False False [] idle_sys"
proof -
  have "lapic_inv (lapics (apics idle_sys) 0)"
    using one_pending_facts(1) lapic_inv_lcore[of "lapics (apics idle_sys) 0" "lapics one_pending 0"]
    by (simp add: vm_inv_def idle_sys_def upd_lapic_def lcore_def upd_page_def)
  moreover have "in_service (lapics (apics idle_sys) 0) = []" by (simp add: idle_sys_def upd_lapic_def upd_page_def in_service_def one_pending_def)
  moreover have "vectors (irr (page (lapics (apics idle_sys) 0))) = []"
    by (simp add: idle_sys_def upd_lapic_def upd_page_def zero_vectors)
  moreover have "reg (rtbl (io idle_sys) q) = 0x0001000000010000" if "q < 24" "q \<noteq> 4" for q
    using that by (simp add: idle_sys_def vioapic_init_def REDIR_ENTRIES_def)
  moreover have "vec_bit (tmr (page (lapics (apics idle_sys) 0))) 0x41" "tpr (page (lapics (apics idle_sys) 0)) = 0"
    "svr (page (lapics (apics idle_sys) 0)) AND APIC_SVR_ENABLE \<noteq> 0"
    by (simp_all add: idle_sys_def upd_lapic_def upd_page_def one_pending_def vec_bit_set zero_page_def APIC_SVR_ENABLE_def)
  ultimately show ?thesis
    by (simp add: lvl_def Let_def) (simp add: idle_sys_def routed_def ioart_consts)
qed

theorem level_interrupt_cycle_witness:
  "\<exists>s1 s2 s3. irq_line 4 True idle_sys = Some s1 \<and> cpu_accept 0 s1 = Some s2 \<and> in_service (lapics (apics s2) 0) = [0x41]
     \<and> cpu_eoi 0 s2 = Some s3 \<and> vlapic_pending_intr (lapics (apics s3) 0) = Some 0x41"
  using level_interrupt_cycle[OF idle_sys_lvl] by blast

theorem trigger_modes_exact_witness:
  "\<exists>m'. perform (io idle_sys) (UpdateTmr 0) (apics idle_sys) = Some m'
     \<and> 0x41 \<in> set (vectors (tmr (page (lapics m' 0))))"
proof -
  have "bit (active_cpus (apics idle_sys)) 0" by (simp add: idle_sys_def upd_lapic_def one_pending_def)
  note t = trigger_modes_exact[OF this, of "io idle_sys" 0]
  have "level_entry (apics idle_sys) 0 (reg (rtbl (io idle_sys) 4)) 0x41"
    by (simp add: level_entry_def entry_targets_def vlapic_calcdest_def idle_sys_def ioart_consts VM_MAXCPU_def APIC_DELMODE_FIXED_def
        APIC_DELMODE_LOWPRIO_def)
  then have "\<exists>pin < 24. level_entry (apics idle_sys) 0 (reg (rtbl (io idle_sys) pin)) 0x41" by (intro exI[of _ 4]) simp
  with t show ?thesis by (auto simp del: upt_rec_numeral)
qed

end
