(* ===== verification/Guestmem.thy ===== *)
theory Guestmem
  imports Prelude
begin

text \<open>
  Guest memory as the device models see it: the two regions of \<^verbatim>\<open>src/src/lib/vmm/vmm_api.c\<close> that hold the guest's
  memory below and above four gigabytes, the translation of guest physical addresses to host addresses, and little-endian
  loads and stores of the host. Host addresses are natural numbers and the bytes of the host a function of them.
\<close>

section \<open>Regions\<close>

record guest_ram =
  lowmem :: u64
  highmem :: u64
  lowmem_addr :: nat
  highmem_addr :: nat

text \<open>\<open>None\<close> is the null pointer.\<close>

definition xh_vm_map_gpa :: "guest_ram \<Rightarrow> u64 \<Rightarrow> u64 \<Rightarrow> nat option" where
  "xh_vm_map_gpa g gpa len =
     (if gpa < lowmem g \<and> len \<le> lowmem g \<and> gpa + len \<le> lowmem g then Some (lowmem_addr g + unat gpa)
      else if gpa \<ge> push_bit 30 4
      then
        let gpa' = gpa - push_bit 30 4
        in if gpa' < highmem g \<and> len \<le> highmem g \<and> gpa' + len \<le> highmem g then Some (highmem_addr g + unat gpa') else None
      else None)"

text \<open>What is inside the guest's memory, in host addresses.\<close>

definition guest_host :: "guest_ram \<Rightarrow> nat set" where
  "guest_host g = {lowmem_addr g..<lowmem_addr g + unat (lowmem g)} \<union> {highmem_addr g..<highmem_addr g + unat (highmem g)}"

text \<open>No region is as large as half the address space, so the sum of an offset and a length does not wrap.\<close>

lemma in_region:
  fixes a n s :: u64
  assumes "a < s" "n \<le> s" "a + n \<le> s" "s \<le> 2 ^ 63"
  shows "unat a + unat n \<le> unat s"
proof -
  have "unat s \<le> 2 ^ 63" using assms(4) by (simp add: word_le_nat_alt)
  then have "unat a + unat n < 2 ^ 64" using assms(1,2) by (simp add: word_less_nat_alt word_le_nat_alt)
  then have "unat (a + n) = unat a + unat n" by (simp add: unat_word_ariths)
  then show ?thesis using assms(3) by (simp add: word_le_nat_alt)
qed

lemma map_gpa_inside:
  assumes "xh_vm_map_gpa g gpa len = Some h" "lowmem g \<le> 2 ^ 63" "highmem g \<le> 2 ^ 63"
  shows "{h..<h + unat len} \<subseteq> guest_host g"
proof -
  consider (low) "gpa < lowmem g" "len \<le> lowmem g" "gpa + len \<le> lowmem g" "h = lowmem_addr g + unat gpa"
    | (high) "gpa - push_bit 30 4 < highmem g" "len \<le> highmem g" "gpa - push_bit 30 4 + len \<le> highmem g"
        "h = highmem_addr g + unat (gpa - push_bit 30 4)"
    using assms(1) unfolding xh_vm_map_gpa_def Let_def by (auto split: if_splits)
  then show ?thesis
  proof cases
    case low
    then show ?thesis using in_region[OF low(1-3) assms(2)] by (auto simp: guest_host_def)
  next
    case high
    then show ?thesis using in_region[OF high(1-3) assms(3)] by (auto simp: guest_host_def)
  qed
qed

section \<open>Loads and stores\<close>

type_synonym bytes = "nat \<Rightarrow> u8"

definition load :: "nat \<Rightarrow> bytes \<Rightarrow> nat \<Rightarrow> 'w::len word" where
  "load k m a = word_of_nat (horner_sum unat 256 (map (\<lambda>i. m (a + i)) [0..<k]))"

definition store :: "nat \<Rightarrow> 'w::len word \<Rightarrow> nat \<Rightarrow> bytes \<Rightarrow> bytes" where
  "store k w a m = (\<lambda>x. if a \<le> x \<and> x < a + k then word_of_nat (unat w div 256 ^ (x - a)) else m x)"

lemma digits: "horner_sum (unat :: u8 \<Rightarrow> nat) 256 (map (\<lambda>i. word_of_nat (n div 256 ^ i)) [0..<k]) = n mod 256 ^ k"
proof (induction k arbitrary: n)
  case (Suc k)
  have "[0..<Suc k] = 0 # map Suc [0..<k]" by (simp add: map_Suc_upt upt_conv_Cons del: upt_Suc)
  then have "map (\<lambda>i. word_of_nat (n div 256 ^ i) :: u8) [0..<Suc k] = word_of_nat n # map (\<lambda>i. word_of_nat ((n div 256) div 256 ^ i)) [0..<k]"
    by (simp add: div_mult2_eq del: upt_Suc)
  then have "horner_sum (unat :: u8 \<Rightarrow> nat) 256 (map (\<lambda>i. word_of_nat (n div 256 ^ i)) [0..<Suc k]) = n mod 256 + 256 * ((n div 256) mod 256 ^ k)"
    using Suc.IH[of "n div 256"] by (simp add: unsigned_of_nat take_bit_eq_mod del: upt_Suc)
  then show ?case by (simp add: mod_mult2_eq)
qed simp

lemma load_store:
  fixes w :: "'w::len word"
  assumes "LENGTH('w) = 8 * k"
  shows "load k (store k w a m) a = w"
proof -
  have "map (\<lambda>i. store k w a m (a + i)) [0..<k] = map (\<lambda>i. word_of_nat (unat w div 256 ^ i)) [0..<k]" by (simp add: store_def)
  then have "load k (store k w a m) a = (word_of_nat (unat w mod 256 ^ k) :: 'w word)" unfolding load_def by (simp only: digits)
  moreover have "unat w < 256 ^ k" using unsigned_less[where 'a = nat and w = w] assms by (simp add: power_mult)
  ultimately show ?thesis by simp
qed

lemma load_store_other: "a + k \<le> b \<or> b + j \<le> a \<Longrightarrow> load k (store j w b m) a = load k m a"
  unfolding load_def by (rule arg_cong[where f = word_of_nat], rule arg_cong[where f = "horner_sum unat 256"]) (auto simp: store_def)

lemma store_outside: "x < a \<or> a + k \<le> x \<Longrightarrow> store k w a m x = m x"
  by (auto simp: store_def)

end
