(* ===== verification/Virtio.thy ===== *)
theory Virtio
  imports Guestmem
begin

text \<open>
  The virtio transport of \<^verbatim>\<open>src/src/lib/virtio.c\<close> and \<^verbatim>\<open>src/src/include/xhyve/virtio.h\<close>: the layout of a queue in guest
  memory, walking the chain of descriptors of a request, returning requests, deciding on interrupts, and the
  registers of the legacy PCI interface. Guest memory does not change during a call. The device behind the transport is a parameter: its
  callbacks for reading and writing configuration are functions, and its other callbacks and the
  interrupts of the PCI device are appended to a log. The diagnostics on standard error are left out. Following a null pointer is
  the value \<open>None\<close>.
\<close>

section \<open>Constants and structures\<close>

definition VRING_DESC_F_NEXT :: u16 where "VRING_DESC_F_NEXT = 1"
definition VRING_DESC_F_INDIRECT :: u16 where "VRING_DESC_F_INDIRECT = 4"
definition VRING_ALIGN :: nat where "VRING_ALIGN = 4096"
definition VRING_PFN :: nat where "VRING_PFN = 12"
definition VRING_AVAIL_F_NO_INTERRUPT :: u16 where "VRING_AVAIL_F_NO_INTERRUPT = 1"
definition VIRTIO_F_NOTIFY_ON_EMPTY :: u32 where "VIRTIO_F_NOTIFY_ON_EMPTY = push_bit 24 1"
definition VIRTIO_RING_F_INDIRECT_DESC :: u64 where "VIRTIO_RING_F_INDIRECT_DESC = push_bit 28 1"
definition VIRTIO_RING_F_EVENT_IDX :: u32 where "VIRTIO_RING_F_EVENT_IDX = push_bit 29 1"
definition VIRTIO_MSI_NO_VECTOR :: u16 where "VIRTIO_MSI_NO_VECTOR = 0xFFFF"
definition VTCFG_ISR_QUEUES :: u8 where "VTCFG_ISR_QUEUES = 1"
definition VQ_ALLOC :: u16 where "VQ_ALLOC = 1"
definition VQ_MAX_DESCRIPTORS :: nat where "VQ_MAX_DESCRIPTORS = 512"
definition VTCFG_R_HOSTCAP :: int where "VTCFG_R_HOSTCAP = 0"
definition VTCFG_R_GUESTCAP :: int where "VTCFG_R_GUESTCAP = 4"
definition VTCFG_R_PFN :: int where "VTCFG_R_PFN = 8"
definition VTCFG_R_QNUM :: int where "VTCFG_R_QNUM = 12"
definition VTCFG_R_QSEL :: int where "VTCFG_R_QSEL = 14"
definition VTCFG_R_QNOTIFY :: int where "VTCFG_R_QNOTIFY = 16"
definition VTCFG_R_STATUS :: int where "VTCFG_R_STATUS = 18"
definition VTCFG_R_ISR :: int where "VTCFG_R_ISR = 19"
definition VTCFG_R_CFGVEC :: int where "VTCFG_R_CFGVEC = 20"
definition VTCFG_R_QVEC :: int where "VTCFG_R_QVEC = 22"
definition VTCFG_R_CFG0 :: nat where "VTCFG_R_CFG0 = 20"
definition VTCFG_R_CFG1 :: nat where "VTCFG_R_CFG1 = 24"

lemmas vtcfg =
  VTCFG_R_HOSTCAP_def VTCFG_R_GUESTCAP_def VTCFG_R_PFN_def VTCFG_R_QNUM_def VTCFG_R_QSEL_def VTCFG_R_QNOTIFY_def
  VTCFG_R_STATUS_def VTCFG_R_ISR_def VTCFG_R_CFGVEC_def VTCFG_R_QVEC_def VTCFG_R_CFG0_def VTCFG_R_CFG1_def

record virtio_desc =
  vd_addr :: u64
  vd_len :: u32
  vd_flags :: u16
  vd_next :: u16

definition desc_at :: "bytes \<Rightarrow> nat \<Rightarrow> virtio_desc" where
  "desc_at m p = \<lparr>vd_addr = load 8 m p, vd_len = load 4 m (p + 8), vd_flags = load 2 m (p + 12), vd_next = load 2 m (p + 14)\<rparr>"

text \<open>The three parts of a queue are pointers to host memory.\<close>

record vqueue_info =
  vq_qsize :: u16
  vq_notify :: bool
  vq_num :: u16
  vq_flags :: u16
  vq_last_avail :: u16
  vq_save_used :: u16
  vq_msix_idx :: u16
  vq_pfn :: u32
  vq_desc :: "nat option"
  vq_avail :: "nat option"
  vq_used :: "nat option"

definition va_flags :: "bytes \<Rightarrow> nat \<Rightarrow> u16" where "va_flags m p = load 2 m p"
definition va_idx :: "bytes \<Rightarrow> nat \<Rightarrow> u16" where "va_idx m p = load 2 m (p + 2)"
definition va_ring :: "bytes \<Rightarrow> nat \<Rightarrow> nat \<Rightarrow> u16" where "va_ring m p i = load 2 m (p + 4 + 2 * i)"
definition vu_idx :: "bytes \<Rightarrow> nat \<Rightarrow> u16" where "vu_idx m p = load 2 m (p + 2)"
definition vu_ring :: "nat \<Rightarrow> nat \<Rightarrow> nat" where "vu_ring p i = p + 4 + 8 * i"

section \<open>Queues in guest memory\<close>

definition roundup2 :: "nat \<Rightarrow> nat \<Rightarrow> nat" where
  "roundup2 x y = nat ((int x + (int y - 1)) AND NOT (int y - 1))"

definition vring_size :: "nat \<Rightarrow> nat" where
  "vring_size qsz =
     (let sz = roundup2 (16 * qsz + 2 * (3 + qsz)) VRING_ALIGN
      in roundup2 (sz + (2 * 3 + 8 * qsz)) VRING_ALIGN)"

definition vq_place :: "nat \<Rightarrow> nat \<Rightarrow> nat \<times> nat \<times> nat" where
  "vq_place qsz base =
     (let avail = base + qsz * 16;
          used = roundup2 (avail + (2 + qsz + 1) * 2) VRING_ALIGN
      in (base, avail, used))"

definition vi_vq_init :: "guest_ram \<Rightarrow> u32 \<Rightarrow> vqueue_info \<Rightarrow> vqueue_info" where
  "vi_vq_init g pfn vq =
     (let phys = push_bit VRING_PFN (ucast pfn) :: u64;
          qsz = unat (vq_qsize vq);
          base = xh_vm_map_gpa g phys (word_of_nat (vring_size qsz));
          place = map_option (vq_place qsz) base
      in vq\<lparr>vq_pfn := pfn, vq_desc := map_option fst place, vq_avail := map_option (fst \<circ> snd) place,
            vq_used := map_option (snd \<circ> snd) place, vq_flags := VQ_ALLOC, vq_last_avail := 0, vq_save_used := 0\<rparr>)"

definition vq_ring_ready :: "vqueue_info \<Rightarrow> bool" where
  "vq_ring_ready vq \<longleftrightarrow> vq_flags vq AND VQ_ALLOC \<noteq> 0"

definition vq_has_descs :: "bytes \<Rightarrow> vqueue_info \<Rightarrow> bool option" where
  "vq_has_descs m vq =
     (if \<not> vq_ring_ready vq then Some False
      else map_option (\<lambda>p. vq_last_avail vq \<noteq> va_idx m p) (vq_avail vq))"

section \<open>Walking a request\<close>

text \<open>One recorded descriptor: its host address, its length and its flags.\<close>

type_synonym segment = "nat option \<times> u32 \<times> u16"

definition segment_of :: "guest_ram \<Rightarrow> virtio_desc \<Rightarrow> segment" where
  "segment_of g d = (xh_vm_map_gpa g (vd_addr d) (ucast (vd_len d)), vd_len d, vd_flags d)"

text \<open>The array \<^verbatim>\<open>iov\<close> is the list of the entries written so far.\<close>

definition vq_record :: "guest_ram \<Rightarrow> nat \<Rightarrow> virtio_desc \<Rightarrow> nat \<Rightarrow> segment list \<Rightarrow> segment list" where
  "vq_record g i d n_iov iov = (if i \<ge> n_iov then iov else iov @ [segment_of g d])"

definition is_indirect :: "virtio_desc \<Rightarrow> bool" where
  "is_indirect d \<longleftrightarrow> vd_flags d AND VRING_DESC_F_INDIRECT \<noteq> 0"

definition has_next :: "virtio_desc \<Rightarrow> bool" where
  "has_next d \<longleftrightarrow> vd_flags d AND VRING_DESC_F_NEXT \<noteq> 0"

text \<open>\<open>Confused\<close> is a return of -1, \<open>Null\<close> the use of a null pointer, \<open>Walked\<close> the count and the entries so far.\<close>

datatype walk = Null | Confused | Walked nat "segment list"

function (sequential) walk_indirect :: "guest_ram \<Rightarrow> bytes \<Rightarrow> nat \<Rightarrow> nat \<Rightarrow> nat \<Rightarrow> nat \<Rightarrow> nat \<Rightarrow> segment list \<Rightarrow> walk" where
  "walk_indirect g m n_iov vindir n_indir next i iov =
     (let vp = desc_at m (vindir + 16 * next)
      in if is_indirect vp then Confused
         else
           let iov' = vq_record g i vp n_iov iov
           in if i + 1 > VQ_MAX_DESCRIPTORS then Confused
              else if \<not> has_next vp then Walked (i + 1) iov'
              else if unat (vd_next vp) \<ge> n_indir then Confused
              else walk_indirect g m n_iov vindir n_indir (unat (vd_next vp)) (i + 1) iov')"
  by pat_completeness auto

termination walk_indirect
  by (relation "measure (\<lambda>(g, m, n_iov, vindir, n_indir, next, i, iov). VQ_MAX_DESCRIPTORS - i)") auto

declare walk_indirect.simps [simp del]

lemma walk_indirect_more: "walk_indirect g m n_iov vindir n_indir next i iov = Walked j iov' \<Longrightarrow> i < j \<and> j \<le> VQ_MAX_DESCRIPTORS"
proof (induction g m n_iov vindir n_indir "next" i iov rule: walk_indirect.induct)
  case (1 g m n_iov vindir n_indir "next" i iov)
  show ?case using 1(2) 1(1)[OF refl _ refl]
    unfolding walk_indirect.simps[of g m n_iov vindir n_indir "next" i iov] by (auto simp: Let_def split: if_splits)
qed

text \<open>One turn of the loop over the descriptors of the queue, without the step to the next one.\<close>

definition walk_one :: "guest_ram \<Rightarrow> bytes \<Rightarrow> bool \<Rightarrow> nat \<Rightarrow> virtio_desc \<Rightarrow> nat \<Rightarrow> segment list \<Rightarrow> walk" where
  "walk_one g m indirect_ok n_iov vdir i iov =
     (if \<not> is_indirect vdir then Walked (i + 1) (vq_record g i vdir n_iov iov)
      else if \<not> indirect_ok then Confused
      else
        let n_indir = unat (vd_len vdir) div 16
        in if vd_len vdir AND 0xf \<noteq> 0 \<or> n_indir = 0 then Confused
           else case xh_vm_map_gpa g (vd_addr vdir) (ucast (vd_len vdir)) of
                  None \<Rightarrow> Null
                | Some vindir \<Rightarrow> walk_indirect g m n_iov vindir n_indir 0 i iov)"

lemma walk_one_more: "walk_one g m b n vd i iov = Walked j iov' \<Longrightarrow> i < j"
  unfolding walk_one_def by (auto simp: Let_def split: if_splits option.splits dest: walk_indirect_more)

function (sequential) walk_chain :: "guest_ram \<Rightarrow> bytes \<Rightarrow> bool \<Rightarrow> nat \<Rightarrow> nat \<Rightarrow> nat \<Rightarrow> nat \<Rightarrow> nat \<Rightarrow> segment list \<Rightarrow> walk" where
  "walk_chain g m indirect_ok n_iov qsize desc next i iov =
     (if i < VQ_MAX_DESCRIPTORS
      then
        if next \<ge> qsize then Confused
        else
          let vdir = desc_at m (desc + 16 * next)
          in case walk_one g m indirect_ok n_iov vdir i iov of
               Null \<Rightarrow> Null
             | Confused \<Rightarrow> Confused
             | Walked j iov' \<Rightarrow>
                 if \<not> has_next vdir then Walked j iov'
                 else walk_chain g m indirect_ok n_iov qsize desc (unat (vd_next vdir)) j iov'
      else Confused)"
  by pat_completeness auto

termination walk_chain
  by (relation "measure (\<lambda>(g, m, b, n_iov, qsize, desc, next, i, iov). VQ_MAX_DESCRIPTORS - i)")
    (auto dest!: walk_one_more)

declare walk_chain.simps [simp del]

text \<open>
  The result is the return value, \<^verbatim>\<open>*pidx\<close> where it is set, the entries and the queue. The entries an unsuccessful call
  may have written are not part of it.
\<close>

definition vq_getchain ::
  "guest_ram \<Rightarrow> bytes \<Rightarrow> bool \<Rightarrow> nat \<Rightarrow> vqueue_info \<Rightarrow> (int \<times> u16 option \<times> segment list \<times> vqueue_info) option" where
  "vq_getchain g m indirect_ok n_iov vq =
     (case vq_avail vq of
        None \<Rightarrow> None
      | Some avail \<Rightarrow>
          let idx = vq_last_avail vq;
              ndesc = va_idx m avail - idx
          in if ndesc = 0 then Some (0, None, [], vq)
             else if ndesc > vq_qsize vq then Some (- 1, None, [], vq)
             else
               let head = va_ring m avail (unat (idx AND (vq_qsize vq - 1)));
                   vq1 = vq\<lparr>vq_last_avail := idx + 1\<rparr>
               in if unat head \<ge> unat (vq_qsize vq) then Some (- 1, Some head, [], vq1)
                  else case vq_desc vq of
                    None \<Rightarrow> None
                  | Some desc \<Rightarrow>
                      (case walk_chain g m indirect_ok n_iov (unat (vq_qsize vq)) desc (unat head) 0 [] of
                         Null \<Rightarrow> None
                       | Confused \<Rightarrow> Some (- 1, Some head, [], vq1)
                       | Walked i iov \<Rightarrow> Some (int i, Some head, iov, vq1)))"

definition vq_retchain :: "vqueue_info \<Rightarrow> vqueue_info" where
  "vq_retchain vq = vq\<lparr>vq_last_avail := vq_last_avail vq - 1\<rparr>"

text \<open>The two fields of the used entry are written before the index, as the code does.\<close>

definition vq_relchain :: "u16 \<Rightarrow> u32 \<Rightarrow> vqueue_info \<Rightarrow> bytes \<Rightarrow> bytes option" where
  "vq_relchain idx iolen vq m =
     (case vq_used vq of
        None \<Rightarrow> None
      | Some vuh \<Rightarrow>
          let msk = vq_qsize vq - 1;
              uidx = vu_idx m vuh;
              vue = vu_ring vuh (unat (uidx AND msk));
              m1 = store 4 (ucast idx :: u32) vue m;
              m2 = store 4 iolen (vue + 4) m1
          in Some (store 2 (uidx + 1) (vuh + 2) m2))"

section \<open>The device\<close>

text \<open>
  The callbacks of the device: those it may lack are options or flags. Reading configuration gives whether it succeeds and the value,
  which starts as all ones.
\<close>

record virtio_consts =
  vc_nvq :: nat
  vc_cfgsize :: nat
  vc_qnotify :: bool
  vc_cfgread :: "(int \<Rightarrow> int \<Rightarrow> u32 \<Rightarrow> bool \<times> u32) option"
  vc_cfgwrite :: "(int \<Rightarrow> int \<Rightarrow> u32 \<Rightarrow> bool) option"
  vc_apply_features :: bool
  vc_hv_caps :: u64

datatype virtio_event =
  LintrAssert | LintrDeassert | GenerateMsi | GenerateMsix u16
| QueueNotify nat | DevQnotify nat | DevReset | ApplyFeatures u32 | CfgWrite int int u32 | MsixTableWrite u64 int u64

record virtio_softc =
  vs_vc :: virtio_consts
  vs_use_msix :: bool
  vs_negotiated_caps :: u32
  vs_queues :: "nat \<Rightarrow> vqueue_info"
  vs_curq :: int
  vs_status :: u8
  vs_isr :: u8
  vs_msix_cfg_idx :: u16
  pi_msix_enabled :: bool
  pi_table_bar :: int
  pi_pba_bar :: int
  vs_log :: "virtio_event list"

definition vlog :: "virtio_event \<Rightarrow> virtio_softc \<Rightarrow> virtio_softc" where
  "vlog e vs = vs\<lparr>vs_log := vs_log vs @ [e]\<rparr>"

definition vi_softc_linkup :: "virtio_consts \<Rightarrow> virtio_softc \<Rightarrow> virtio_softc" where
  "vi_softc_linkup vc vs =
     vs\<lparr>vs_vc := vc, vs_queues := (\<lambda>i. if i < vc_nvq vc then (vs_queues vs i)\<lparr>vq_num := word_of_nat i\<rparr> else vs_queues vs i)\<rparr>"

definition reset_queue :: "vqueue_info \<Rightarrow> vqueue_info" where
  "reset_queue vq = vq\<lparr>vq_flags := 0, vq_last_avail := 0, vq_save_used := 0, vq_pfn := 0, vq_msix_idx := VIRTIO_MSI_NO_VECTOR\<rparr>"

definition vi_reset_dev :: "virtio_softc \<Rightarrow> virtio_softc" where
  "vi_reset_dev vs =
     (let vs1 = vs\<lparr>vs_queues := (\<lambda>i. if i < vc_nvq (vs_vc vs) then reset_queue (vs_queues vs i) else vs_queues vs i),
                   vs_negotiated_caps := 0, vs_curq := 0\<rparr>;
          vs2 = (if vs_isr vs1 \<noteq> 0 then vlog LintrDeassert vs1 else vs1)
      in vs2\<lparr>vs_isr := 0, vs_msix_cfg_idx := VIRTIO_MSI_NO_VECTOR\<rparr>)"

text \<open>Adding the capabilities to the PCI device succeeds or not; they are not modelled further.\<close>

definition vi_intr_init :: "bool \<Rightarrow> bool \<Rightarrow> virtio_softc \<Rightarrow> int \<times> virtio_softc" where
  "vi_intr_init use_msix add_ok vs =
     (if use_msix
      then let vs1 = vi_reset_dev (vs\<lparr>vs_use_msix := True\<rparr>) in if add_ok then (0, vs1) else (1, vs1)
      else (0, vs\<lparr>vs_use_msix := False\<rparr>))"

definition vq_interrupt :: "nat \<Rightarrow> virtio_softc \<Rightarrow> virtio_softc" where
  "vq_interrupt q vs =
     (if pi_msix_enabled vs then vlog (GenerateMsix (vq_msix_idx (vs_queues vs q))) vs
      else vlog LintrAssert (vlog GenerateMsi (vs\<lparr>vs_isr := vs_isr vs OR VTCFG_ISR_QUEUES\<rparr>)))"

definition event_crossed :: "u16 \<Rightarrow> u16 \<Rightarrow> u16 \<Rightarrow> bool" where
  "event_crossed event_idx new_idx old_idx \<longleftrightarrow> new_idx - event_idx - 1 < new_idx - old_idx"

definition vq_endchains :: "bytes \<Rightarrow> bool \<Rightarrow> nat \<Rightarrow> virtio_softc \<Rightarrow> virtio_softc option" where
  "vq_endchains m used_all_avail q vs =
     (let vq = vs_queues vs q
      in case (vq_used vq, vq_avail vq) of
           (Some used, Some avail) \<Rightarrow>
             let old_idx = vq_save_used vq;
                 new_idx = vu_idx m used;
                 vs1 = vs\<lparr>vs_queues := (vs_queues vs)(q := vq\<lparr>vq_save_used := new_idx\<rparr>)\<rparr>;
                 intr =
                   (if used_all_avail \<and> vs_negotiated_caps vs AND VIRTIO_F_NOTIFY_ON_EMPTY \<noteq> 0 then True
                    else if vs_negotiated_caps vs AND VIRTIO_RING_F_EVENT_IDX \<noteq> 0
                    then event_crossed (va_ring m avail (unat (vq_qsize vq))) new_idx old_idx
                    else new_idx \<noteq> old_idx \<and> va_flags m avail AND VRING_AVAIL_F_NO_INTERRUPT = 0)
             in Some (if intr then vq_interrupt q vs1 else vs1)
         | _ \<Rightarrow> None)"

section \<open>Registers\<close>

record config_reg =
  cr_offset :: int
  cr_size :: int
  cr_ro :: bool

definition config_regs :: "config_reg list" where
  "config_regs =
     [\<lparr>cr_offset = VTCFG_R_HOSTCAP, cr_size = 4, cr_ro = True\<rparr>, \<lparr>cr_offset = VTCFG_R_GUESTCAP, cr_size = 4, cr_ro = False\<rparr>,
      \<lparr>cr_offset = VTCFG_R_PFN, cr_size = 4, cr_ro = False\<rparr>, \<lparr>cr_offset = VTCFG_R_QNUM, cr_size = 2, cr_ro = True\<rparr>,
      \<lparr>cr_offset = VTCFG_R_QSEL, cr_size = 2, cr_ro = False\<rparr>, \<lparr>cr_offset = VTCFG_R_QNOTIFY, cr_size = 2, cr_ro = False\<rparr>,
      \<lparr>cr_offset = VTCFG_R_STATUS, cr_size = 1, cr_ro = False\<rparr>, \<lparr>cr_offset = VTCFG_R_ISR, cr_size = 1, cr_ro = False\<rparr>,
      \<lparr>cr_offset = VTCFG_R_CFGVEC, cr_size = 2, cr_ro = False\<rparr>, \<lparr>cr_offset = VTCFG_R_QVEC, cr_size = 2, cr_ro = False\<rparr>]"

text \<open>The search keeps its bounds in unsigned 32-bit variables; reading past the table or searching without end is \<open>None\<close>.\<close>

partial_function (option) find_cr_loop :: "int \<Rightarrow> u32 \<Rightarrow> u32 \<Rightarrow> config_reg option option" where
  "find_cr_loop offset lo hi =
     (if hi \<ge> lo
      then
        let mid = drop_bit 1 (hi + lo)
        in if unat mid \<ge> length config_regs then None
           else
             let cr = config_regs ! unat mid
             in if cr_offset cr = offset then Some (Some cr)
                else if cr_offset cr < offset then find_cr_loop offset (mid + 1) hi
                else find_cr_loop offset lo (mid - 1)
      else Some None)"

definition vi_find_cr :: "int \<Rightarrow> config_reg option option" where
  "vi_find_cr offset = find_cr_loop offset 0 (word_of_nat (length config_regs) - 1)"

definition c_int :: "u64 \<Rightarrow> int" where
  "c_int x = sint (ucast x :: u32)"

definition config_size :: "virtio_softc \<Rightarrow> u64" where
  "config_size vs = word_of_nat (if pi_msix_enabled vs then VTCFG_R_CFG1 else VTCFG_R_CFG0)"

text \<open>Whether an access goes to the configuration of the device, and at which offset.\<close>

definition device_offset :: "u64 \<Rightarrow> int \<Rightarrow> virtio_softc \<Rightarrow> u32 option" where
  "device_offset offset sz vs =
     (if sz \<noteq> 1 \<and> sz \<noteq> 2 \<and> sz \<noteq> 4 then None
      else if offset \<ge> config_size vs
      then
        let newoff = ucast (offset - config_size vs) :: u32;
            most = (if vc_cfgsize (vs_vc vs) \<noteq> 0 then vc_cfgsize (vs_vc vs) else 0x100000000)
        in if unat (newoff + word_of_int sz) > most then None else Some newoff
      else None)"

definition cur_queue :: "virtio_softc \<Rightarrow> nat option" where
  "cur_queue vs = (if vs_curq vs < int (vc_nvq (vs_vc vs)) then Some (nat (vs_curq vs)) else None)"

text \<open>A negative current queue is below the number of queues and indexes outside the array.\<close>

definition curq_wild :: "virtio_softc \<Rightarrow> bool" where
  "curq_wild vs \<longleftrightarrow> vs_curq vs < 0"

definition read_reg :: "u64 \<Rightarrow> u32 \<Rightarrow> virtio_softc \<Rightarrow> (u32 \<times> virtio_softc) option" where
  "read_reg offset value vs =
     (let r = uint offset; q = cur_queue vs
      in if r = VTCFG_R_HOSTCAP then Some (ucast (vc_hv_caps (vs_vc vs)), vs)
         else if r = VTCFG_R_GUESTCAP then Some (vs_negotiated_caps vs, vs)
         else if r = VTCFG_R_PFN
         then if curq_wild vs then None
              else Some (case q of Some i \<Rightarrow> vq_pfn (vs_queues vs i) | None \<Rightarrow> value, vs)
         else if r = VTCFG_R_QNUM
         then if curq_wild vs then None
              else Some (case q of Some i \<Rightarrow> ucast (vq_qsize (vs_queues vs i)) | None \<Rightarrow> 0, vs)
         else if r = VTCFG_R_QSEL then Some (word_of_int (vs_curq vs), vs)
         else if r = VTCFG_R_QNOTIFY then Some (0, vs)
         else if r = VTCFG_R_STATUS then Some (ucast (vs_status vs), vs)
         else if r = VTCFG_R_ISR
         then let isr = vs_isr vs; vs1 = vs\<lparr>vs_isr := 0\<rparr>
              in Some (ucast isr, if isr \<noteq> 0 then vlog LintrDeassert vs1 else vs1)
         else if r = VTCFG_R_CFGVEC then Some (ucast (vs_msix_cfg_idx vs), vs)
         else if r = VTCFG_R_QVEC
         then if curq_wild vs then None
              else Some (case q of Some i \<Rightarrow> ucast (vq_msix_idx (vs_queues vs i)) | None \<Rightarrow> ucast VIRTIO_MSI_NO_VECTOR, vs)
         else Some (value, vs))"

text \<open>\<open>tread\<close> is the value the PCI emulation reads from the MSI-X table. A failed assertion is \<open>None\<close>.\<close>

definition vi_pci_read :: "(u64 \<Rightarrow> int \<Rightarrow> u64) \<Rightarrow> int \<Rightarrow> u64 \<Rightarrow> int \<Rightarrow> virtio_softc \<Rightarrow> (u64 \<times> virtio_softc) option" where
  "vi_pci_read tread baridx offset sz vs =
     (if vs_use_msix vs \<and> (baridx = pi_table_bar vs \<or> baridx = pi_pba_bar vs) then Some (tread offset sz, vs)
      else if baridx \<noteq> 0 then None
      else
        let ones = (if sz = 1 then 0xff else if sz = 2 then 0xffff else 0xffffffff) :: u32;
            (served, value) =
              (case device_offset offset sz vs of
                 None \<Rightarrow> (False, ones)
               | Some newoff \<Rightarrow>
                   (case vc_cfgread (vs_vc vs) of None \<Rightarrow> (True, ones) | Some f \<Rightarrow> f (sint newoff) sz ones))
        in if served then Some (ucast value, vs)
           else
             case vi_find_cr (c_int offset) of
               None \<Rightarrow> None
             | Some None \<Rightarrow> Some (ucast value, vs)
             | Some (Some cr) \<Rightarrow>
                 if cr_size cr \<noteq> sz then Some (ucast value, vs)
                 else map_option (\<lambda>(x, vs). (ucast x, vs)) (read_reg offset value vs))"

definition write_vreg :: "guest_ram \<Rightarrow> u64 \<Rightarrow> u64 \<Rightarrow> virtio_softc \<Rightarrow> virtio_softc option" where
  "write_vreg g offset value vs =
     (let r = uint offset; vc = vs_vc vs
      in if r = VTCFG_R_GUESTCAP
         then let vs1 = vs\<lparr>vs_negotiated_caps := ucast (value AND vc_hv_caps vc)\<rparr>
              in Some (if vc_apply_features vc then vlog (ApplyFeatures (vs_negotiated_caps vs1)) vs1 else vs1)
         else if r = VTCFG_R_PFN
         then if curq_wild vs then None
              else case cur_queue vs of
                     None \<Rightarrow> Some vs
                   | Some i \<Rightarrow> Some (vs\<lparr>vs_queues := (vs_queues vs)(i := vi_vq_init g (ucast value) (vs_queues vs i))\<rparr>)
         else if r = VTCFG_R_QSEL then Some (vs\<lparr>vs_curq := c_int value\<rparr>)
         else if r = VTCFG_R_QNOTIFY
         then if unat value \<ge> vc_nvq vc then Some vs
              else if vq_notify (vs_queues vs (unat value)) then Some (vlog (QueueNotify (unat value)) vs)
              else if vc_qnotify vc then Some (vlog (DevQnotify (unat value)) vs)
              else Some vs
         else if r = VTCFG_R_STATUS
         then let vs1 = vs\<lparr>vs_status := ucast value\<rparr> in Some (if value = 0 then vlog DevReset vs1 else vs1)
         else if r = VTCFG_R_CFGVEC then Some (vs\<lparr>vs_msix_cfg_idx := ucast value\<rparr>)
         else if r = VTCFG_R_QVEC
         then if curq_wild vs then None
              else case cur_queue vs of
                     None \<Rightarrow> Some vs
                   | Some i \<Rightarrow> Some (vs\<lparr>vs_queues := (vs_queues vs)(i := (vs_queues vs i)\<lparr>vq_msix_idx := ucast value\<rparr>)\<rparr>)
         else Some vs)"

definition vi_pci_write :: "guest_ram \<Rightarrow> int \<Rightarrow> u64 \<Rightarrow> int \<Rightarrow> u64 \<Rightarrow> virtio_softc \<Rightarrow> virtio_softc option" where
  "vi_pci_write g baridx offset sz value vs =
     (if vs_use_msix vs \<and> (baridx = pi_table_bar vs \<or> baridx = pi_pba_bar vs) then Some (vlog (MsixTableWrite offset sz value) vs)
      else if baridx \<noteq> 0 then None
      else
        let (served, vs0) =
              (case device_offset offset sz vs of
                 None \<Rightarrow> (False, vs)
               | Some newoff \<Rightarrow>
                   (case vc_cfgwrite (vs_vc vs) of
                      None \<Rightarrow> (True, vs)
                    | Some f \<Rightarrow> (f (sint newoff) sz (ucast value), vlog (CfgWrite (sint newoff) sz (ucast value)) vs)))
        in if served then Some vs0
           else
             case vi_find_cr (c_int offset) of
               None \<Rightarrow> None
             | Some None \<Rightarrow> Some vs0
             | Some (Some cr) \<Rightarrow>
                 if cr_size cr \<noteq> sz \<or> cr_ro cr then Some vs0 else write_vreg g offset value vs0)"

section \<open>Event indices\<close>

lemma sub_less_iff: "d - x - 1 < d \<longleftrightarrow> x < d" for d x :: u16
proof -
  have e: "d - x - 1 = d + NOT x" by (simp add: not_eq_complement)
  have n: "unat (NOT x) = 65535 - unat x"
  proof -
    have "unat x \<le> unat (65535 :: u16)" using unsigned_less[where 'a = nat and w = x] by simp
    then have "unat (65535 - x) = unat (65535 :: u16) - unat x" by (intro unat_sub) (simp only: word_le_nat_alt)
    moreover have "NOT x = 65535 - x" by (simp add: not_eq_complement)
    ultimately show ?thesis by simp
  qed
  have b: "unat d < 65536" "unat x < 65536" using unsigned_less[where 'a = nat and w = d] unsigned_less[where 'a = nat and w = x] by simp_all
  have a: "unat (d + NOT x) = (unat d + (65535 - unat x)) mod 65536" unfolding unat_word_ariths n by simp
  have "(unat d + (65535 - unat x)) mod 65536 < unat d \<longleftrightarrow> unat x < unat d"
  proof (cases "unat x < unat d")
    case True
    then have "unat d + (65535 - unat x) = (unat d - unat x - 1) + 65536" using b by linarith
    then have "(unat d + (65535 - unat x)) mod 65536 = unat d - unat x - 1" using b by (simp only: mod_add_self2) simp
    then show ?thesis using True by simp
  next
    case False
    then have "(unat d + (65535 - unat x)) mod 65536 = unat d + (65535 - unat x)" using b by (intro mod_less) linarith
    then show ?thesis using False by simp
  qed
  then show ?thesis unfolding e word_less_nat_alt a .
qed

text \<open>
  C27 (equivalence). With event indices the guest is interrupted exactly when the index it asked for is one of the used
  indices passed since the last notification, counted from the old index up to the new one modulo 65536, whatever the wrap-around of the three indices.
\<close>

theorem event_crossed_exact: "event_crossed event_idx new_idx old_idx \<longleftrightarrow> event_idx \<in> {old_idx + word_of_nat k | k. k < unat (new_idx - old_idx)}"
proof -
  have "new_idx - event_idx - 1 = (new_idx - old_idx) - (event_idx - old_idx) - 1" by simp
  then have "event_crossed event_idx new_idx old_idx \<longleftrightarrow> event_idx - old_idx < new_idx - old_idx"
    unfolding event_crossed_def by (simp only: sub_less_iff)
  also have "\<dots> \<longleftrightarrow> event_idx \<in> {old_idx + word_of_nat k | k. k < unat (new_idx - old_idx)}"
  proof
    assume "event_idx - old_idx < new_idx - old_idx"
    then have "unat (event_idx - old_idx) < unat (new_idx - old_idx)" by (simp add: word_less_nat_alt)
    moreover have "event_idx = old_idx + word_of_nat (unat (event_idx - old_idx))" by simp
    ultimately show "event_idx \<in> {old_idx + word_of_nat k | k. k < unat (new_idx - old_idx)}" by blast
  next
    assume "event_idx \<in> {old_idx + word_of_nat k | k. k < unat (new_idx - old_idx)}"
    then obtain k where k: "event_idx = old_idx + word_of_nat k" "k < unat (new_idx - old_idx)" by blast
    have "unat (word_of_nat k :: u16) \<le> k" by (simp add: unsigned_of_nat take_bit_nat_less_eq_self)
    then show "event_idx - old_idx < new_idx - old_idx" using k by (simp add: word_less_nat_alt)
  qed
  finally show ?thesis .
qed

section \<open>Register search\<close>

lemma find_cr_steps:
  "find_cr_loop x 0 9 = (if x = 14 then Some (Some (config_regs ! 4)) else if 14 < x then find_cr_loop x 5 9 else find_cr_loop x 0 3)"
  "find_cr_loop x 0 3 = (if x = 4 then Some (Some (config_regs ! 1)) else if 4 < x then find_cr_loop x 2 3 else find_cr_loop x 0 0)"
  "find_cr_loop x 5 9 = (if x = 19 then Some (Some (config_regs ! 7)) else if 19 < x then find_cr_loop x 8 9 else find_cr_loop x 5 6)"
  "find_cr_loop x 0 0 = (if x = 0 then Some (Some (config_regs ! 0)) else if 0 < x then Some None else None)"
  "find_cr_loop x 2 3 = (if x = 8 then Some (Some (config_regs ! 2)) else if x = 12 then Some (Some (config_regs ! 3)) else Some None)"
  "find_cr_loop x 5 6 = (if x = 16 then Some (Some (config_regs ! 5)) else if x = 18 then Some (Some (config_regs ! 6)) else Some None)"
  "find_cr_loop x 8 9 = (if x = 20 then Some (Some (config_regs ! 8)) else if x = 22 then Some (Some (config_regs ! 9)) else Some None)"
proof -
  note e = find_cr_loop.simps[of x] and d = config_regs_def vtcfg
  show "find_cr_loop x 0 9 = (if x = 14 then Some (Some (config_regs ! 4)) else if 14 < x then find_cr_loop x 5 9 else find_cr_loop x 0 3)"
    by (subst e) (simp add: d Let_def)
  show "find_cr_loop x 0 3 = (if x = 4 then Some (Some (config_regs ! 1)) else if 4 < x then find_cr_loop x 2 3 else find_cr_loop x 0 0)"
    by (subst e) (simp add: d Let_def)
  show "find_cr_loop x 5 9 = (if x = 19 then Some (Some (config_regs ! 7)) else if 19 < x then find_cr_loop x 8 9 else find_cr_loop x 5 6)"
    by (subst e) (simp add: d Let_def)
  show "find_cr_loop x 0 0 = (if x = 0 then Some (Some (config_regs ! 0)) else if 0 < x then Some None else None)"
  proof -
    have "find_cr_loop x 0 (- 1) = None"
      by (subst e) (simp add: d Let_def mask_eq_exp_minus_1)
    then show ?thesis by (simp add: e[of 0 0] e[of 1 0] d Let_def)
  qed
  have n: "hi < lo \<Longrightarrow> find_cr_loop y lo hi = Some None" for y lo hi by (subst find_cr_loop.simps) simp
  have l3: "find_cr_loop y 3 3 = (if y = 12 then Some (Some (config_regs ! 3)) else Some None)" for y
    by (subst find_cr_loop.simps) (simp add: d Let_def n)
  show "find_cr_loop x 2 3 = (if x = 8 then Some (Some (config_regs ! 2)) else if x = 12 then Some (Some (config_regs ! 3)) else Some None)"
    by (subst e) (simp add: d Let_def n l3[unfolded d])
  have l6: "find_cr_loop y 6 6 = (if y = 18 then Some (Some (config_regs ! 6)) else Some None)" for y
    by (subst find_cr_loop.simps) (simp add: d Let_def n)
  show "find_cr_loop x 5 6 = (if x = 16 then Some (Some (config_regs ! 5)) else if x = 18 then Some (Some (config_regs ! 6)) else Some None)"
    by (subst e) (simp add: d Let_def n l6[unfolded d])
  have l9: "find_cr_loop y 9 9 = (if y = 22 then Some (Some (config_regs ! 9)) else Some None)" for y
    by (subst find_cr_loop.simps) (simp add: d Let_def n)
  show "find_cr_loop x 8 9 = (if x = 20 then Some (Some (config_regs ! 8)) else if x = 22 then Some (Some (config_regs ! 9)) else Some None)"
    by (subst e) (simp add: d Let_def n l9[unfolded d])
qed

lemma find_cr_linear:
  "vi_find_cr x = (if x < 0 then None else Some (List.find (\<lambda>cr. cr_offset cr = x) config_regs))"
proof -
  have "vi_find_cr x = find_cr_loop x 0 9" by (simp add: vi_find_cr_def config_regs_def)
  then show ?thesis unfolding find_cr_steps by (simp add: config_regs_def vtcfg)
qed

section \<open>Requests\<close>

text \<open>
  What a request is, as the virtio specification has it: a chain of descriptors of the queue linked by their next fields, in which an
  indirect descriptor stands for the chain of the table it points to.
\<close>

inductive table_chain :: "bytes \<Rightarrow> nat \<Rightarrow> nat \<Rightarrow> nat \<Rightarrow> virtio_desc list \<Rightarrow> bool" for m table n where
  table_last: "d = desc_at m (table + 16 * k) \<Longrightarrow> \<not> is_indirect d \<Longrightarrow> \<not> has_next d \<Longrightarrow> table_chain m table n k [d]"
| table_next: "d = desc_at m (table + 16 * k) \<Longrightarrow> \<not> is_indirect d \<Longrightarrow> has_next d \<Longrightarrow> unat (vd_next d) < n \<Longrightarrow>
    table_chain m table n (unat (vd_next d)) ds \<Longrightarrow> table_chain m table n k (d # ds)"

inductive part :: "guest_ram \<Rightarrow> bytes \<Rightarrow> bool \<Rightarrow> virtio_desc \<Rightarrow> virtio_desc list \<Rightarrow> bool" for g m ok where
  part_direct: "\<not> is_indirect d \<Longrightarrow> part g m ok d [d]"
| part_table: "is_indirect d \<Longrightarrow> ok \<Longrightarrow> vd_len d AND 0xf = 0 \<Longrightarrow> unat (vd_len d) div 16 \<noteq> 0 \<Longrightarrow>
    xh_vm_map_gpa g (vd_addr d) (ucast (vd_len d)) = Some table \<Longrightarrow>
    table_chain m table (unat (vd_len d) div 16) 0 ds \<Longrightarrow> part g m ok d ds"

inductive request :: "guest_ram \<Rightarrow> bytes \<Rightarrow> bool \<Rightarrow> nat \<Rightarrow> nat \<Rightarrow> nat \<Rightarrow> virtio_desc list \<Rightarrow> bool" for g m ok qsize desc where
  request_last: "k < qsize \<Longrightarrow> d = desc_at m (desc + 16 * k) \<Longrightarrow> part g m ok d ds \<Longrightarrow> \<not> has_next d \<Longrightarrow> request g m ok qsize desc k ds"
| request_next: "k < qsize \<Longrightarrow> d = desc_at m (desc + 16 * k) \<Longrightarrow> part g m ok d ds \<Longrightarrow> has_next d \<Longrightarrow>
    request g m ok qsize desc (unat (vd_next d)) es \<Longrightarrow> request g m ok qsize desc k (ds @ es)"

fun vq_records :: "guest_ram \<Rightarrow> nat \<Rightarrow> nat \<Rightarrow> virtio_desc list \<Rightarrow> segment list \<Rightarrow> segment list" where
  "vq_records g n_iov i [] iov = iov"
| "vq_records g n_iov i (d # ds) iov = vq_records g n_iov (i + 1) ds (vq_record g i d n_iov iov)"

lemma records_append: "vq_records g n i (ds @ es) iov = vq_records g n (i + length ds) es (vq_records g n i ds iov)"
  by (induction ds arbitrary: i iov) simp_all

lemma records_take: "vq_records g n i ds iov = iov @ take (n - i) (map (segment_of g) ds)"
proof (induction ds arbitrary: i iov)
  case (Cons d ds)
  show ?case
  proof (cases "i \<ge> n")
    case False
    then have "n - i = Suc (n - (i + 1))" by simp
    then show ?thesis using Cons.IH[of "i + 1"] False by (simp add: vq_record_def)
  qed (use Cons.IH[of "i + 1"] in \<open>simp add: vq_record_def\<close>)
qed simp

lemma table_sound:
  "walk_indirect g m n table n_indir k i iov = Walked j iov' \<Longrightarrow>
    \<exists>ds. table_chain m table n_indir k ds \<and> j = i + length ds \<and> iov' = vq_records g n i ds iov"
proof (induction g m n table n_indir k i iov rule: walk_indirect.induct)
  case (1 g m n table n_indir k i iov)
  let ?d = "desc_at m (table + 16 * k)"
  have d: "\<not> is_indirect ?d" "i + 1 \<le> VQ_MAX_DESCRIPTORS" using 1(2) unfolding walk_indirect.simps[of g m n table n_indir k i iov]
    by (auto simp: Let_def split: if_splits)
  show ?case
  proof (cases "has_next ?d")
    case False
    then have "j = i + 1" "iov' = vq_record g i ?d n iov" using 1(2) d unfolding walk_indirect.simps[of g m n table n_indir k i iov]
      by (auto simp: Let_def)
    then show ?thesis using table_last[OF refl d(1) False, of n_indir] by (intro exI[of _ "[?d]"]) simp
  next
    case True
    then have n: "unat (vd_next ?d) < n_indir"
      "walk_indirect g m n table n_indir (unat (vd_next ?d)) (i + 1) (vq_record g i ?d n iov) = Walked j iov'"
      using 1(2) d unfolding walk_indirect.simps[of g m n table n_indir k i iov] by (auto simp: Let_def split: if_splits)
    then obtain ds where "table_chain m table n_indir (unat (vd_next ?d)) ds" "j = i + 1 + length ds"
      "iov' = vq_records g n (i + 1) ds (vq_record g i ?d n iov)" using 1(1)[OF refl d(1) refl] d(2) True by auto
    then show ?thesis using table_next[OF refl d(1) True n(1)] by (intro exI[of _ "?d # ds"]) simp
  qed
qed

lemma table_complete:
  "table_chain m table n_indir k ds \<Longrightarrow> i + length ds \<le> VQ_MAX_DESCRIPTORS \<Longrightarrow>
    walk_indirect g m n table n_indir k i iov = Walked (i + length ds) (vq_records g n i ds iov)"
proof (induction k ds arbitrary: i iov rule: table_chain.induct)
  case (table_last d k)
  then show ?case by (subst walk_indirect.simps) simp
next
  case (table_next d k ds)
  then show ?case by (subst walk_indirect.simps) (simp add: Let_def)
qed

lemma table_nonempty: "table_chain m table n k ds \<Longrightarrow> ds \<noteq> []"
  by (induction rule: table_chain.induct) simp_all

lemma part_walk:
  "walk_one g m ok n d i iov = Walked j iov' \<Longrightarrow> i < VQ_MAX_DESCRIPTORS \<Longrightarrow> \<exists>ds. part g m ok d ds \<and> j = i + length ds \<and> j \<le> VQ_MAX_DESCRIPTORS
     \<and> iov' = vq_records g n i ds iov"
proof -
  assume w: "walk_one g m ok n d i iov = Walked j iov'" and i: "i < VQ_MAX_DESCRIPTORS"
  show ?thesis
  proof (cases "is_indirect d")
    case False
    then show ?thesis using w i part_direct[OF False, of g m ok] by (intro exI[of _ "[d]"]) (auto simp: walk_one_def)
  next
    case True
    then obtain table where t: "ok" "vd_len d AND 0xf = 0" "unat (vd_len d) div 16 \<noteq> 0"
      "xh_vm_map_gpa g (vd_addr d) (ucast (vd_len d)) = Some table"
      "walk_indirect g m n table (unat (vd_len d) div 16) 0 i iov = Walked j iov'"
      using w by (auto simp: walk_one_def Let_def split: if_splits option.splits)
    then show ?thesis using table_sound[OF t(5)] part_table[OF True t(1-4)] walk_indirect_more[OF t(5)] by blast
  qed
qed

lemma part_complete:
  assumes "part g m ok d ds" "i + length ds \<le> VQ_MAX_DESCRIPTORS"
  shows "walk_one g m ok n d i iov = Walked (i + length ds) (vq_records g n i ds iov)"
  using assms by cases (auto simp: walk_one_def Let_def table_complete)

lemma part_nonempty: "part g m ok d ds \<Longrightarrow> ds \<noteq> []"
  by (auto elim!: part.cases dest: table_nonempty)

lemma chain_sound:
  "walk_chain g m ok n qsize desc k i iov = Walked j iov' \<Longrightarrow>
    \<exists>ds. request g m ok qsize desc k ds \<and> j = i + length ds \<and> j \<le> VQ_MAX_DESCRIPTORS \<and> iov' = vq_records g n i ds iov"
proof (induction g m ok n qsize desc k i iov rule: walk_chain.induct)
  case (1 g m ok n qsize desc k i iov)
  let ?d = "desc_at m (desc + 16 * k)"
  have k: "i < VQ_MAX_DESCRIPTORS" "k < qsize" using 1(2) unfolding walk_chain.simps[of g m ok n qsize desc k i iov] by (auto split: if_splits)
  obtain l iov1 where l: "walk_one g m ok n ?d i iov = Walked l iov1"
    using 1(2) k unfolding walk_chain.simps[of g m ok n qsize desc k i iov] by (auto simp: Let_def split: walk.splits)
  obtain ds where ds: "part g m ok ?d ds" "l = i + length ds" "l \<le> VQ_MAX_DESCRIPTORS" "iov1 = vq_records g n i ds iov"
    using part_walk[OF l k(1)] by blast
  have step: "walk_chain g m ok n qsize desc k i iov = (if \<not> has_next ?d then Walked l iov1
      else walk_chain g m ok n qsize desc (unat (vd_next ?d)) l iov1)"
    using k by (subst walk_chain.simps) (simp add: l Let_def)
  show ?case
  proof (cases "has_next ?d")
    case False
    then show ?thesis using step 1(2) ds request_last[OF k(2) refl ds(1) False] by auto
  next
    case True
    then have "walk_chain g m ok n qsize desc (unat (vd_next ?d)) l iov1 = Walked j iov'" using step 1(2) by simp
    then obtain es where "request g m ok qsize desc (unat (vd_next ?d)) es" "j = l + length es" "j \<le> VQ_MAX_DESCRIPTORS"
      "iov' = vq_records g n l es iov1" using 1(1)[OF k(1) _ refl l] k(2) True by auto
    then show ?thesis using ds request_next[OF k(2) refl ds(1) True] by (intro exI[of _ "ds @ es"]) (simp add: records_append)
  qed
qed

lemma request_nonempty: "request g m ok qsize desc k ds \<Longrightarrow> ds \<noteq> []"
  by (induction rule: request.induct) (auto dest: part_nonempty)

lemma chain_complete:
  "request g m ok qsize desc k ds \<Longrightarrow> i + length ds \<le> VQ_MAX_DESCRIPTORS \<Longrightarrow>
    walk_chain g m ok n qsize desc k i iov = Walked (i + length ds) (vq_records g n i ds iov)"
proof (induction k ds arbitrary: i iov rule: request.induct)
  case (request_last k d ds)
  have "i < VQ_MAX_DESCRIPTORS" using part_nonempty[OF request_last(3)] request_last(5) by (cases ds) auto
  then show ?case using request_last part_complete[OF request_last(3,5)] by (subst walk_chain.simps) (simp add: Let_def)
next
  case (request_next k d ds es)
  have i: "i < VQ_MAX_DESCRIPTORS" "i + length ds \<le> VQ_MAX_DESCRIPTORS"
    using part_nonempty[OF request_next(3)] request_next(7) by (cases ds; simp)+
  then show ?case using request_next part_complete[OF request_next(3) i(2)]
    by (subst walk_chain.simps) (simp add: Let_def records_append add.assoc)
qed

lemma chain_from_start:
  "walk_chain g m ok n qsize desc k 0 [] = Walked j iov \<longleftrightarrow>
    (\<exists>ds. request g m ok qsize desc k ds \<and> j = length ds \<and> j \<le> VQ_MAX_DESCRIPTORS \<and> iov = take n (map (segment_of g) ds))"
proof
  assume "walk_chain g m ok n qsize desc k 0 [] = Walked j iov"
  from chain_sound[OF this] show "\<exists>ds. request g m ok qsize desc k ds \<and> j = length ds \<and> j \<le> VQ_MAX_DESCRIPTORS \<and> iov = take n (map (segment_of g) ds)"
    by (auto simp: records_take)
next
  assume "\<exists>ds. request g m ok qsize desc k ds \<and> j = length ds \<and> j \<le> VQ_MAX_DESCRIPTORS \<and> iov = take n (map (segment_of g) ds)"
  then show "walk_chain g m ok n qsize desc k 0 [] = Walked j iov" using chain_complete[of g m ok qsize desc k _ 0] by (auto simp: records_take)
qed

text \<open>
  C6 (functional). For a queue whose rings are mapped, \<^verbatim>\<open>vq_getchain\<close> hands a request to the device, with a positive count, exactly when
  the guest has made between one and the queue's size of them available, the head of the oldest is a descriptor of
  the queue, and the chain from it, with its indirect tables, is well formed and ends within 512 descriptors; the count is then the
  number of descriptors, the entries are the first \<^verbatim>\<open>n_iov\<close> of them in order, and the queue moves on by one request. Cycles in the
  guest's links therefore end in an error.
\<close>

theorem getchain_exact:
  assumes "vq_avail vq = Some avail" "vq_desc vq = Some desc" "0 < n"
  shows "vq_getchain g m ok n_iov vq = Some (int n, idx, iov, vq') \<longleftrightarrow>
    va_idx m avail - vq_last_avail vq \<in> {1..vq_qsize vq}
    \<and> (let head = va_ring m avail (unat (vq_last_avail vq AND (vq_qsize vq - 1)))
       in idx = Some head \<and> head < vq_qsize vq
          \<and> (\<exists>ds. request g m ok (unat (vq_qsize vq)) desc (unat head) ds \<and> n = length ds \<and> n \<le> 512
                \<and> iov = take n_iov (map (segment_of g) ds)))
    \<and> vq' = vq\<lparr>vq_last_avail := vq_last_avail vq + 1\<rparr>"
proof -
  let ?k = "va_idx m avail - vq_last_avail vq"
  let ?head = "va_ring m avail (unat (vq_last_avail vq AND (vq_qsize vq - 1)))"
  let ?w = "walk_chain g m ok n_iov (unat (vq_qsize vq)) desc (unat ?head) 0 []"
  have k: "?k \<in> {1..vq_qsize vq} \<longleftrightarrow> ?k \<noteq> 0 \<and> \<not> ?k > vq_qsize vq"
    by (auto simp: not_less word_le_nat_alt Suc_le_eq simp flip: word_neq_0_conv) (metis unat_gt_0 right_minus_eq)
  have "vq_getchain g m ok n_iov vq = Some (int n, idx, iov, vq') \<longleftrightarrow>
      ?k \<noteq> 0 \<and> \<not> ?k > vq_qsize vq \<and> unat ?head < unat (vq_qsize vq) \<and> ?w = Walked n iov \<and> idx = Some ?head
      \<and> vq' = vq\<lparr>vq_last_avail := vq_last_avail vq + 1\<rparr>"
    using assms unfolding vq_getchain_def Let_def by (auto split: walk.splits)
  then show ?thesis unfolding k chain_from_start Let_def by (auto simp: word_less_nat_alt VQ_MAX_DESCRIPTORS_def)
qed

lemma roundup2_page: "roundup2 x 4096 = (x + 4095) div 4096 * 4096"
proof -
  have m: "(4095 :: int) = mask 12" by (simp add: mask_eq_exp_minus_1)
  have "(int x + 4095) AND NOT 4095 = (int x + 4095) - take_bit 12 (int x + 4095)"
    unfolding m by (metis add_diff_cancel_left' and_not_plus_and add.commute take_bit_eq_mask)
  also have "\<dots> = (int x + 4095) div 4096 * 4096" by (simp add: take_bit_eq_mod minus_mod_eq_div_mult)
  finally show ?thesis by (simp add: roundup2_def nat_mult_distrib nat_div_distrib nat_add_distrib)
qed

lemma roundup2_ge: "x \<le> roundup2 x 4096"
  unfolding roundup2_page by simp

lemma roundup2_bound: "roundup2 x 4096 < x + 4096"
  unfolding roundup2_page by simp

lemma roundup2_shift: "roundup2 (4096 * b + x) 4096 = 4096 * b + roundup2 x 4096"
  unfolding roundup2_page by (simp add: add.assoc)

definition sample_ram :: guest_ram where
  "sample_ram = \<lparr>lowmem = 0x10000, highmem = 0, lowmem_addr = 0x100000, highmem_addr = 0\<rparr>"

definition sample_queue :: vqueue_info where
  "sample_queue = \<lparr>vq_qsize = 4, vq_notify = True, vq_num = 0, vq_flags = 0, vq_last_avail = 0, vq_save_used = 0, vq_msix_idx = 0,
     vq_pfn = 0, vq_desc = None, vq_avail = None, vq_used = None\<rparr>"

text \<open>One request of one descriptor of sixteen bytes at guest address 0x5000, in a queue at page 1.\<close>

definition sample_mem :: bytes where
  "sample_mem = store 8 (0x5000 :: u64) 0x101000 (store 4 (16 :: u32) 0x101008 (store 2 (1 :: u16) 0x101042 (\<lambda>_. 0)))"

lemma sample_init:
  "vi_vq_init sample_ram 1 sample_queue = sample_queue\<lparr>vq_pfn := 1, vq_desc := Some 0x101000, vq_avail := Some 0x101040,
     vq_used := Some 0x102000, vq_flags := 1\<rparr>"
  by (simp add: vi_vq_init_def sample_ram_def sample_queue_def xh_vm_map_gpa_def vq_place_def vring_size_def roundup2_page Let_def
    VRING_PFN_def VRING_ALIGN_def VQ_ALLOC_def)

lemma load_zero: "load k (\<lambda>_. 0) a = 0"
proof -
  have "horner_sum unat 256 (map (\<lambda>i. 0 :: u8) xs) = (0 :: nat)" for xs :: "nat list" by (induction xs) simp_all
  then show ?thesis by (simp add: load_def)
qed

lemma sample_fields:
  "vq_avail (vi_vq_init sample_ram 1 sample_queue) = Some 0x101040" "vq_desc (vi_vq_init sample_ram 1 sample_queue) = Some 0x101000"
  "vq_used (vi_vq_init sample_ram 1 sample_queue) = Some 0x102000" "vq_qsize (vi_vq_init sample_ram 1 sample_queue) = 4"
  "vq_last_avail (vi_vq_init sample_ram 1 sample_queue) = 0"
  unfolding sample_init by (simp_all add: sample_queue_def)

lemma sample_loads:
  "desc_at sample_mem 0x101000 = \<lparr>vd_addr = 0x5000, vd_len = 16, vd_flags = 0, vd_next = 0\<rparr>"
  "va_idx sample_mem 0x101040 = 1" "va_ring sample_mem 0x101040 0 = 0"
  by (simp_all add: desc_at_def va_idx_def va_ring_def sample_mem_def load_store load_store_other load_zero)

theorem getchain_exact_witness:
  "vq_getchain sample_ram sample_mem True 8 (vi_vq_init sample_ram 1 sample_queue) =
     Some (1, Some 0, [(Some 0x105000, 16, 0)], (vi_vq_init sample_ram 1 sample_queue)\<lparr>vq_last_avail := 1\<rparr>)"
proof -
  let ?vq = "vi_vq_init sample_ram 1 sample_queue"
  let ?d = "\<lparr>vd_addr = 0x5000, vd_len = 16, vd_flags = 0, vd_next = 0\<rparr>"
  have d: "\<not> is_indirect ?d" "\<not> has_next ?d" by (simp_all add: is_indirect_def has_next_def)
  have r: "request sample_ram sample_mem True 4 0x101000 0 [?d]"
    using request_last[OF _ refl, of 0 4 sample_ram sample_mem True "0x101000" "[?d]"] part_direct[OF d(1)] d(2) by (simp add: sample_loads)
  have s: "segment_of sample_ram ?d = (Some 0x105000, 16, 0)" by (simp add: segment_of_def sample_ram_def xh_vm_map_gpa_def)
  show ?thesis
    using getchain_exact[of ?vq "0x101040" "0x101000" 1 sample_ram sample_mem True 8 "Some 0" "[(Some 0x105000, 16, 0)]"
        "?vq\<lparr>vq_last_avail := 1\<rparr>"] exI[of "\<lambda>ds. request sample_ram sample_mem True 4 0x101000 0 ds \<and> 1 = length ds
          \<and> [(Some 0x105000, 16, 0)] = take 8 (map (segment_of sample_ram) ds)" "[?d]"] r s
    by (simp add: sample_fields sample_loads Let_def)
qed

text \<open>Every entry handed to the device that is mapped lies in the memory of the guest.\<close>

lemma segment_inside:
  assumes "segment_of g d = (Some h, l, f)" "lowmem g \<le> 2 ^ 63" "highmem g \<le> 2 ^ 63"
  shows "{h..<h + unat l} \<subseteq> guest_host g"
  using map_gpa_inside[of g "vd_addr d" "ucast (vd_len d)" h] assms by (auto simp: segment_of_def unat_up)

section \<open>The rings in guest memory\<close>

text \<open>The extent of the three parts of a queue of a given size placed at a page of the host.\<close>

lemma ring_extent:
  assumes "vq_place q (4096 * b) = (d, a, u)"
  shows "d = 4096 * b" "d + 16 * q \<le> a" "a + 4 + 2 * q + 2 \<le> u" "u + 4 + 8 * q + 2 \<le> d + vring_size q"
proof -
  have e: "4096 * b + q * 16 + (2 + q + 1) * 2 = 4096 * b + (16 * q + 2 * (3 + q))" by simp
  have "vq_place q (4096 * b) = (4096 * b, 4096 * b + q * 16, 4096 * b + roundup2 (16 * q + 2 * (3 + q)) 4096)"
    unfolding vq_place_def Let_def VRING_ALIGN_def e by (simp only: roundup2_shift)
  then have u: "u = 4096 * b + roundup2 (16 * q + 2 * (3 + q)) 4096" "a = 4096 * b + 16 * q" "d = 4096 * b"
    using assms by simp_all
  let ?s = "roundup2 (16 * q + 2 * (3 + q)) 4096"
  have "16 * q + 2 * (3 + q) \<le> ?s" "?s + (2 * 3 + 8 * q) \<le> vring_size q"
    unfolding vring_size_def Let_def VRING_ALIGN_def by (simp_all only: roundup2_ge)
  then show "d = 4096 * b" "d + 16 * q \<le> a" "a + 4 + 2 * q + 2 \<le> u" "u + 4 + 8 * q + 2 \<le> d + vring_size q"
    using u by simp_all
qed

text \<open>A used entry is read back from guest memory by its number and length.\<close>

lemma relchain_memory:
  assumes "vq_used vq = Some u" "vq_relchain idx iolen vq m = Some m'"
  defines "e \<equiv> vu_ring u (unat (vu_idx m u AND (vq_qsize vq - 1)))"
  shows "load 4 m' e = (ucast idx :: u32)" "load 4 m' (e + 4) = iolen" "vu_idx m' u = vu_idx m u + 1"
    "x \<notin> {u + 2..<u + 4} \<union> {e..<e + 8} \<Longrightarrow> m' x = m x"
proof -
  have m: "m' = store 2 (vu_idx m u + 1) (u + 2) (store 4 iolen (e + 4) (store 4 (ucast idx :: u32) e m))"
    using assms(1,2) by (simp add: vq_relchain_def Let_def e_def)
  have e: "u + 4 \<le> e" by (simp add: e_def vu_ring_def)
  show "load 4 m' e = (ucast idx :: u32)" using e by (simp add: m load_store_other load_store)
  show "load 4 m' (e + 4) = iolen" using e by (simp add: m load_store_other load_store)
  show "vu_idx m' u = vu_idx m u + 1" unfolding vu_idx_def[of m'] unfolding m by (simp add: load_store)
  show "m' x = m x" if "x \<notin> {u + 2..<u + 4} \<union> {e..<e + 8}"
    using that e unfolding m store_def by auto
qed

lemma and_mask_less: "q \<noteq> 0 \<Longrightarrow> unat (x AND (q - 1)) < unat q" for x q :: u16
proof -
  assume q: "q \<noteq> 0"
  have "x AND (q - 1) \<le> q - 1" by (rule word_and_le1)
  then show ?thesis using q by (meson le_less_trans word_less_nat_alt word_not_simps(1) measure_unat order.strict_trans1 word_le_nat_alt)
qed

definition page_aligned :: "guest_ram \<Rightarrow> bool" where
  "page_aligned g \<longleftrightarrow> 4096 dvd lowmem_addr g \<and> 4096 dvd highmem_addr g \<and> lowmem g \<le> 2 ^ 63 \<and> highmem g \<le> 2 ^ 63"

lemma unat_page: "unat (push_bit 12 (ucast pfn) :: u64) = 4096 * unat pfn" for pfn :: u32
proof -
  have "unat pfn * 4096 < 2 ^ 64" using unsigned_less[where 'a = nat and w = pfn] by simp
  then show ?thesis by (simp add: push_bit_eq_mult unat_word_ariths unat_up)
qed

lemma map_gpa_page:
  fixes pfn :: u32
  assumes "xh_vm_map_gpa g (push_bit 12 (ucast pfn)) len = Some h" "page_aligned g"
  shows "4096 dvd h"
proof -
  let ?p = "push_bit 12 (ucast pfn) :: u64"
  have "4096 dvd unat (?p - push_bit 30 4)" if "?p \<ge> push_bit 30 4"
  proof -
    have "unat (?p - push_bit 30 4) = unat ?p - unat (push_bit 30 4 :: u64)" using that by (rule unat_sub)
    moreover have "unat (push_bit 30 4 :: u64) = 4096 * 2 ^ 20" by simp
    ultimately have "unat (?p - push_bit 30 4) = 4096 * unat pfn - 4096 * 2 ^ 20" unfolding unat_page by simp
    then show ?thesis by (metis dvd_triv_left right_diff_distrib')
  qed
  then show ?thesis using assms by (auto simp: xh_vm_map_gpa_def page_aligned_def Let_def unat_page split: if_splits)
qed

lemma vring_size_small: "unat (word_of_nat (vring_size (unat q)) :: u64) = vring_size (unat q)" for q :: u16
proof -
  have "unat q < 65536" using unsigned_less[where 'a = nat and w = q] by simp
  then have "vring_size (unat q) < 2 ^ 64"
    using roundup2_bound[of "16 * unat q + 2 * (3 + unat q)"]
      roundup2_bound[of "roundup2 (16 * unat q + 2 * (3 + unat q)) 4096 + (2 * 3 + 8 * unat q)"]
    unfolding vring_size_def Let_def VRING_ALIGN_def by simp
  then show ?thesis by (simp add: unsigned_of_nat take_bit_nat_eq_self)
qed

text \<open>The rings of a queue are in guest memory, in the order the specification gives them, or the queue has none.\<close>

definition ring_ok :: "guest_ram \<Rightarrow> vqueue_info \<Rightarrow> bool" where
  "ring_ok g vq \<longleftrightarrow> vq_qsize vq \<noteq> 0 \<and>
     (case (vq_desc vq, vq_avail vq, vq_used vq) of
        (Some d, Some a, Some u) \<Rightarrow> d + 16 * unat (vq_qsize vq) \<le> a \<and> a + 4 + 2 * unat (vq_qsize vq) + 2 \<le> u
            \<and> {d..<u + 4 + 8 * unat (vq_qsize vq) + 2} \<subseteq> guest_host g
      | (None, None, None) \<Rightarrow> True
      | _ \<Rightarrow> False)"

lemma ring_ok_init:
  assumes "page_aligned g" "vq_qsize vq \<noteq> 0"
  shows "ring_ok g (vi_vq_init g pfn vq)"
proof -
  let ?q = "unat (vq_qsize vq)"
  show ?thesis
  proof (cases "xh_vm_map_gpa g (push_bit 12 (ucast pfn)) (word_of_nat (vring_size ?q))")
    case None
    then show ?thesis using assms by (simp add: ring_ok_def vi_vq_init_def Let_def VRING_PFN_def)
  next
    case (Some h)
    obtain b where b: "h = 4096 * b" using map_gpa_page[OF Some assms(1)] by blast
    obtain d a u where p: "vq_place ?q h = (d, a, u)" by (cases "vq_place ?q h")
    note e = ring_extent[OF p[unfolded b]]
    have "{h..<h + vring_size ?q} \<subseteq> guest_host g"
      using map_gpa_inside[OF Some] assms(1) by (simp add: page_aligned_def vring_size_small)
    moreover have "{d..<u + 4 + 8 * ?q + 2} \<subseteq> {h..<h + vring_size ?q}" using e(1,4) b by auto
    ultimately have "{d..<u + 4 + 8 * ?q + 2} \<subseteq> guest_host g" by blast
    then show ?thesis using assms(2) Some p e(2,3)
      by (simp add: ring_ok_def vi_vq_init_def Let_def VRING_PFN_def)
  qed
qed

lemma ring_ok_relchain:
  assumes "ring_ok g vq" "vq_used vq = Some u" "vq_relchain idx iolen vq m = Some m'" "x \<notin> guest_host g \<or> x < u + 2"
  shows "m' x = m x"
proof -
  let ?e = "vu_ring u (unat (vu_idx m u AND (vq_qsize vq - 1)))"
  obtain d a where r: "d + 16 * unat (vq_qsize vq) \<le> a" "a + 4 + 2 * unat (vq_qsize vq) + 2 \<le> u"
    "{d..<u + 4 + 8 * unat (vq_qsize vq) + 2} \<subseteq> guest_host g" "vq_qsize vq \<noteq> 0"
    using assms(1,2) by (auto simp: ring_ok_def split: option.splits)
  have "?e + 8 \<le> u + 4 + 8 * unat (vq_qsize vq) + 2" "u + 4 \<le> ?e"
    using and_mask_less[OF r(4), of "vu_idx m u"] by (simp_all add: vu_ring_def)
  then have "x \<notin> {u + 2..<u + 4} \<union> {?e..<?e + 8}" using assms(4) r(1-3) by (auto simp: subset_iff)
  then show ?thesis by (rule relchain_memory(4)[OF assms(2,3)])
qed

section \<open>Runs of a device\<close>

text \<open>
  The device at work: accesses of the guest to its registers, the reset it does when the guest asks for it, its use of the queues it
  has, and any change the guest makes to its own memory in between.
\<close>

record vdev =
  vregs :: virtio_softc
  vmem :: bytes

datatype vdev_op =
  RegRead "u64 \<Rightarrow> int \<Rightarrow> u64" int u64 int
| RegWrite int u64 int u64
| Reset
| GetChain nat nat
| RetChain nat
| RelChain nat u16 u32
| EndChains nat bool
| GuestStore bytes

definition indirect_ok :: "virtio_softc \<Rightarrow> bool" where
  "indirect_ok vs \<longleftrightarrow> vc_hv_caps (vs_vc vs) AND VIRTIO_RING_F_INDIRECT_DESC \<noteq> 0"

definition upd_queue :: "nat \<Rightarrow> vqueue_info \<Rightarrow> virtio_softc \<Rightarrow> virtio_softc" where
  "upd_queue q vq vs = vs\<lparr>vs_queues := (vs_queues vs)(q := vq)\<rparr>"

fun vdev_step :: "guest_ram \<Rightarrow> vdev_op \<Rightarrow> vdev \<Rightarrow> vdev option" where
  "vdev_step g (RegRead tread bar off sz) s = map_option (\<lambda>(_, vs). s\<lparr>vregs := vs\<rparr>) (vi_pci_read tread bar off sz (vregs s))"
| "vdev_step g (RegWrite bar off sz val) s = map_option (\<lambda>vs. s\<lparr>vregs := vs\<rparr>) (vi_pci_write g bar off sz val (vregs s))"
| "vdev_step g Reset s = Some (s\<lparr>vregs := vi_reset_dev (vregs s)\<rparr>)"
| "vdev_step g (GetChain q n_iov) s =
     (let vs = vregs s
      in map_option (\<lambda>(_, _, _, vq). s\<lparr>vregs := upd_queue q vq vs\<rparr>) (vq_getchain g (vmem s) (indirect_ok vs) n_iov (vs_queues vs q)))"
| "vdev_step g (RetChain q) s = Some (s\<lparr>vregs := upd_queue q (vq_retchain (vs_queues (vregs s) q)) (vregs s)\<rparr>)"
| "vdev_step g (RelChain q idx iolen) s =
     (if q < vc_nvq (vs_vc (vregs s)) then map_option (\<lambda>m. s\<lparr>vmem := m\<rparr>) (vq_relchain idx iolen (vs_queues (vregs s) q) (vmem s)) else Some s)"
| "vdev_step g (EndChains q all) s = map_option (\<lambda>vs. s\<lparr>vregs := vs\<rparr>) (vq_endchains (vmem s) all q (vregs s))"
| "vdev_step g (GuestStore w) s = Some (s\<lparr>vmem := (\<lambda>x. if x \<in> guest_host g then w x else vmem s x)\<rparr>)"

text \<open>The invariant: negotiated features are offered ones, and every queue of the device has its rings in guest memory.\<close>

definition regs_ok :: "guest_ram \<Rightarrow> virtio_softc \<Rightarrow> bool" where
  "regs_ok g vs \<longleftrightarrow> vs_negotiated_caps vs AND NOT (ucast (vc_hv_caps (vs_vc vs))) = 0
     \<and> (\<forall>i < vc_nvq (vs_vc vs). ring_ok g (vs_queues vs i))"

definition vdev_inv :: "guest_ram \<Rightarrow> bytes \<Rightarrow> vdev \<Rightarrow> bool" where
  "vdev_inv g m0 s \<longleftrightarrow> page_aligned g \<and> regs_ok g (vregs s) \<and> (\<forall>x. x \<notin> guest_host g \<longrightarrow> vmem s x = m0 x)"

definition vdev_start :: "guest_ram \<Rightarrow> bytes \<Rightarrow> vdev \<Rightarrow> bool" where
  "vdev_start g m0 s \<longleftrightarrow> page_aligned g \<and> vmem s = m0 \<and> vs_negotiated_caps (vregs s) = 0
     \<and> (\<forall>i < vc_nvq (vs_vc (vregs s)). let vq = vs_queues (vregs s) i
          in vq_qsize vq \<noteq> 0 \<and> vq_desc vq = None \<and> vq_avail vq = None \<and> vq_used vq = None)"

lemma regs_ok_cong:
  "vs_vc vs' = vs_vc vs \<Longrightarrow> vs_negotiated_caps vs' = vs_negotiated_caps vs \<Longrightarrow> vs_queues vs' = vs_queues vs \<Longrightarrow> regs_ok g vs' = regs_ok g vs"
  by (simp add: regs_ok_def)

lemma regs_ok_log [simp]: "regs_ok g (vlog e vs) = regs_ok g vs"
  by (rule regs_ok_cong) (simp_all add: vlog_def)

lemma regs_ok_queue: "regs_ok g vs \<Longrightarrow> (q < vc_nvq (vs_vc vs) \<Longrightarrow> ring_ok g vq) \<Longrightarrow> regs_ok g (upd_queue q vq vs)"
  by (simp add: regs_ok_def upd_queue_def)

lemma ring_ok_cong:
  "vq_qsize vq' = vq_qsize vq \<Longrightarrow> vq_desc vq' = vq_desc vq \<Longrightarrow> vq_avail vq' = vq_avail vq \<Longrightarrow> vq_used vq' = vq_used vq \<Longrightarrow>
    ring_ok g vq' = ring_ok g vq"
  unfolding ring_ok_def by (simp only:)

lemma ring_okD: "ring_ok g vq \<Longrightarrow> vq_qsize vq \<noteq> 0"
  by (simp add: ring_ok_def)

lemma regs_ok_read: "regs_ok g vs \<Longrightarrow> read_reg off val vs = Some (x, vs') \<Longrightarrow> regs_ok g vs'"
  unfolding read_reg_def Let_def by (auto split: if_splits option.splits simp: vlog_def regs_ok_def)

lemma regs_ok_pci_read: "regs_ok g vs \<Longrightarrow> vi_pci_read tread bar off sz vs = Some (x, vs') \<Longrightarrow> regs_ok g vs'"
  unfolding vi_pci_read_def Let_def by (auto split: if_splits option.splits prod.splits dest: regs_ok_read)

lemma offered_and: "ucast (v AND c) AND NOT (ucast c) = (0 :: u32)" for v c :: u64
  by (rule bit_word_eqI) (auto simp: bit_and_iff bit_not_iff bit_unsigned_iff)

lemma regs_ok_caps: "regs_ok g vs \<Longrightarrow> c AND NOT (ucast (vc_hv_caps (vs_vc vs))) = 0 \<Longrightarrow> regs_ok g (vs\<lparr>vs_negotiated_caps := c\<rparr>)"
  by (simp add: regs_ok_def)

lemma regs_ok_fields [simp]:
  "regs_ok g (vs\<lparr>vs_curq := k\<rparr>) = regs_ok g vs" "regs_ok g (vs\<lparr>vs_status := b\<rparr>) = regs_ok g vs"
  "regs_ok g (vs\<lparr>vs_msix_cfg_idx := w\<rparr>) = regs_ok g vs" "regs_ok g (vs\<lparr>vs_isr := b\<rparr>) = regs_ok g vs"
  by (simp_all add: regs_ok_def)

lemma regs_ok_ring: "regs_ok g vs \<Longrightarrow> i < vc_nvq (vs_vc vs) \<Longrightarrow> ring_ok g (vs_queues vs i)"
  by (simp add: regs_ok_def)

lemma regs_ok_write:
  assumes "regs_ok g vs" "page_aligned g" "write_vreg g off val vs = Some vs'"
  shows "regs_ok g vs'"
proof -
  have c: "i < vc_nvq (vs_vc vs)" if "\<not> curq_wild vs" "cur_queue vs = Some i" for i
    using that by (auto simp: curq_wild_def cur_queue_def split: if_splits)
  have "ring_ok g (vi_vq_init g p (vs_queues vs i))" "ring_ok g (vs_queues vs i\<lparr>vq_msix_idx := w\<rparr>)" if "i < vc_nvq (vs_vc vs)" for p i w
    using regs_ok_ring[OF assms(1) that] assms(2) ring_ok_init ring_okD ring_ok_cong[of "vs_queues vs i\<lparr>vq_msix_idx := w\<rparr>" "vs_queues vs i"] by simp_all
  then have q: "regs_ok g (upd_queue i (vi_vq_init g p (vs_queues vs i)) vs)" "regs_ok g (upd_queue i (vs_queues vs i\<lparr>vq_msix_idx := w\<rparr>) vs)"
    if "i < vc_nvq (vs_vc vs)" for p i w using regs_ok_queue[OF assms(1)] that by blast+
  note f = regs_ok_caps[OF assms(1) offered_and, of val]
  show ?thesis using assms(1,3) c q f unfolding write_vreg_def Let_def upd_queue_def by (auto split: if_splits option.splits)
qed

lemma regs_ok_pci_write:
  assumes "regs_ok g vs" "page_aligned g" "vi_pci_write g bar off sz val vs = Some vs'"
  shows "regs_ok g vs'"
proof -
  have w: "write_vreg g off val v = Some v' \<Longrightarrow> regs_ok g v \<Longrightarrow> regs_ok g v'" for v v' using regs_ok_write[OF _ assms(2)] by blast
  show ?thesis using assms(1,3) unfolding vi_pci_write_def Let_def by (auto split: if_splits option.splits prod.splits dest: w)
qed

lemma regs_ok_reset: "regs_ok g vs \<Longrightarrow> regs_ok g (vi_reset_dev vs)"
proof -
  assume ok: "regs_ok g vs"
  have "ring_ok g (reset_queue vq) = ring_ok g vq" for vq by (rule ring_ok_cong) (simp_all add: reset_queue_def)
  then show ?thesis using ok unfolding vi_reset_dev_def Let_def by (simp add: vlog_def regs_ok_def)
qed

lemma getchain_ring: "vq_getchain g m ok n vq = Some (r, i, iov, vq') \<Longrightarrow> ring_ok g' vq' = ring_ok g' vq"
  by (rule ring_ok_cong) (auto simp: vq_getchain_def Let_def split: option.splits if_splits walk.splits)

lemma regs_ok_endchains:
  assumes "regs_ok g vs" "vq_endchains m all q vs = Some vs'"
  shows "regs_ok g vs'"
proof -
  let ?v = "\<lambda>w. upd_queue q (vs_queues vs q\<lparr>vq_save_used := w\<rparr>) vs"
  have v: "regs_ok g (?v w)" for w
    using regs_ok_queue[OF assms(1)] regs_ok_ring[OF assms(1)] ring_ok_cong[of "vs_queues vs q\<lparr>vq_save_used := w\<rparr>" "vs_queues vs q"] by simp
  then have "regs_ok g (vq_interrupt q (?v w))" for w by (simp add: vq_interrupt_def)
  then show ?thesis using assms(2) v unfolding vq_endchains_def Let_def upd_queue_def[symmetric] by (auto split: option.splits if_splits)
qed

lemma relchain_used: "vq_relchain idx iolen vq m = Some m' \<Longrightarrow> \<exists>u. vq_used vq = Some u"
  by (auto simp: vq_relchain_def split: option.splits)

lemma vdev_inv_step: "vdev_inv g m0 s \<Longrightarrow> vdev_step g e s = Some t \<Longrightarrow> vdev_inv g m0 t"
proof (induction g e s rule: vdev_step.induct)
  case (1 g tread bar off sz s)
  then show ?case using regs_ok_pci_read by (auto simp: vdev_inv_def)
next
  case (2 g bar off sz val s)
  then show ?case using regs_ok_pci_write by (auto simp: vdev_inv_def)
next
  case (3 g s)
  then show ?case using regs_ok_reset by (auto simp: vdev_inv_def)
next
  case (4 g q n_iov s)
  then show ?case using getchain_ring regs_ok_ring by (auto simp: vdev_inv_def Let_def intro!: regs_ok_queue)
next
  case (5 g q s)
  have "ring_ok g (vq_retchain vq) = ring_ok g vq" for vq by (rule ring_ok_cong) (simp_all add: vq_retchain_def)
  then show ?case using 5 regs_ok_ring by (auto simp: vdev_inv_def intro!: regs_ok_queue)
next
  case (6 g q idx iolen s)
  then show ?case using relchain_used ring_ok_relchain regs_ok_ring
    by (auto simp: vdev_inv_def split: if_splits) metis
next
  case (7 g q all s)
  then show ?case using regs_ok_endchains by (auto simp: vdev_inv_def)
next
  case (8 g w s)
  then show ?case by (auto simp: vdev_inv_def)
qed

interpretation vio: partial_machine "vdev_start g m0" "vdev_step g" "vdev_inv g m0" for g m0
proof unfold_locales
  show "vdev_inv g m0 s" if "vdev_start g m0 s" for s
    using that by (auto simp: vdev_start_def vdev_inv_def regs_ok_def ring_ok_def Let_def)
qed (rule vdev_inv_step)


definition sample_vdev :: vdev where
  "sample_vdev =
     \<lparr>vregs = \<lparr>vs_vc = \<lparr>vc_nvq = 1, vc_cfgsize = 0, vc_qnotify = False, vc_cfgread = None, vc_cfgwrite = None, vc_apply_features = False,
          vc_hv_caps = 0x10000000\<rparr>, vs_use_msix = False, vs_negotiated_caps = 0, vs_queues = (\<lambda>_. sample_queue), vs_curq = 0, vs_status = 0,
          vs_isr = 0, vs_msix_cfg_idx = 0, pi_msix_enabled = False, pi_table_bar = 1, pi_pba_bar = 1, vs_log = []\<rparr>,
      vmem = (\<lambda>_. 0)\<rparr>"

definition sample_vops :: "vdev_op list" where
  "sample_vops = [RegWrite 0 4 4 0xffffffff, RegWrite 0 8 4 1, GuestStore sample_mem, RetChain 0, RelChain 0 0 16]"

lemma sample_find: "vi_find_cr (c_int 4) = Some (Some (config_regs ! 1))" "vi_find_cr (c_int 8) = Some (Some (config_regs ! 2))"
  by (simp_all add: find_cr_linear c_int_def config_regs_def vtcfg)

lemma sample_host: "guest_host sample_ram = {0x100000..<0x110000}" "page_aligned sample_ram"
  by (simp_all add: guest_host_def sample_ram_def page_aligned_def)

lemma sample_used: "vu_idx sample_mem 0x102000 = 0" "sample_mem 0x101042 = 1"
proof -
  show "vu_idx sample_mem 0x102000 = 0" by (simp add: vu_idx_def sample_mem_def load_store_other load_zero)
  show "sample_mem 0x101042 = 1" by (simp add: sample_mem_def store_def)
qed

lemma sample_negotiate:
  "vdev_step sample_ram (RegWrite 0 4 4 0xffffffff) sample_vdev = Some (sample_vdev\<lparr>vregs := vregs sample_vdev\<lparr>vs_negotiated_caps := 0x10000000\<rparr>\<rparr>)"
  by (simp add: sample_vdev_def vi_pci_write_def device_offset_def config_size_def sample_find write_vreg_def config_regs_def vtcfg Let_def)

lemma sample_pfn:
  "vs_curq vs = 0 \<Longrightarrow> vc_nvq (vs_vc vs) = 1 \<Longrightarrow> \<not> vs_use_msix vs \<Longrightarrow> \<not> pi_msix_enabled vs \<Longrightarrow>
    vi_pci_write g 0 8 4 1 vs = Some (upd_queue 0 (vi_vq_init g 1 (vs_queues vs 0)) vs)"
  by (simp add: vi_pci_write_def device_offset_def config_size_def sample_find write_vreg_def config_regs_def vtcfg Let_def curq_wild_def
    cur_queue_def upd_queue_def)


text \<open>
  C26 (safety). Returning a request of a queue whose rings are in guest memory always succeeds: the used entry at the old index
  holds the head and the length, the used index grows by one modulo 65536, nothing outside
  guest memory changes, and neither do the descriptors and the available ring, which lie below the used ring.
\<close>

theorem relchain_publishes:
  assumes "page_aligned g" "vq = vi_vq_init g pfn vq0" "vq_qsize vq0 \<noteq> 0" "vq_used vq = Some u"
  shows "\<exists>m'. vq_relchain idx iolen vq m = Some m'
    \<and> load 4 m' (vu_ring u (unat (vu_idx m u AND (vq_qsize vq - 1)))) = (ucast idx :: u32)
    \<and> load 4 m' (vu_ring u (unat (vu_idx m u AND (vq_qsize vq - 1))) + 4) = iolen
    \<and> vu_idx m' u = vu_idx m u + 1
    \<and> (\<forall>x. x \<notin> guest_host g \<or> x < u + 2 \<longrightarrow> m' x = m x)"
proof -
  have ok: "ring_ok g vq" using ring_ok_init[OF assms(1,3)] assms(2) by simp
  obtain m' where m: "vq_relchain idx iolen vq m = Some m'" using assms(4) by (simp add: vq_relchain_def Let_def)
  show ?thesis using relchain_memory(1-3)[OF assms(4) m] ring_ok_relchain[OF ok assms(4) m] m by blast
qed

theorem relchain_publishes_witness:
  "\<exists>m'. vq_relchain 0 16 (vi_vq_init sample_ram 1 sample_queue) sample_mem = Some m' \<and> load 4 m' 0x102004 = (0 :: u32)
     \<and> load 4 m' 0x102008 = (16 :: u32) \<and> vu_idx m' 0x102000 = 1 \<and> m' 0x101042 = 1"
proof -
  have "vq_qsize sample_queue \<noteq> 0" by (simp add: sample_queue_def)
  from relchain_publishes[OF sample_host(2) refl this sample_fields(3), of 0 16 sample_mem]
  show ?thesis by (simp add: sample_used sample_fields vu_ring_def) (use sample_used(2) in \<open>force\<close>)
qed

end
