(* ===== verification/Vcpu.thy ===== *)
theory Vcpu
  imports Libc Guestmem
begin

text \<open>
  The virtual CPUs and the memory of a machine, from \<^verbatim>\<open>src/src/lib/vmm/vmm.c\<close>: memory segments and the translation of guest
  physical addresses, access to registers, the states of a virtual CPU, the events pending at an exit and at an entry, and suspension.
  The registers and segment descriptors the processor holds are part of the state of a virtual CPU; reading
  and writing them succeeds. Waking a sleeping thread and interrupting a running one are appended to a log. Mutexes,
  statistics and traces are left out; an abort, a failed assertion included, is the value \<open>None\<close>.
\<close>

section \<open>Data\<close>

datatype vm_reg_name =
  VM_REG_GUEST_RAX | VM_REG_GUEST_RBX | VM_REG_GUEST_RCX | VM_REG_GUEST_RDX | VM_REG_GUEST_RSI | VM_REG_GUEST_RDI | VM_REG_GUEST_RBP
| VM_REG_GUEST_R8 | VM_REG_GUEST_R9 | VM_REG_GUEST_R10 | VM_REG_GUEST_R11 | VM_REG_GUEST_R12 | VM_REG_GUEST_R13 | VM_REG_GUEST_R14
| VM_REG_GUEST_R15 | VM_REG_GUEST_CR0 | VM_REG_GUEST_CR3 | VM_REG_GUEST_CR4 | VM_REG_GUEST_DR7 | VM_REG_GUEST_RSP | VM_REG_GUEST_RIP
| VM_REG_GUEST_RFLAGS | VM_REG_GUEST_ES | VM_REG_GUEST_CS | VM_REG_GUEST_SS | VM_REG_GUEST_DS | VM_REG_GUEST_FS | VM_REG_GUEST_GS
| VM_REG_GUEST_LDTR | VM_REG_GUEST_TR | VM_REG_GUEST_IDTR | VM_REG_GUEST_GDTR | VM_REG_GUEST_EFER | VM_REG_GUEST_CR2 | VM_REG_GUEST_PDPTE0
| VM_REG_GUEST_PDPTE1 | VM_REG_GUEST_PDPTE2 | VM_REG_GUEST_PDPTE3 | VM_REG_GUEST_INTR_SHADOW | VM_REG_LAST

datatype vcpu_state = VCPU_IDLE | VCPU_FROZEN | VCPU_RUNNING | VCPU_SLEEPING

datatype vm_suspend_how = VM_SUSPEND_NONE | VM_SUSPEND_RESET | VM_SUSPEND_POWEROFF | VM_SUSPEND_HALT | VM_SUSPEND_TRIPLEFAULT | VM_SUSPEND_LAST

record seg_desc =
  sd_base :: u64
  sd_limit :: u32
  sd_access :: u32

record vcpu =
  cpu_state :: vcpu_state
  cpu_regs :: "vm_reg_name \<Rightarrow> u64"
  cpu_segs :: "vm_reg_name \<Rightarrow> seg_desc"
  exitintinfo :: u64
  nmi_pending :: bool
  extint_pending :: bool
  exception_pending :: bool
  exc_vector :: int
  exc_errcode_valid :: bool
  exc_errcode :: u32
  exit_rip :: u64
  inst_length :: int
  nextrip :: u64

record mem_seg =
  seg_gpa :: u64
  seg_len :: u64
  seg_object :: "nat option"

datatype vm_note = Interrupted nat | Woken nat

record vm =
  vm_vcpu :: "nat \<Rightarrow> vcpu"
  vm_active :: u64
  vm_suspended :: u64
  vm_halted :: u64
  vm_how :: vm_suspend_how
  mem_segs :: "mem_seg list"
  vm_bytes :: bytes
  vm_notes :: "vm_note list"

definition upd_vcpu :: "nat \<Rightarrow> (vcpu \<Rightarrow> vcpu) \<Rightarrow> vm \<Rightarrow> vm" where
  "upd_vcpu c f v = v\<lparr>vm_vcpu := (vm_vcpu v)(c := f (vm_vcpu v c))\<rparr>"

text \<open>The range check at the start of most functions.\<close>

definition bad_vcpuid :: "int \<Rightarrow> bool" where
  "bad_vcpuid c \<longleftrightarrow> c < 0 \<or> c \<ge> int VM_MAXCPU"

definition VM_MAX_MEMORY_SEGMENTS :: nat where "VM_MAX_MEMORY_SEGMENTS = 2"
definition VM_INTINFO_DEL_ERRCODE :: u64 where "VM_INTINFO_DEL_ERRCODE = 0x800"
definition VM_INTINFO_RSVD :: u64 where "VM_INTINFO_RSVD = 0x7ffff000"
definition VM_INTINFO_VALID :: u64 where "VM_INTINFO_VALID = 0x80000000"
definition VM_INTINFO_TYPE :: u64 where "VM_INTINFO_TYPE = 0x700"
definition VM_INTINFO_HWINTR :: u64 where "VM_INTINFO_HWINTR = 0"
definition VM_INTINFO_NMI :: u64 where "VM_INTINFO_NMI = 0x200"
definition VM_INTINFO_HWEXCEPTION :: u64 where "VM_INTINFO_HWEXCEPTION = 0x300"
definition VM_INTINFO_SWINTR :: u64 where "VM_INTINFO_SWINTR = 0x400"
definition IDT_DE :: nat where "IDT_DE = 0"
definition IDT_NMI :: nat where "IDT_NMI = 2"
definition IDT_UD :: nat where "IDT_UD = 6"
definition IDT_DF :: nat where "IDT_DF = 8"
definition IDT_TS :: nat where "IDT_TS = 10"
definition IDT_NP :: nat where "IDT_NP = 11"
definition IDT_SS :: nat where "IDT_SS = 12"
definition IDT_GP :: nat where "IDT_GP = 13"
definition IDT_PF :: nat where "IDT_PF = 14"
definition IDT_AC :: nat where "IDT_AC = 17"
definition IDT_VE :: nat where "IDT_VE = 20"

lemmas intinfo = VM_INTINFO_DEL_ERRCODE_def VM_INTINFO_RSVD_def VM_INTINFO_VALID_def VM_INTINFO_TYPE_def VM_INTINFO_HWINTR_def
  VM_INTINFO_NMI_def VM_INTINFO_HWEXCEPTION_def VM_INTINFO_SWINTR_def
lemmas idt = IDT_DE_def IDT_NMI_def IDT_UD_def IDT_DF_def IDT_TS_def IDT_NP_def IDT_SS_def IDT_GP_def IDT_PF_def IDT_AC_def IDT_VE_def

section \<open>Memory segments\<close>

definition vm_mem_allocated :: "vm \<Rightarrow> u64 \<Rightarrow> bool" where
  "vm_mem_allocated v gpa \<longleftrightarrow> (\<exists>seg \<in> set (mem_segs v). gpa \<ge> seg_gpa seg \<and> gpa < seg_gpa seg + seg_len seg)"

text \<open>The loop of \<^verbatim>\<open>vm_malloc\<close> over the pages of a request: how many are allocated and how many are available.\<close>

partial_function (option) count_pages :: "vm \<Rightarrow> u64 \<Rightarrow> u64 \<Rightarrow> nat \<Rightarrow> nat \<Rightarrow> (nat \<times> nat) option" where
  "count_pages v g limit allocated available =
     (if g < limit
      then if vm_mem_allocated v g then count_pages v (g + word_of_nat XHYVE_PAGE_SIZE) limit (allocated + 1) available
           else count_pages v (g + word_of_nat XHYVE_PAGE_SIZE) limit allocated (available + 1)
      else Some (allocated, available))"

text \<open>\<open>obj\<close> is what \<^verbatim>\<open>vmm_mem_alloc\<close> returns.\<close>

definition vm_malloc :: "nat option \<Rightarrow> u64 \<Rightarrow> u64 \<Rightarrow> vm \<Rightarrow> (errno \<times> vm) option" where
  "vm_malloc obj gpa len v =
     (if gpa AND 0xfff \<noteq> 0 \<or> len AND 0xfff \<noteq> 0 \<or> len = 0 then Some (EINVAL, v)
      else case count_pages v gpa (gpa + len) 0 0 of
             None \<Rightarrow> None
           | Some (allocated, available) \<Rightarrow>
               Some (if allocated \<noteq> 0 \<and> available \<noteq> 0 then (EINVAL, v)
                     else if allocated \<noteq> 0 \<and> available = 0 then (OK, v)
                     else if length (mem_segs v) \<ge> VM_MAX_MEMORY_SEGMENTS then (E2BIG, v)
                     else case obj of
                            None \<Rightarrow> (ENOMEM, v)
                          | Some p \<Rightarrow> (OK, v\<lparr>mem_segs := mem_segs v @ [\<lparr>seg_gpa = gpa, seg_len = len, seg_object = Some p\<rparr>]\<rparr>)))"

definition vm_get_memobj :: "vm \<Rightarrow> u64 \<Rightarrow> u64 \<Rightarrow> (u64 \<times> nat) option" where
  "vm_get_memobj v gpa len =
     (case List.find (\<lambda>seg. seg_object seg \<noteq> None \<and> gpa \<ge> seg_gpa seg \<and> gpa + len \<le> seg_gpa seg + seg_len seg) (mem_segs v) of
        None \<Rightarrow> None
      | Some seg \<Rightarrow> Some (gpa - seg_gpa seg, the (seg_object seg)))"

definition vm_gpa2hva :: "vm \<Rightarrow> u64 \<Rightarrow> u64 \<Rightarrow> nat option" where
  "vm_gpa2hva v gpa len = map_option (\<lambda>(offset, base). base + unat offset) (vm_get_memobj v gpa len)"

definition vm_gpabase2memseg :: "vm \<Rightarrow> u64 \<Rightarrow> (u64 \<times> u64) option" where
  "vm_gpabase2memseg v gpabase = map_option (\<lambda>seg. (seg_gpa seg, seg_len seg)) (List.find (\<lambda>seg. gpabase = seg_gpa seg) (mem_segs v))"

section \<open>Registers\<close>

definition vm_get_register :: "vm \<Rightarrow> int \<Rightarrow> vm_reg_name \<Rightarrow> u64 option" where
  "vm_get_register v c reg = (if bad_vcpuid c \<or> reg = VM_REG_LAST then None else Some (cpu_regs (vm_vcpu v (nat c)) reg))"

definition vm_set_register :: "int \<Rightarrow> vm_reg_name \<Rightarrow> u64 \<Rightarrow> vm \<Rightarrow> errno \<times> vm" where
  "vm_set_register c reg val v =
     (if bad_vcpuid c \<or> reg = VM_REG_LAST then (EINVAL, v)
      else
        let v1 = upd_vcpu (nat c) (\<lambda>p. p\<lparr>cpu_regs := (cpu_regs p)(reg := val)\<rparr>) v
        in (OK, if reg \<noteq> VM_REG_GUEST_RIP then v1 else upd_vcpu (nat c) (\<lambda>p. p\<lparr>nextrip := val\<rparr>) v1))"

definition is_descriptor_table :: "vm_reg_name \<Rightarrow> bool" where
  "is_descriptor_table reg \<longleftrightarrow> reg \<in> {VM_REG_GUEST_IDTR, VM_REG_GUEST_GDTR}"

definition is_segment_register :: "vm_reg_name \<Rightarrow> bool" where
  "is_segment_register reg \<longleftrightarrow> reg \<in> {VM_REG_GUEST_ES, VM_REG_GUEST_CS, VM_REG_GUEST_SS, VM_REG_GUEST_DS, VM_REG_GUEST_FS,
     VM_REG_GUEST_GS, VM_REG_GUEST_TR, VM_REG_GUEST_LDTR}"

definition vm_get_seg_desc :: "vm \<Rightarrow> int \<Rightarrow> vm_reg_name \<Rightarrow> seg_desc option" where
  "vm_get_seg_desc v c reg =
     (if bad_vcpuid c \<or> \<not> is_segment_register reg \<and> \<not> is_descriptor_table reg then None else Some (cpu_segs (vm_vcpu v (nat c)) reg))"

definition vm_set_seg_desc :: "int \<Rightarrow> vm_reg_name \<Rightarrow> seg_desc \<Rightarrow> vm \<Rightarrow> errno \<times> vm" where
  "vm_set_seg_desc c reg desc v =
     (if bad_vcpuid c \<or> \<not> is_segment_register reg \<and> \<not> is_descriptor_table reg then (EINVAL, v)
      else (OK, upd_vcpu (nat c) (\<lambda>p. p\<lparr>cpu_segs := (cpu_segs p)(reg := desc)\<rparr>) v))"

section \<open>States of a virtual CPU\<close>

text \<open>
  \<open>Waits\<close>: the caller sleeps until the virtual CPU is idle and tries again. \<open>Aborts\<close>: the assertion that the virtual CPU is not idle
  fails.
\<close>

datatype transition = Waits | Aborts | Done errno vcpu

definition vcpu_set_state_locked :: "vcpu_state \<Rightarrow> bool \<Rightarrow> vcpu \<Rightarrow> transition" where
  "vcpu_set_state_locked newstate from_idle p =
     (if from_idle \<and> cpu_state p \<noteq> VCPU_IDLE then Waits
      else if \<not> from_idle \<and> cpu_state p = VCPU_IDLE then Aborts
      else
        let error = (case cpu_state p of VCPU_FROZEN \<Rightarrow> newstate = VCPU_FROZEN | _ \<Rightarrow> newstate \<noteq> VCPU_FROZEN)
        in if error then Done EBUSY p else Done OK (p\<lparr>cpu_state := newstate\<rparr>))"

definition vcpu_set_state :: "int \<Rightarrow> vcpu_state \<Rightarrow> bool \<Rightarrow> vm \<Rightarrow> transition" where
  "vcpu_set_state c newstate from_idle v = (if bad_vcpuid c then Aborts else vcpu_set_state_locked newstate from_idle (vm_vcpu v (nat c)))"

definition vcpu_require_state :: "int \<Rightarrow> vcpu_state \<Rightarrow> vm \<Rightarrow> vm option" where
  "vcpu_require_state c newstate v =
     (case vcpu_set_state c newstate False v of Done OK p \<Rightarrow> Some (upd_vcpu (nat c) (\<lambda>_. p) v) | _ \<Rightarrow> None)"

definition vcpu_notify_event :: "nat \<Rightarrow> vm \<Rightarrow> vm" where
  "vcpu_notify_event c v =
     (case cpu_state (vm_vcpu v c) of
        VCPU_RUNNING \<Rightarrow> v\<lparr>vm_notes := vm_notes v @ [Interrupted c]\<rparr>
      | VCPU_SLEEPING \<Rightarrow> v\<lparr>vm_notes := vm_notes v @ [Woken c]\<rparr>
      | _ \<Rightarrow> v)"

definition vm_suspend :: "vm_suspend_how \<Rightarrow> vm \<Rightarrow> errno \<times> vm" where
  "vm_suspend how v =
     (if how = VM_SUSPEND_NONE \<or> how = VM_SUSPEND_LAST then (EINVAL, v)
      else if vm_how v \<noteq> VM_SUSPEND_NONE then (EALREADY, v)
      else (OK, fold (\<lambda>i v. if bit (vm_active v) i then vcpu_notify_event i v else v) [0..<VM_MAXCPU] (v\<lparr>vm_how := how\<rparr>)))"

section \<open>Events\<close>

text \<open>\<open>None\<close> is the abort in a state that is neither running nor frozen.\<close>

definition vm_restart_instruction :: "int \<Rightarrow> vm \<Rightarrow> (errno \<times> vm) option" where
  "vm_restart_instruction c v =
     (if bad_vcpuid c then Some (EINVAL, v)
      else case cpu_state (vm_vcpu v (nat c)) of
             VCPU_RUNNING \<Rightarrow> Some (OK, upd_vcpu (nat c) (\<lambda>p. p\<lparr>inst_length := 0\<rparr>) v)
           | VCPU_FROZEN \<Rightarrow>
               (case vm_get_register v c VM_REG_GUEST_RIP of
                  None \<Rightarrow> None
                | Some rip \<Rightarrow> Some (OK, upd_vcpu (nat c) (\<lambda>p. p\<lparr>nextrip := rip\<rparr>) v))
           | _ \<Rightarrow> None)"

definition vm_exit_intinfo :: "int \<Rightarrow> u64 \<Rightarrow> vm \<Rightarrow> errno \<times> vm" where
  "vm_exit_intinfo c info v =
     (if bad_vcpuid c then (EINVAL, v)
      else if info AND VM_INTINFO_VALID \<noteq> 0
      then
        let type = info AND VM_INTINFO_TYPE; vector = info AND 0xff
        in if type = VM_INTINFO_NMI \<and> vector \<noteq> word_of_nat IDT_NMI then (EINVAL, v)
           else if type = VM_INTINFO_HWEXCEPTION \<and> vector \<ge> 32 then (EINVAL, v)
           else if info AND VM_INTINFO_RSVD \<noteq> 0 then (EINVAL, v)
           else (OK, upd_vcpu (nat c) (\<lambda>p. p\<lparr>exitintinfo := info\<rparr>) v)
      else (OK, upd_vcpu (nat c) (\<lambda>p. p\<lparr>exitintinfo := 0\<rparr>) v))"

datatype exc_class = EXC_BENIGN | EXC_CONTRIBUTORY | EXC_PAGEFAULT

definition exception_class :: "u64 \<Rightarrow> exc_class option" where
  "exception_class info =
     (if info AND VM_INTINFO_VALID = 0 then None
      else
        let type = info AND VM_INTINFO_TYPE; vector = unat (info AND 0xff)
        in Some (if type \<in> {VM_INTINFO_HWINTR, VM_INTINFO_SWINTR, VM_INTINFO_NMI} then EXC_BENIGN
                 else if vector \<in> {IDT_PF, IDT_VE} then EXC_PAGEFAULT
                 else if vector \<in> {IDT_DE, IDT_TS, IDT_NP, IDT_SS, IDT_GP} then EXC_CONTRIBUTORY
                 else EXC_BENIGN))"

text \<open>The result is the return value and \<^verbatim>\<open>*retinfo\<close>.\<close>

definition nested_fault :: "u64 \<Rightarrow> u64 \<Rightarrow> vm \<Rightarrow> (bool \<times> u64 \<times> vm) option" where
  "nested_fault info1 info2 v =
     (if info1 AND VM_INTINFO_VALID = 0 \<or> info2 AND VM_INTINFO_VALID = 0 then None
      else if info1 AND VM_INTINFO_TYPE = VM_INTINFO_HWEXCEPTION \<and> info1 AND 0xff = word_of_nat IDT_DF
      then Some (False, 0, snd (vm_suspend VM_SUSPEND_TRIPLEFAULT v))
      else case (exception_class info1, exception_class info2) of
             (Some exc1, Some exc2) \<Rightarrow>
               if exc1 = EXC_CONTRIBUTORY \<and> exc2 = EXC_CONTRIBUTORY \<or> exc1 = EXC_PAGEFAULT \<and> exc2 \<noteq> EXC_BENIGN
               then Some (True, word_of_nat IDT_DF OR (VM_INTINFO_VALID OR VM_INTINFO_HWEXCEPTION) OR VM_INTINFO_DEL_ERRCODE, v)
               else Some (True, info2, v)
           | _ \<Rightarrow> None)"

definition vcpu_exception_intinfo :: "vcpu \<Rightarrow> u64" where
  "vcpu_exception_intinfo p =
     (if exception_pending p
      then
        let info = word_of_int (exc_vector p) AND 0xff OR (VM_INTINFO_VALID OR VM_INTINFO_HWEXCEPTION)
        in if exc_errcode_valid p then info OR VM_INTINFO_DEL_ERRCODE OR push_bit 32 (ucast (exc_errcode p)) else info
      else 0)"

text \<open>The result is the return value, \<^verbatim>\<open>*retinfo\<close> where it is set, and the machine.\<close>

definition vm_entry_intinfo :: "int \<Rightarrow> vm \<Rightarrow> (bool \<times> u64 option \<times> vm) option" where
  "vm_entry_intinfo c v =
     (if bad_vcpuid c then None
      else
        let p = vm_vcpu v (nat c);
            info1 = exitintinfo p;
            info2 = (if exception_pending p then vcpu_exception_intinfo p else 0);
            v1 = upd_vcpu (nat c) (\<lambda>p. p\<lparr>exitintinfo := 0, exception_pending := False\<rparr>) v
        in if info1 AND VM_INTINFO_VALID \<noteq> 0 \<and> info2 AND VM_INTINFO_VALID \<noteq> 0
           then map_option (\<lambda>(valid, info, v2). (valid, Some info, v2)) (nested_fault info1 info2 v1)
           else if info1 AND VM_INTINFO_VALID \<noteq> 0 then Some (True, Some info1, v1)
           else if info2 AND VM_INTINFO_VALID \<noteq> 0 then Some (True, Some info2, v1)
           else Some (False, None, v1))"

definition vm_get_intinfo :: "vm \<Rightarrow> int \<Rightarrow> (u64 \<times> u64) option" where
  "vm_get_intinfo v c =
     (if bad_vcpuid c then None else Some (exitintinfo (vm_vcpu v (nat c)), vcpu_exception_intinfo (vm_vcpu v (nat c))))"

definition vm_inject_exception :: "int \<Rightarrow> int \<Rightarrow> bool \<Rightarrow> u32 \<Rightarrow> bool \<Rightarrow> vm \<Rightarrow> (errno \<times> vm) option" where
  "vm_inject_exception c vector errcode_valid errcode restart_instruction v =
     (if bad_vcpuid c then Some (EINVAL, v)
      else if vector < 0 \<or> vector \<ge> 32 then Some (EINVAL, v)
      else if vector = int IDT_DF then Some (EINVAL, v)
      else if exception_pending (vm_vcpu v (nat c)) then Some (EBUSY, v)
      else
        let (error, v1) = vm_set_register c VM_REG_GUEST_INTR_SHADOW 0 v
        in if error \<noteq> OK then None
           else case (if restart_instruction then map_option snd (vm_restart_instruction c v1) else Some v1) of
                  None \<Rightarrow> None
                | Some v2 \<Rightarrow>
                    Some (OK, upd_vcpu (nat c) (\<lambda>p. p\<lparr>exception_pending := True, exc_vector := vector, exc_errcode := errcode,
                                exc_errcode_valid := errcode_valid\<rparr>) v2))"

definition vm_inject_fault :: "int \<Rightarrow> int \<Rightarrow> bool \<Rightarrow> int \<Rightarrow> vm \<Rightarrow> vm option" where
  "vm_inject_fault c vector errcode_valid errcode v =
     (case vm_inject_exception c vector errcode_valid (word_of_int errcode) True v of Some (OK, v1) \<Rightarrow> Some v1 | _ \<Rightarrow> None)"

definition vm_inject_pf :: "int \<Rightarrow> int \<Rightarrow> u64 \<Rightarrow> vm \<Rightarrow> vm option" where
  "vm_inject_pf c error_code cr2 v =
     (let (error, v1) = vm_set_register c VM_REG_GUEST_CR2 cr2 v
      in if error \<noteq> OK then None else vm_inject_fault c (int IDT_PF) True error_code v1)"

definition vm_inject_ud :: "int \<Rightarrow> vm \<Rightarrow> vm option" where "vm_inject_ud c = vm_inject_fault c (int IDT_UD) False 0"
definition vm_inject_gp :: "int \<Rightarrow> vm \<Rightarrow> vm option" where "vm_inject_gp c = vm_inject_fault c (int IDT_GP) True 0"
definition vm_inject_ac :: "int \<Rightarrow> int \<Rightarrow> vm \<Rightarrow> vm option" where "vm_inject_ac c errcode = vm_inject_fault c (int IDT_AC) True errcode"
definition vm_inject_ss :: "int \<Rightarrow> int \<Rightarrow> vm \<Rightarrow> vm option" where "vm_inject_ss c errcode = vm_inject_fault c (int IDT_SS) True errcode"

definition vm_inject_nmi :: "int \<Rightarrow> vm \<Rightarrow> errno \<times> vm" where
  "vm_inject_nmi c v =
     (if bad_vcpuid c then (EINVAL, v) else (OK, vcpu_notify_event (nat c) (upd_vcpu (nat c) (\<lambda>p. p\<lparr>nmi_pending := True\<rparr>) v)))"

definition vm_nmi_pending :: "vm \<Rightarrow> int \<Rightarrow> bool option" where
  "vm_nmi_pending v c = (if bad_vcpuid c then None else Some (nmi_pending (vm_vcpu v (nat c))))"

definition vm_nmi_clear :: "int \<Rightarrow> vm \<Rightarrow> vm option" where
  "vm_nmi_clear c v =
     (if bad_vcpuid c \<or> \<not> nmi_pending (vm_vcpu v (nat c)) then None else Some (upd_vcpu (nat c) (\<lambda>p. p\<lparr>nmi_pending := False\<rparr>) v))"

definition vm_inject_extint :: "int \<Rightarrow> vm \<Rightarrow> errno \<times> vm" where
  "vm_inject_extint c v =
     (if bad_vcpuid c then (EINVAL, v) else (OK, vcpu_notify_event (nat c) (upd_vcpu (nat c) (\<lambda>p. p\<lparr>extint_pending := True\<rparr>) v)))"

definition vm_extint_pending :: "vm \<Rightarrow> int \<Rightarrow> bool option" where
  "vm_extint_pending v c = (if bad_vcpuid c then None else Some (extint_pending (vm_vcpu v (nat c))))"

definition vm_extint_clear :: "int \<Rightarrow> vm \<Rightarrow> vm option" where
  "vm_extint_clear c v =
     (if bad_vcpuid c \<or> \<not> extint_pending (vm_vcpu v (nat c)) then None else Some (upd_vcpu (nat c) (\<lambda>p. p\<lparr>extint_pending := False\<rparr>) v))"

text \<open>The start of a virtual CPU, as \<^verbatim>\<open>vcpu_init\<close> makes it; the rest of its state comes from the processor.\<close>

definition vcpu_init :: "nat \<Rightarrow> bool \<Rightarrow> vm \<Rightarrow> vm" where
  "vcpu_init c create =
     upd_vcpu c (\<lambda>p. (if create then p\<lparr>cpu_state := VCPU_IDLE\<rparr> else p)
       \<lparr>exitintinfo := 0, nmi_pending := False, extint_pending := False, exception_pending := False\<rparr>)"

section \<open>Requests for memory\<close>

text \<open>Guest physical memory in pages: a segment covers whole pages, does not wrap around, and no two segments share a page.\<close>

definition seg_pages :: "mem_seg \<Rightarrow> nat set" where
  "seg_pages seg = {unat (seg_gpa seg) div 4096..<(unat (seg_gpa seg) + unat (seg_len seg)) div 4096}"

definition seg_ok :: "mem_seg \<Rightarrow> bool" where
  "seg_ok seg \<longleftrightarrow> 4096 dvd unat (seg_gpa seg) \<and> 4096 dvd unat (seg_len seg) \<and> seg_len seg \<noteq> 0
     \<and> unat (seg_gpa seg) + unat (seg_len seg) < 2 ^ 64"

definition segs_ok :: "vm \<Rightarrow> bool" where
  "segs_ok v \<longleftrightarrow> length (mem_segs v) \<le> VM_MAX_MEMORY_SEGMENTS \<and> (\<forall>seg \<in> set (mem_segs v). seg_ok seg)
     \<and> (\<forall>i j. i < j \<longrightarrow> j < length (mem_segs v) \<longrightarrow> seg_pages (mem_segs v ! i) \<inter> seg_pages (mem_segs v ! j) = {})"

lemma unat_sum: "unat a + unat b < 2 ^ 64 \<Longrightarrow> unat (a + b) = unat a + unat b" for a b :: u64
  by (simp add: unat_word_ariths)

lemma page_range: "4096 * a \<le> g \<and> g < 4096 * a + 4096 * l \<longleftrightarrow> a \<le> g div 4096 \<and> g div 4096 < a + l" for a g l :: nat
  unfolding less_eq_div_iff_mult_less_eq[OF zero_less_numeral] div_less_iff_less_mult[OF zero_less_numeral] by (simp add: algebra_simps)

lemma seg_range:
  assumes "seg_ok seg"
  shows "seg_gpa seg \<le> gpa \<and> gpa < seg_gpa seg + seg_len seg \<longleftrightarrow> unat gpa div 4096 \<in> seg_pages seg"
proof -
  have s: "unat (seg_gpa seg + seg_len seg) = unat (seg_gpa seg) + unat (seg_len seg)" using assms by (simp add: seg_ok_def unat_sum)
  obtain a l where al: "unat (seg_gpa seg) = 4096 * a" "unat (seg_len seg) = 4096 * l" using assms unfolding seg_ok_def by (metis dvdE)
  have p: "seg_pages seg = {a..<a + l}" unfolding seg_pages_def al distrib_left[symmetric] by (simp only: nonzero_mult_div_cancel_left)
  show ?thesis unfolding word_le_nat_alt word_less_nat_alt s p unfolding al using page_range[of a "unat gpa" l] by simp
qed

lemma allocated_page:
  assumes "segs_ok v"
  shows "vm_mem_allocated v gpa \<longleftrightarrow> (\<exists>seg \<in> set (mem_segs v). unat gpa div 4096 \<in> seg_pages seg)"
  using assms seg_range unfolding vm_mem_allocated_def segs_ok_def by blast

text \<open>The loop over the pages ends and counts each page of the request once.\<close>

lemma count_pages_exact:
  assumes "unat g = 4096 * a" "unat limit = 4096 * b" "a \<le> b"
  shows "count_pages v g limit k l = Some (k + card {p \<in> {a..<b}. vm_mem_allocated v (word_of_nat (4096 * p))},
    l + card {p \<in> {a..<b}. \<not> vm_mem_allocated v (word_of_nat (4096 * p))})"
  using assms
proof (induction "b - a" arbitrary: a g k l)
  case 0
  then have "\<not> g < limit" by (simp add: word_less_nat_alt)
  then show ?case using 0 by (subst count_pages.simps) simp
next
  case (Suc n)
  have ab: "a < b" using Suc(2) by simp
  have lim: "unat limit < 2 ^ 64" using unsigned_less[where 'a = nat and w = limit] by simp
  have g: "g < limit" using Suc(3,4) ab by (simp add: word_less_nat_alt)
  have a: "word_of_nat (4096 * a) = g" unfolding Suc(3)[symmetric] by simp
  have u: "unat (g + word_of_nat XHYVE_PAGE_SIZE) = 4096 * (a + 1)"
    using Suc(3,4) ab lim by (subst unat_sum) (simp_all add: XHYVE_PAGE_SIZE_def)
  have split: "{p \<in> {a..<b}. P p} = (if P a then insert a {p \<in> {a + 1..<b}. P p} else {p \<in> {a + 1..<b}. P p})" for P
    using ab by (auto simp: less_Suc_eq_le order_le_less)
  have IH: "count_pages v (g + word_of_nat XHYVE_PAGE_SIZE) limit k' l' =
      Some (k' + card {p \<in> {a + 1..<b}. vm_mem_allocated v (word_of_nat (4096 * p))},
        l' + card {p \<in> {a + 1..<b}. \<not> vm_mem_allocated v (word_of_nat (4096 * p))})" for k' l'
    using Suc.hyps(1)[OF _ u Suc(4)] Suc(2) ab by simp
  have step: "count_pages v g limit k l =
      (if vm_mem_allocated v g then count_pages v (g + word_of_nat XHYVE_PAGE_SIZE) limit (k + 1) l
       else count_pages v (g + word_of_nat XHYVE_PAGE_SIZE) limit k (l + 1))"
    using g by (subst count_pages.simps) simp
  show ?case unfolding step IH split[of "\<lambda>p. vm_mem_allocated v (word_of_nat (4096 * p))"]
      split[of "\<lambda>p. \<not> vm_mem_allocated v (word_of_nat (4096 * p))"] a by simp
qed

lemma page_of_nat: "4096 * p < 2 ^ 64 \<Longrightarrow> unat (word_of_nat (4096 * p) :: u64) div 4096 = p"
  unfolding unsigned_of_nat using take_bit_nat_eq_self[of "4096 * p" 64] by (simp only: len_of_numeral_defs) simp

lemma page_dvd: "w AND 0xfff = 0 \<Longrightarrow> 4096 dvd unat w" for w :: u64
proof -
  assume "w AND 0xfff = 0"
  then have "take_bit 12 w = 0" by (simp add: take_bit_eq_mask mask_eq_exp_minus_1)
  then have "take_bit 12 (unat w) = 0" by (metis unsigned_0 unsigned_take_bit_eq)
  then show ?thesis by (simp add: take_bit_eq_mod mod_eq_0_iff_dvd)
qed

lemma seg_of_pages:
  assumes "unat gpa = 4096 * a" "unat len = 4096 * l" "len \<noteq> 0" "unat gpa + unat len < 2 ^ 64"
  shows "seg_ok \<lparr>seg_gpa = gpa, seg_len = len, seg_object = p\<rparr>" "seg_pages \<lparr>seg_gpa = gpa, seg_len = len, seg_object = p\<rparr> = {a..<a + l}"
proof -
  show "seg_ok \<lparr>seg_gpa = gpa, seg_len = len, seg_object = p\<rparr>" using assms by (simp add: seg_ok_def)
  show "seg_pages \<lparr>seg_gpa = gpa, seg_len = len, seg_object = p\<rparr> = {a..<a + l}"
    unfolding seg_pages_def mem_seg.simps assms(1,2) distrib_left[symmetric] by (simp only: nonzero_mult_div_cancel_left)
qed

text \<open>Whether a page of a request is allocated, by its number.\<close>

lemma allocated_number:
  assumes "segs_ok v" "4096 * q < 2 ^ 64"
  shows "vm_mem_allocated v (word_of_nat (4096 * q)) \<longleftrightarrow> (\<exists>s \<in> set (mem_segs v). q \<in> seg_pages s)"
  unfolding allocated_page[OF assms(1)] page_of_nat[OF assms(2)] ..

lemma segs_ok_append:
  assumes "segs_ok v" "length (mem_segs v) < VM_MAX_MEMORY_SEGMENTS" "seg_ok seg"
    "\<And>s. s \<in> set (mem_segs v) \<Longrightarrow> seg_pages s \<inter> seg_pages seg = {}"
  shows "segs_ok (v\<lparr>mem_segs := mem_segs v @ [seg]\<rparr>)"
proof -
  have "seg_pages ((mem_segs v @ [seg]) ! i) \<inter> seg_pages ((mem_segs v @ [seg]) ! j) = {}" if "i < j" "j < length (mem_segs v) + 1" for i j
    using that assms(1,4) by (cases "j < length (mem_segs v)") (auto simp: nth_append segs_ok_def less_Suc_eq)
  then show ?thesis using assms(1-3) by (auto simp: segs_ok_def)
qed

lemma allocated_append:
  assumes "segs_ok (v\<lparr>mem_segs := mem_segs v @ [seg]\<rparr>)" "seg_gpa seg \<le> x" "x < seg_gpa seg + seg_len seg"
  shows "vm_mem_allocated (v\<lparr>mem_segs := mem_segs v @ [seg]\<rparr>) x"
  using assms by (simp add: vm_mem_allocated_def)

lemma count_request:
  assumes "segs_ok v" "unat gpa = 4096 * a" "unat len = 4096 * l" "unat gpa + unat len < 2 ^ 64"
  shows "\<exists>A N. count_pages v gpa (gpa + len) 0 0 = Some (A, N)
    \<and> (N = 0 \<longrightarrow> (\<forall>x. x \<in> {gpa..<gpa + len} \<longrightarrow> vm_mem_allocated v x))
    \<and> (A = 0 \<longrightarrow> (\<forall>s \<in> set (mem_segs v). seg_pages s \<inter> {a..<a + l} = {}))"
proof -
  have lim: "unat (gpa + len) = 4096 * (a + l)" using unat_sum[OF assms(4)] assms(2,3) by simp
  let ?P = "\<lambda>p. vm_mem_allocated v (word_of_nat (4096 * p))"
  let ?A = "{p \<in> {a..<a + l}. ?P p}" and ?N = "{p \<in> {a..<a + l}. \<not> ?P p}"
  have small: "4096 * p < 2 ^ 64" if "p < a + l" for p using that assms(2-4) by simp
  have rng: "x \<in> {gpa..<gpa + len} \<longleftrightarrow> unat x div 4096 \<in> {a..<a + l}" for x
    unfolding atLeastLessThan_iff word_le_nat_alt word_less_nat_alt lim assms(2) distrib_left by (rule page_range)
  have none: "vm_mem_allocated v x" if "?N = {}" "x \<in> {gpa..<gpa + len}" for x
  proof -
    have "?P (unat x div 4096)" using that rng[of x] by blast
    moreover have "unat x div 4096 < a + l" using that(2) rng[of x] unfolding atLeastLessThan_iff by blast
    ultimately show ?thesis using allocated_number[OF assms(1) small] allocated_page[OF assms(1), of x] by blast
  qed
  have all: "seg_pages s \<inter> {a..<a + l} = {}" if "?A = {}" "s \<in> set (mem_segs v)" for s
  proof -
    have "\<not> ?P q" if "q \<in> {a..<a + l}" for q using \<open>?A = {}\<close> that by blast
    then show ?thesis using allocated_number[OF assms(1) small] that(2) by auto
  qed
  have z: "card ?N = 0 \<longleftrightarrow> ?N = {}" "card ?A = 0 \<longleftrightarrow> ?A = {}" by (rule card_0_eq, simp)+
  show ?thesis
  proof (intro exI conjI impI allI ballI)
    show "count_pages v gpa (gpa + len) 0 0 = Some (card ?A, card ?N)" using count_pages_exact[OF assms(2) lim, of v 0 0] by simp
    show "vm_mem_allocated v x" if "card ?N = 0" "x \<in> {gpa..<gpa + len}" for x using none[OF _ that(2)] that(1) unfolding z .
    show "seg_pages s \<inter> {a..<a + l} = {}" if "card ?A = 0" "s \<in> set (mem_segs v)" for s using all[OF _ that(2)] that(1) unfolding z .
  qed
qed



text \<open>Translating an address that is not near the end of the address space stays inside one segment.\<close>

lemma gpa2hva_inside:
  assumes "segs_ok v" "vm_gpa2hva v gpa len = Some h" "unat gpa + unat len < 2 ^ 64"
  obtains seg base where "seg \<in> set (mem_segs v)" "seg_object seg = Some base" "h = base + (unat gpa - unat (seg_gpa seg))"
    "unat (seg_gpa seg) \<le> unat gpa" "unat gpa + unat len \<le> unat (seg_gpa seg) + unat (seg_len seg)"
proof -
  obtain seg where f: "List.find (\<lambda>seg. seg_object seg \<noteq> None \<and> gpa \<ge> seg_gpa seg \<and> gpa + len \<le> seg_gpa seg + seg_len seg) (mem_segs v) = Some seg"
    and h: "h = the (seg_object seg) + unat (gpa - seg_gpa seg)"
    using assms(2) by (auto simp: vm_gpa2hva_def vm_get_memobj_def split: option.splits)
  have s: "seg \<in> set (mem_segs v)" "seg_object seg \<noteq> None" "seg_gpa seg \<le> gpa" "gpa + len \<le> seg_gpa seg + seg_len seg"
    using find_SomeD[OF f] by auto
  have "seg_ok seg" using assms(1) s(1) by (simp add: segs_ok_def)
  then have "unat gpa + unat len \<le> unat (seg_gpa seg) + unat (seg_len seg)"
    using s(4) unat_sum[OF assms(3)] by (simp add: seg_ok_def word_le_nat_alt unat_sum)
  moreover have "unat (gpa - seg_gpa seg) = unat gpa - unat (seg_gpa seg)" using s(3) by (rule unat_sub)
  ultimately show ?thesis using that[OF s(1)] s(2,3) h by (auto simp: word_le_nat_alt)
qed

section \<open>Interruption information\<close>

text \<open>
  What the processor accepts as an event to deliver: nothing, or a valid entry without reserved bits, where a non-maskable
  interrupt has vector 2 and an exception a vector below 32.
\<close>

definition intinfo_wf :: "u64 \<Rightarrow> bool" where
  "intinfo_wf info \<longleftrightarrow> info = 0 \<or>
     info AND VM_INTINFO_VALID \<noteq> 0 \<and> info AND VM_INTINFO_RSVD = 0
     \<and> (info AND VM_INTINFO_TYPE = VM_INTINFO_NMI \<longrightarrow> info AND 0xff = 2)
     \<and> (info AND VM_INTINFO_TYPE = VM_INTINFO_HWEXCEPTION \<longrightarrow> info AND 0xff < 32)"

definition vcpu_events_ok :: "vcpu \<Rightarrow> bool" where
  "vcpu_events_ok p \<longleftrightarrow> intinfo_wf (exitintinfo p) \<and> (exception_pending p \<longrightarrow> 0 \<le> exc_vector p \<and> exc_vector p < 32 \<and> exc_vector p \<noteq> int IDT_DF)"

definition events_ok :: "vm \<Rightarrow> bool" where
  "events_ok v \<longleftrightarrow> (\<forall>c. vcpu_events_ok (vm_vcpu v c))"

lemma and_zero_mono: "x AND k = 0 \<Longrightarrow> m AND k = m \<Longrightarrow> x AND m = 0" for x k m :: "'a::len word"
proof -
  assume z: "x AND k = 0" and m: "m AND k = m"
  have "x AND m = x AND (k AND m)" using m by (simp only: and.commute)
  also have "\<dots> = (x AND k) AND m" by (simp only: and.assoc)
  finally show ?thesis by (simp add: z)
qed

lemma high_and_low: "m AND 0xffffffff = m \<Longrightarrow> push_bit 32 x AND m = 0" for x m :: u64
proof (rule and_zero_mono)
  have "push_bit 32 x AND 0xffffffff = take_bit 32 (push_bit 32 x)" by (simp add: take_bit_eq_mask mask_eq_exp_minus_1)
  then show "push_bit 32 x AND 0xffffffff = 0" by (simp add: take_bit_push_bit)
qed

lemma vector_and:
  assumes "0 \<le> n" "n < 32"
  shows "(word_of_int n :: u64) AND 0xff = word_of_int n" "m AND 0xff = 0 \<Longrightarrow> (word_of_int n :: u64) AND m = 0"
proof -
  have "take_bit 8 n = n" using assms by (simp add: take_bit_int_eq_self)
  then have "take_bit 8 (word_of_int n :: u64) = word_of_int n" by (metis take_bit_of_int)
  then show v: "(word_of_int n :: u64) AND 0xff = word_of_int n" by (simp add: take_bit_eq_mask mask_eq_exp_minus_1)
  show "(word_of_int n :: u64) AND m = 0" if "m AND 0xff = 0"
    using and_zero_mono[OF that v] by (simp only: and.commute)
qed

lemma exception_fields:
  assumes "exception_pending p" "0 \<le> exc_vector p" "exc_vector p < 32"
  shows "vcpu_exception_intinfo p AND VM_INTINFO_VALID \<noteq> 0" "vcpu_exception_intinfo p AND VM_INTINFO_RSVD = 0"
    "vcpu_exception_intinfo p AND VM_INTINFO_TYPE = VM_INTINFO_HWEXCEPTION" "vcpu_exception_intinfo p AND 0xff = word_of_int (exc_vector p)"
proof -
  note v = vector_and[OF assms(2,3)]
  define w where "w = (word_of_int (exc_vector p) :: u64)"
  define e where "e = push_bit 32 (ucast (exc_errcode p) :: u64)"
  have i: "vcpu_exception_intinfo p = w OR 0x80000300 \<or> vcpu_exception_intinfo p = (w OR 0x80000300) OR 0x800 OR e"
    using assms(1) v(1) by (simp add: vcpu_exception_intinfo_def Let_def intinfo w_def e_def)
  have a: "w AND 0xff = w" "w AND 0x700 = 0" "w AND 0x80000000 = 0" "w AND 0x7ffff000 = 0" unfolding w_def by (simp_all add: v)
  have h: "e AND 0xff = 0" "e AND 0x700 = 0" "e AND 0x80000000 = 0" "e AND 0x7ffff000 = 0" unfolding e_def by (simp_all add: high_and_low)
  show "vcpu_exception_intinfo p AND VM_INTINFO_VALID \<noteq> 0" using i a h by (auto simp: intinfo bit.conj_disj_distrib2)
  show "vcpu_exception_intinfo p AND VM_INTINFO_RSVD = 0" using i a h by (auto simp: intinfo bit.conj_disj_distrib2)
  show "vcpu_exception_intinfo p AND VM_INTINFO_TYPE = VM_INTINFO_HWEXCEPTION" using i a h by (auto simp: intinfo bit.conj_disj_distrib2)
  show "vcpu_exception_intinfo p AND 0xff = word_of_int (exc_vector p)" using i a h by (auto simp: w_def[symmetric] bit.conj_disj_distrib2)
qed

lemma exception_wf: "exception_pending p \<Longrightarrow> 0 \<le> exc_vector p \<Longrightarrow> exc_vector p < 32 \<Longrightarrow> intinfo_wf (vcpu_exception_intinfo p)"
proof -
  assume p: "exception_pending p" "0 \<le> exc_vector p" "exc_vector p < 32"
  have "(word_of_int (exc_vector p) :: u64) < 32" using p(2,3) by (simp add: word_less_def uint_word_of_int)
  then show ?thesis using exception_fields[OF p] by (simp add: intinfo_wf_def intinfo)
qed

section \<open>Nested events\<close>

text \<open>
  The events as the processor manual has them: none, an interrupt, or an exception with its vector; and what is to be delivered when a
  second event arises while a first is being delivered, from the manual's table of double faults. \<open>None\<close> is the shutdown.
\<close>

datatype event = Quiet | Interrupt | Fault nat

definition event_of :: "u64 \<Rightarrow> event" where
  "event_of info =
     (if info AND VM_INTINFO_VALID = 0 then Quiet
      else if info AND VM_INTINFO_TYPE \<in> {VM_INTINFO_HWINTR, VM_INTINFO_SWINTR, VM_INTINFO_NMI} then Interrupt
      else Fault (unat (info AND 0xff)))"

definition contributory :: "nat \<Rightarrow> bool" where "contributory n \<longleftrightarrow> n \<in> {0, 10, 11, 12, 13}"
definition paging_fault :: "nat \<Rightarrow> bool" where "paging_fault n \<longleftrightarrow> n \<in> {14, 20}"

fun nested :: "event \<Rightarrow> event \<Rightarrow> event option" where
  "nested e Quiet = Some e"
| "nested (Fault a) (Fault b) =
     (if a = 8 then None
      else if contributory a \<and> contributory b \<or> paging_fault a \<and> (contributory b \<or> paging_fault b) then Some (Fault 8)
      else Some (Fault b))"
| "nested e f = Some f"

lemma class_of_event:
  assumes "info AND VM_INTINFO_VALID \<noteq> 0"
  shows "exception_class info = Some (case event_of info of
    Fault n \<Rightarrow> (if paging_fault n then EXC_PAGEFAULT else if contributory n then EXC_CONTRIBUTORY else EXC_BENIGN) | _ \<Rightarrow> EXC_BENIGN)"
  using assms unfolding exception_class_def event_of_def Let_def paging_fault_def contributory_def idt by simp

lemma event_exception:
  assumes "exception_pending p" "0 \<le> exc_vector p" "exc_vector p < 32"
  shows "event_of (vcpu_exception_intinfo p) = Fault (nat (exc_vector p))"
proof -
  have "unat (word_of_int (exc_vector p) :: u64) = nat (exc_vector p)"
    using assms(2,3) by (simp add: unsigned_of_int take_bit_int_eq_self)
  then show ?thesis using exception_fields[OF assms] by (simp add: event_of_def intinfo)
qed

lemma suspend_triple: "vm_how (snd (vm_suspend VM_SUSPEND_TRIPLEFAULT v)) \<noteq> VM_SUSPEND_NONE"
proof -
  have n: "vm_how (vcpu_notify_event c w) = vm_how w" for c w by (simp add: vcpu_notify_event_def split: vcpu_state.split)
  have "vm_how (fold (\<lambda>i v. if bit (vm_active v) i then vcpu_notify_event i v else v) cs w) = vm_how w" for cs w
    by (induction cs arbitrary: w) (simp_all add: n)
  then show ?thesis by (simp add: vm_suspend_def)
qed

lemma suspend_vcpu: "vm_vcpu (snd (vm_suspend how v)) = vm_vcpu v"
proof -
  have n: "vm_vcpu (vcpu_notify_event c w) = vm_vcpu w" for c w by (simp add: vcpu_notify_event_def split: vcpu_state.split)
  have "vm_vcpu (fold (\<lambda>i v. if bit (vm_active v) i then vcpu_notify_event i v else v) cs w) = vm_vcpu w" for cs w
    by (induction cs arbitrary: w) (simp_all add: n)
  then show ?thesis by (simp add: vm_suspend_def)
qed

text \<open>The outcome of two nested events, in terms of what they are.\<close>

lemma nested_fault_exact:
  assumes "info1 AND VM_INTINFO_VALID \<noteq> 0" "info2 AND VM_INTINFO_VALID \<noteq> 0" "event_of info2 = Fault b"
    "info1 AND VM_INTINFO_TYPE \<in> {0, 0x200, 0x300, 0x400}"
  shows "\<exists>valid info v'. nested_fault info1 info2 v = Some (valid, info, v') \<and> vm_vcpu v' = vm_vcpu v
    \<and> (case nested (event_of info1) (Fault b) of None \<Rightarrow> \<not> valid \<and> vm_how v' \<noteq> VM_SUSPEND_NONE | Some e \<Rightarrow> valid \<and> event_of info = e)
    \<and> (intinfo_wf info2 \<longrightarrow> intinfo_wf info)"
proof -
  note c = class_of_event[OF assms(1)] class_of_event[OF assms(2)]
  have df: "event_of 0x80000b08 = Fault 8" "intinfo_wf 0x80000b08" by (simp_all add: event_of_def intinfo_wf_def intinfo)
  have d: "word_of_nat IDT_DF OR (VM_INTINFO_VALID OR VM_INTINFO_HWEXCEPTION) OR VM_INTINFO_DEL_ERRCODE = 0x80000b08" by (simp add: intinfo idt)
  have n: "event_of info1 \<noteq> Quiet" using assms(1) by (simp add: event_of_def)
  have t: "info1 AND VM_INTINFO_TYPE = VM_INTINFO_HWEXCEPTION \<longleftrightarrow> event_of info1 = Fault (unat (info1 AND 0xff))"
    using assms(1,4) by (auto simp: event_of_def intinfo)
  have u: "info1 AND 0xff = word_of_nat IDT_DF \<longleftrightarrow> unat (info1 AND 0xff) = 8" by (simp add: idt word_unat_eq_iff)
  have f: "event_of info1 = Fault m \<Longrightarrow> m = unat (info1 AND 0xff)" for m by (auto simp: event_of_def split: if_splits)
  show ?thesis
  proof (cases "event_of info1")
    case Interrupt
    then show ?thesis using assms(1-3) c t unfolding nested_fault_def by auto
  next
    case (Fault a)
    show ?thesis
    proof (cases "a = 8")
      case True
      then show ?thesis using assms(1,2) Fault f[OF Fault] t u suspend_triple suspend_vcpu unfolding nested_fault_def by (auto simp: intinfo_wf_def)
    next
      case False
      then show ?thesis using assms(1-3) Fault f[OF Fault] t u c d df unfolding nested_fault_def by (auto simp: paging_fault_def contributory_def)
    qed
  qed (use n in simp)
qed

text \<open>
  C14 (refinement). What is delivered at an entry is what the processor's rules for nested exceptions prescribe: a sole event is delivered as it is; an
  exception during the delivery of an interrupt replaces it; an exception during an exception becomes a double fault exactly for two contributory exceptions, or
  for a page fault followed by either; an exception during a double fault shuts the machine down. Nothing is pending afterwards.
\<close>

theorem entry_event_exact:
  assumes "\<not> bad_vcpuid c" "p = vm_vcpu v (nat c)" "vcpu_events_ok p" "exitintinfo p AND VM_INTINFO_TYPE \<in> {0, 0x200, 0x300, 0x400}"
  shows "\<exists>valid info v'. vm_entry_intinfo c v = Some (valid, info, v')
    \<and> exitintinfo (vm_vcpu v' (nat c)) = 0 \<and> \<not> exception_pending (vm_vcpu v' (nat c))
    \<and> (case nested (event_of (exitintinfo p)) (event_of (vcpu_exception_intinfo p)) of
         None \<Rightarrow> \<not> valid \<and> vm_how v' \<noteq> VM_SUSPEND_NONE
       | Some Quiet \<Rightarrow> \<not> valid
       | Some e \<Rightarrow> valid \<and> (\<exists>i. info = Some i \<and> event_of i = e))"
proof (cases "exception_pending p")
  case False
  then have q: "event_of (vcpu_exception_intinfo p) = Quiet" by (simp add: vcpu_exception_intinfo_def event_of_def)
  have "event_of (exitintinfo p) = Quiet \<longleftrightarrow> exitintinfo p AND VM_INTINFO_VALID = 0" by (simp add: event_of_def)
  then show ?thesis using assms(1,2) False q unfolding vm_entry_intinfo_def Let_def
    by (cases "event_of (exitintinfo p)") (auto simp: upd_vcpu_def)
next
  case True
  then have x: "0 \<le> exc_vector p" "exc_vector p < 32" using assms(3) by (simp_all add: vcpu_events_ok_def)
  note f = exception_fields(1)[OF True x] event_exception[OF True x]
  let ?v = "upd_vcpu (nat c) (\<lambda>p. p\<lparr>exitintinfo := 0, exception_pending := False\<rparr>) v"
  show ?thesis
  proof (cases "exitintinfo p AND VM_INTINFO_VALID = 0")
    case quiet: True
    then have "event_of (exitintinfo p) = Quiet" by (simp add: event_of_def)
    then show ?thesis using assms(1,2) True quiet f unfolding vm_entry_intinfo_def Let_def by (auto simp: upd_vcpu_def)
  next
    case False
    obtain valid info v' where n: "nested_fault (exitintinfo p) (vcpu_exception_intinfo p) ?v = Some (valid, info, v')" "vm_vcpu v' = vm_vcpu ?v"
      "case nested (event_of (exitintinfo p)) (Fault (nat (exc_vector p))) of None \<Rightarrow> \<not> valid \<and> vm_how v' \<noteq> VM_SUSPEND_NONE
        | Some e \<Rightarrow> valid \<and> event_of info = e" using nested_fault_exact[OF False f assms(4), of ?v] by blast
    have "nested (event_of (exitintinfo p)) (Fault k) \<noteq> Some Quiet" for k by (cases "event_of (exitintinfo p)") auto
    then show ?thesis using assms(1,2) True False f n unfolding vm_entry_intinfo_def Let_def
      by (auto simp: upd_vcpu_def split: option.splits event.splits)
  qed
qed

text \<open>A page fault while a divide error is delivered, and a divide error while a page fault is.\<close>

definition sample_vcpu :: vcpu where
  "sample_vcpu = \<lparr>cpu_state = VCPU_FROZEN, cpu_regs = \<lambda>_. 0, cpu_segs = \<lambda>_. \<lparr>sd_base = 0, sd_limit = 0, sd_access = 0\<rparr>, exitintinfo = 0,
     nmi_pending = False, extint_pending = False, exception_pending = False, exc_vector = 0, exc_errcode_valid = False, exc_errcode = 0,
     exit_rip = 0, inst_length = 0, nextrip = 0\<rparr>"

definition sample_vm :: vm where
  "sample_vm = \<lparr>vm_vcpu = \<lambda>_. sample_vcpu, vm_active = 1, vm_suspended = 0, vm_halted = 0, vm_how = VM_SUSPEND_NONE, mem_segs = [],
     vm_bytes = \<lambda>_. 0, vm_notes = []\<rparr>"

theorem entry_event_exact_witness:
  "\<exists>info v'. vm_entry_intinfo 0 (upd_vcpu 0 (\<lambda>p. p\<lparr>exitintinfo := 0x8000030e, exception_pending := True, exc_vector := 0\<rparr>) sample_vm) =
     Some (True, Some info, v') \<and> event_of info = Fault 8"
proof -
  let ?v = "upd_vcpu 0 (\<lambda>p. p\<lparr>exitintinfo := 0x8000030e, exception_pending := True, exc_vector := 0\<rparr>) sample_vm"
  have "vcpu_events_ok (vm_vcpu ?v 0)" by (simp add: vcpu_events_ok_def upd_vcpu_def intinfo_wf_def intinfo idt)
  moreover have "event_of (exitintinfo (vm_vcpu ?v 0)) = Fault 14" by (simp add: upd_vcpu_def event_of_def intinfo)
  moreover have "event_of (vcpu_exception_intinfo (vm_vcpu ?v 0)) = Fault 0" by (subst event_exception) (simp_all add: upd_vcpu_def)
  ultimately show ?thesis using entry_event_exact[of 0 "vm_vcpu ?v 0" ?v]
    by (auto simp: bad_vcpuid_def VM_MAXCPU_def upd_vcpu_def intinfo contributory_def paging_fault_def)
qed

section \<open>Runs\<close>

datatype vcpu_op =
  ExitIntinfo int u64
| InjectException int int bool u32 bool
| InjectPf int int u64
| EntryIntinfo int
| InjectNmi int
| NmiClear int
| InjectExtint int
| ExtintClear int
| RequireState int vcpu_state
| SetRegister int vm_reg_name u64
| SetSegDesc int vm_reg_name seg_desc
| Suspend vm_suspend_how
| Reinit nat

fun vcpu_step :: "vcpu_op \<Rightarrow> vm \<Rightarrow> vm option" where
  "vcpu_step (ExitIntinfo c info) v = Some (snd (vm_exit_intinfo c info v))"
| "vcpu_step (InjectException c vector valid code restart) v = map_option snd (vm_inject_exception c vector valid code restart v)"
| "vcpu_step (InjectPf c code cr2) v = vm_inject_pf c code cr2 v"
| "vcpu_step (EntryIntinfo c) v = map_option (snd \<circ> snd) (vm_entry_intinfo c v)"
| "vcpu_step (InjectNmi c) v = Some (snd (vm_inject_nmi c v))"
| "vcpu_step (NmiClear c) v = vm_nmi_clear c v"
| "vcpu_step (InjectExtint c) v = Some (snd (vm_inject_extint c v))"
| "vcpu_step (ExtintClear c) v = vm_extint_clear c v"
| "vcpu_step (RequireState c st) v = vcpu_require_state c st v"
| "vcpu_step (SetRegister c reg val) v = Some (snd (vm_set_register c reg val v))"
| "vcpu_step (SetSegDesc c reg desc) v = Some (snd (vm_set_seg_desc c reg desc v))"
| "vcpu_step (Suspend how) v = Some (snd (vm_suspend how v))"
| "vcpu_step (Reinit c) v = Some (vcpu_init c False v)"

definition vcpu_start :: "vm \<Rightarrow> bool" where
  "vcpu_start v \<longleftrightarrow> (\<exists>v0. vm_vcpu v = (\<lambda>c. vm_vcpu (vcpu_init c True v0) c))"

text \<open>The part of a virtual CPU that holds its events.\<close>

definition event_part :: "vcpu \<Rightarrow> u64 \<times> bool \<times> int" where
  "event_part p = (exitintinfo p, exception_pending p, exc_vector p)"

lemma events_part: "event_part p = event_part q \<Longrightarrow> vcpu_events_ok p = vcpu_events_ok q"
  by (simp add: event_part_def vcpu_events_ok_def)

lemma events_upd: "events_ok v \<Longrightarrow> vcpu_events_ok (f (vm_vcpu v c)) \<Longrightarrow> events_ok (upd_vcpu c f v)"
  by (simp add: events_ok_def upd_vcpu_def)

lemma events_upd_part: "events_ok v \<Longrightarrow> (\<And>p. event_part (f p) = event_part p) \<Longrightarrow> events_ok (upd_vcpu c f v)"
  by (rule events_upd) (assumption, metis events_part events_ok_def)

lemma events_same: "vm_vcpu v' = vm_vcpu v \<Longrightarrow> events_ok v' = events_ok v"
  by (simp add: events_ok_def)

lemma events_notify [simp]: "events_ok (vcpu_notify_event c v) = events_ok v"
  by (rule events_same) (simp add: vcpu_notify_event_def split: vcpu_state.split)

lemma events_set_register: "events_ok v \<Longrightarrow> events_ok (snd (vm_set_register c reg val v))"
  by (auto simp: vm_set_register_def Let_def event_part_def intro!: events_upd_part)

lemma events_restart: "events_ok v \<Longrightarrow> vm_restart_instruction c v = Some (e, v') \<Longrightarrow> events_ok v'"
  by (auto simp: vm_restart_instruction_def event_part_def split: if_splits vcpu_state.splits option.splits intro!: events_upd_part)

lemma events_exit: "events_ok v \<Longrightarrow> events_ok (snd (vm_exit_intinfo c info v))"
proof -
  assume v: "events_ok v"
  have u: "events_ok (upd_vcpu (nat c) (\<lambda>p. p\<lparr>exitintinfo := i\<rparr>) v)" if "intinfo_wf i" for i
    by (rule events_upd[OF v]) (use v that in \<open>simp add: events_ok_def vcpu_events_ok_def\<close>)
  have w: "intinfo_wf info" if "info AND VM_INTINFO_VALID \<noteq> 0" "\<not> (info AND VM_INTINFO_TYPE = VM_INTINFO_NMI \<and> info AND 0xff \<noteq> word_of_nat IDT_NMI)"
    "\<not> (info AND VM_INTINFO_TYPE = VM_INTINFO_HWEXCEPTION \<and> info AND 0xff \<ge> 32)" "\<not> info AND VM_INTINFO_RSVD \<noteq> 0"
    using that unfolding intinfo_wf_def idt not_le de_Morgan_conj by simp
  have z: "intinfo_wf 0" by (simp add: intinfo_wf_def)
  show ?thesis unfolding vm_exit_intinfo_def Let_def by (auto intro!: u w z simp: v)
qed

lemma events_exception:
  "events_ok v \<Longrightarrow> 0 \<le> n \<Longrightarrow> n < 32 \<Longrightarrow> n \<noteq> int IDT_DF \<Longrightarrow>
    events_ok (upd_vcpu c (\<lambda>p. p\<lparr>exception_pending := True, exc_vector := n, exc_errcode := code, exc_errcode_valid := valid\<rparr>) v)"
  by (rule events_upd) (simp_all add: vcpu_events_ok_def events_ok_def)

lemma events_inject:
  assumes "events_ok v" "vm_inject_exception c vector valid code restart v = Some (e, v')"
  shows "events_ok v'"
proof -
  have v1: "events_ok v1" if "vm_set_register c VM_REG_GUEST_INTR_SHADOW 0 v = (e1, v1)" for e1 v1
    using events_set_register[OF assms(1), of c VM_REG_GUEST_INTR_SHADOW 0] that by simp
  have r: "vm_restart_instruction c w = Some (x, y) \<Longrightarrow> events_ok w \<Longrightarrow> events_ok y" for w x y by (rule events_restart)
  show ?thesis using assms unfolding vm_inject_exception_def
    by (auto simp: Let_def not_less not_le split: if_splits option.splits prod.splits intro!: events_exception) (blast intro: v1 r)+
qed

lemma events_inject_pf: "events_ok v \<Longrightarrow> vm_inject_pf c code cr2 v = Some v' \<Longrightarrow> events_ok v'"
  using events_set_register[of v c VM_REG_GUEST_CR2 cr2] events_inject unfolding vm_inject_pf_def vm_inject_fault_def
  by (auto split: option.splits prod.splits errno.splits if_splits)

lemma nested_vcpu: "nested_fault i j v = Some (valid, info, v') \<Longrightarrow> vm_vcpu v' = vm_vcpu v"
  by (auto simp: nested_fault_def suspend_vcpu split: if_splits option.splits)

lemma events_entry: "events_ok v \<Longrightarrow> vm_entry_intinfo c v = Some (valid, info, v') \<Longrightarrow> events_ok v'"
proof -
  assume v: "events_ok v" and e: "vm_entry_intinfo c v = Some (valid, info, v')"
  let ?v = "upd_vcpu (nat c) (\<lambda>p. p\<lparr>exitintinfo := 0, exception_pending := False\<rparr>) v"
  have ok: "events_ok ?v" using v by (auto intro!: events_upd simp: vcpu_events_ok_def intinfo_wf_def)
  have "vm_vcpu v' = vm_vcpu ?v" using e unfolding vm_entry_intinfo_def Let_def by (auto split: if_splits dest: nested_vcpu)
  then show ?thesis using ok events_same by blast
qed

lemma events_require: "events_ok v \<Longrightarrow> vcpu_require_state c st v = Some v' \<Longrightarrow> events_ok v'"
proof -
  assume v: "events_ok v" and r: "vcpu_require_state c st v = Some v'"
  obtain p where p: "vcpu_set_state c st False v = Done OK p" "v' = upd_vcpu (nat c) (\<lambda>_. p) v"
    using r by (auto simp: vcpu_require_state_def split: transition.splits errno.splits)
  have "event_part p = event_part (vm_vcpu v (nat c))"
    using p(1) by (auto simp: vcpu_set_state_def vcpu_set_state_locked_def Let_def event_part_def split: if_splits)
  from events_part[OF this] show ?thesis unfolding p(2) using v by (intro events_upd) (simp_all add: events_ok_def)
qed

lemma events_step: "events_ok v \<Longrightarrow> vcpu_step e v = Some v' \<Longrightarrow> events_ok v'"
proof (induction e v rule: vcpu_step.induct)
  case (1 c info v) then show ?case by (auto intro: events_exit)
next
  case (2 c vector valid code restart v) then show ?case by (auto intro: events_inject)
next
  case (3 c code cr2 v) then show ?case by (auto intro: events_inject_pf)
next
  case (4 c v) then show ?case by (auto intro: events_entry)
next
  case (5 c v) then show ?case by (auto simp: vm_inject_nmi_def event_part_def intro!: events_upd_part split: if_splits)
next
  case (6 c v) then show ?case by (auto simp: vm_nmi_clear_def event_part_def intro!: events_upd_part split: if_splits)
next
  case (7 c v) then show ?case by (auto simp: vm_inject_extint_def event_part_def intro!: events_upd_part split: if_splits)
next
  case (8 c v) then show ?case by (auto simp: vm_extint_clear_def event_part_def intro!: events_upd_part split: if_splits)
next
  case (9 c st v) then show ?case by (auto intro: events_require)
next
  case (10 c reg val v) then show ?case by (auto intro: events_set_register)
next
  case (11 c reg desc v) then show ?case by (auto simp: vm_set_seg_desc_def event_part_def intro!: events_upd_part split: if_splits)
next
  case (12 how v) then show ?case using events_same[OF suspend_vcpu] by auto
next
  case (13 c v) then show ?case by (auto simp: vcpu_init_def vcpu_events_ok_def intinfo_wf_def intro!: events_upd)
qed

interpretation vcpus: partial_machine vcpu_start vcpu_step events_ok
proof unfold_locales
  show "events_ok v" if "vcpu_start v" for v
    using that by (auto simp: vcpu_start_def events_ok_def vcpu_init_def upd_vcpu_def vcpu_events_ok_def intinfo_wf_def)
qed (rule events_step)

lemma nested_total:
  assumes "i AND VM_INTINFO_VALID \<noteq> 0" "j AND VM_INTINFO_VALID \<noteq> 0" "intinfo_wf j"
  shows "\<exists>valid info v'. nested_fault i j v = Some (valid, info, v') \<and> intinfo_wf info"
proof -
  have d: "intinfo_wf (word_of_nat IDT_DF OR (VM_INTINFO_VALID OR VM_INTINFO_HWEXCEPTION) OR VM_INTINFO_DEL_ERRCODE)" "intinfo_wf 0"
    by (simp_all add: intinfo idt intinfo_wf_def)
  show ?thesis using assms(1,2) class_of_event[OF assms(1)] class_of_event[OF assms(2)] assms(3) d unfolding nested_fault_def by (auto split: if_splits)
qed

text \<open>
  C9 (type). The interruption information a virtual CPU holds is always well formed, whatever sequence of exits, injections, entries, state changes and
  resets came before: none, or a valid entry with no reserved bit set whose vector fits its type. So is the information handed over at the next
  entry, which never aborts; and a pending exception is never a double fault.
\<close>

theorem intinfo_always_wf:
  assumes "vcpu_start v" "run_opt vcpu_step ops v = Some t" "\<not> bad_vcpuid c"
  shows "intinfo_wf (exitintinfo (vm_vcpu t (nat c))) \<and> intinfo_wf (vcpu_exception_intinfo (vm_vcpu t (nat c)))
    \<and> (exception_pending (vm_vcpu t (nat c)) \<longrightarrow> exc_vector (vm_vcpu t (nat c)) \<noteq> 8)
    \<and> (\<exists>valid info t'. vm_entry_intinfo c t = Some (valid, info, t') \<and> (\<forall>i. info = Some i \<longrightarrow> intinfo_wf i))"
proof -
  let ?p = "vm_vcpu t (nat c)"
  have ok: "vcpu_events_ok ?p" using vcpus.run_invar[OF assms(1,2)] by (simp add: events_ok_def)
  have x: "intinfo_wf (vcpu_exception_intinfo ?p)"
    using ok exception_wf[of ?p] by (cases "exception_pending ?p") (auto simp: vcpu_events_ok_def vcpu_exception_intinfo_def intinfo_wf_def)
  have "\<exists>valid info t'. vm_entry_intinfo c t = Some (valid, info, t') \<and> (\<forall>i. info = Some i \<longrightarrow> intinfo_wf i)"
  proof (cases "exitintinfo ?p AND VM_INTINFO_VALID \<noteq> 0 \<and> exception_pending ?p \<and> vcpu_exception_intinfo ?p AND VM_INTINFO_VALID \<noteq> 0")
    case True
    then obtain valid info t' where
      "nested_fault (exitintinfo ?p) (vcpu_exception_intinfo ?p) (upd_vcpu (nat c) (\<lambda>p. p\<lparr>exitintinfo := 0, exception_pending := False\<rparr>) t)
         = Some (valid, info, t')" "intinfo_wf info" using nested_total[OF _ _ x] by blast
    then show ?thesis using True assms(3) unfolding vm_entry_intinfo_def Let_def by simp
  next
    case False
    then show ?thesis using assms(3) ok x unfolding vm_entry_intinfo_def Let_def vcpu_events_ok_def by auto
  qed
  then show ?thesis using ok x by (simp add: vcpu_events_ok_def idt)
qed

theorem intinfo_always_wf_witness:
  "\<exists>t. run_opt vcpu_step [ExitIntinfo 0 0x8000030e, InjectException 0 13 True 0 False] (sample_vm\<lparr>vm_vcpu := \<lambda>_. sample_vcpu\<lparr>cpu_state := VCPU_IDLE\<rparr>\<rparr>)
       = Some t
     \<and> exitintinfo (vm_vcpu t 0) = 0x8000030e \<and> intinfo_wf (vcpu_exception_intinfo (vm_vcpu t 0)) \<and> exception_pending (vm_vcpu t 0)"
proof -
  let ?v = "sample_vm\<lparr>vm_vcpu := \<lambda>_. sample_vcpu\<lparr>cpu_state := VCPU_IDLE\<rparr>\<rparr>"
  have st: "vcpu_start ?v" unfolding vcpu_start_def
    by (rule exI[of _ ?v]) (simp add: vcpu_init_def upd_vcpu_def sample_vcpu_def)
  have c: "\<not> bad_vcpuid 0" by (simp add: bad_vcpuid_def VM_MAXCPU_def)
  obtain t where t: "run_opt vcpu_step [ExitIntinfo 0 0x8000030e, InjectException 0 13 True 0 False] ?v = Some t"
      "exitintinfo (vm_vcpu t 0) = 0x8000030e" "exception_pending (vm_vcpu t 0)"
    by (simp add: vm_exit_intinfo_def vm_inject_exception_def vm_set_register_def intinfo idt c upd_vcpu_def sample_vcpu_def)
  show ?thesis using intinfo_always_wf[OF st t(1) c] t by auto
qed

end
