(* ===== verification/Paging.thy ===== *)
theory Paging
  imports Vcpu
begin

text \<open>
  Guest page tables and copies from and to guest memory, from \<^verbatim>\<open>src/src/lib/vmm/vmm_instruction_emul.c\<close> (\<^verbatim>\<open>vm_gla2gpa\<close>) and
  \<^verbatim>\<open>src/src/lib/vmm/vmm.c\<close> (\<^verbatim>\<open>vm_copy_setup\<close>, \<^verbatim>\<open>vm_copyin\<close>, \<^verbatim>\<open>vm_copyout\<close>). The walk sets accessed and dirty bits with
  compare-and-set and starts again when one fails. No other virtual CPU changes the tables during a walk. The loops over the levels of
  32-bit and of 64-bit tables are one function over the format of the tables.
\<close>

section \<open>Constants and formats\<close>

datatype vm_cpu_mode = CPU_MODE_REAL | CPU_MODE_PROTECTED | CPU_MODE_COMPATIBILITY | CPU_MODE_64BIT
datatype vm_paging_mode = PAGING_MODE_FLAT | PAGING_MODE_32 | PAGING_MODE_PAE | PAGING_MODE_64

record vm_guest_paging =
  pg_cr3 :: u64
  pg_cpl :: int
  pg_cpu_mode :: vm_cpu_mode
  pg_paging_mode :: vm_paging_mode

definition PG_V :: u64 where "PG_V = 0x001"
definition PG_RW :: u64 where "PG_RW = 0x002"
definition PG_U :: u64 where "PG_U = 0x004"
definition PG_A :: u64 where "PG_A = 0x020"
definition PG_M :: u64 where "PG_M = 0x040"
definition PG_PS :: u64 where "PG_PS = 0x080"
definition PGEX_P :: int where "PGEX_P = 0x01"
definition PGEX_W :: int where "PGEX_W = 0x02"
definition PGEX_U :: int where "PGEX_U = 0x04"
definition PGEX_RSV :: int where "PGEX_RSV = 0x08"
definition PGEX_I :: int where "PGEX_I = 0x10"
definition XHYVE_PROT_READ :: u32 where "XHYVE_PROT_READ = 1"
definition XHYVE_PROT_WRITE :: u32 where "XHYVE_PROT_WRITE = 2"
definition XHYVE_PROT_EXECUTE :: u32 where "XHYVE_PROT_EXECUTE = 4"
definition GB :: u64 where "GB = 1024 * 1024 * 1024"

lemmas pg = PG_V_def PG_RW_def PG_U_def PG_A_def PG_M_def PG_PS_def
lemmas prots = XHYVE_PROT_READ_def XHYVE_PROT_WRITE_def XHYVE_PROT_EXECUTE_def

definition vie_canonical_check :: "vm_cpu_mode \<Rightarrow> u64 \<Rightarrow> bool" where
  "vie_canonical_check cpu_mode gla =
     (if cpu_mode \<noteq> CPU_MODE_64BIT then False
      else
        let m = NOT (push_bit 48 1 - 1)
        in if gla AND push_bit 47 1 \<noteq> 0 then gla AND m \<noteq> m else gla AND m \<noteq> 0)"

definition pf_error_code :: "bool \<Rightarrow> u32 \<Rightarrow> bool \<Rightarrow> u64 \<Rightarrow> int" where
  "pf_error_code usermode prot rsvd pte =
     (if pte AND PG_V \<noteq> 0 then PGEX_P else 0) OR (if prot AND XHYVE_PROT_WRITE \<noteq> 0 then PGEX_W else 0) OR
     (if usermode then PGEX_U else 0) OR (if rsvd then PGEX_RSV else 0) OR (if prot AND XHYVE_PROT_EXECUTE \<noteq> 0 then PGEX_I else 0)"

text \<open>
  A format: the bytes of an entry, the bits of an index, the address of a table in an entry, the address of a page of a given size in
  an entry, and whether pages above a gigabyte are refused.
\<close>

record table_format =
  tf_width :: nat
  tf_bits :: nat
  tf_table :: "u64 \<Rightarrow> u64"
  tf_page :: "nat \<Rightarrow> u64 \<Rightarrow> u64"
  tf_refuse :: bool

definition tables_32 :: table_format where
  "tables_32 = \<lparr>tf_width = 4, tf_bits = 10, tf_table = (\<lambda>p. p AND NOT 0xfff), tf_page = (\<lambda>shift p. push_bit shift (drop_bit shift p)), tf_refuse = False\<rparr>"

definition tables_64 :: table_format where
  "tables_64 = \<lparr>tf_width = 8, tf_bits = 9, tf_table = (\<lambda>p. drop_bit 12 (push_bit 24 (drop_bit 12 p))),
     tf_page = (\<lambda>shift p. drop_bit 12 (push_bit (shift + 12) (drop_bit shift p))), tf_refuse = True\<rparr>"

section \<open>The walk\<close>

text \<open>What the loop over the levels ends with: an error, a fault to inject, or the last entry with its host address and the size of its page.\<close>

datatype leaf = NoTable vm | PageFault int vm | Leaf nat u64 nat vm

definition atomic_cmpset :: "nat \<Rightarrow> nat \<Rightarrow> u64 \<Rightarrow> u64 \<Rightarrow> vm \<Rightarrow> bool \<times> vm" where
  "atomic_cmpset w a old new v =
     (if (load w (vm_bytes v) a :: u64) = old then (True, v\<lparr>vm_bytes := store w new a (vm_bytes v)\<rparr>) else (False, v))"

definition denied :: "bool \<Rightarrow> u32 \<Rightarrow> u64 \<Rightarrow> bool" where
  "denied usermode prot pte \<longleftrightarrow>
     pte AND PG_V = 0 \<or> usermode \<and> pte AND PG_U = 0 \<or> prot AND XHYVE_PROT_WRITE \<noteq> 0 \<and> pte AND PG_RW = 0"

text \<open>Setting the accessed bit compares with the entry just read, so it succeeds.\<close>

fun walk_tables :: "table_format \<Rightarrow> bool \<Rightarrow> u32 \<Rightarrow> u64 \<Rightarrow> nat \<Rightarrow> u64 \<Rightarrow> vm \<Rightarrow> leaf" where
  "walk_tables tf usermode prot gla nlevels ptpphys v =
     (case vm_gpa2hva v (tf_table tf ptpphys) (word_of_nat XHYVE_PAGE_SIZE) of
        None \<Rightarrow> NoTable v
      | Some ptpbase \<Rightarrow>
          let ptpshift = XHYVE_PAGE_SHIFT + nlevels * tf_bits tf;
              ptpindex = unat (drop_bit ptpshift gla AND mask (tf_bits tf));
              a = ptpbase + tf_width tf * ptpindex;
              pte = load (tf_width tf) (vm_bytes v) a :: u64
          in if denied usermode prot pte then PageFault (pf_error_code usermode prot False pte) v
             else
               let v1 = (if pte AND PG_A = 0 then snd (atomic_cmpset (tf_width tf) a pte (pte OR PG_A) v) else v)
               in if nlevels > 0 \<and> pte AND PG_PS \<noteq> 0
                  then if tf_refuse tf \<and> (push_bit ptpshift 1 :: u64) > GB then PageFault (pf_error_code usermode prot True pte) v1
                       else Leaf a pte ptpshift v1
                  else case nlevels of
                         0 \<Rightarrow> Leaf a pte ptpshift v1
                       | Suc n \<Rightarrow> walk_tables tf usermode prot gla n pte v1)"

declare walk_tables.simps [simp del]

text \<open>The result of a translation: the return value, \<^verbatim>\<open>*guest_fault\<close>, \<^verbatim>\<open>*gpa\<close> where it is set, and the machine.\<close>

type_synonym translation = "errno \<times> bool \<times> u64 option \<times> vm"

definition inject_pf_fault :: "int \<Rightarrow> u64 \<Rightarrow> int \<Rightarrow> vm \<Rightarrow> translation option" where
  "inject_pf_fault c gla code v = map_option (\<lambda>v. (OK, True, None, v)) (vm_inject_pf c code gla v)"

text \<open>After the levels: the dirty bit, and the address. \<open>Inl\<close> starts again.\<close>

definition finish_walk :: "table_format \<Rightarrow> int \<Rightarrow> u32 \<Rightarrow> u64 \<Rightarrow> leaf \<Rightarrow> (vm + translation) option" where
  "finish_walk tf c prot gla l =
     (case l of
        NoTable v \<Rightarrow> Some (Inr (EFAULT, False, None, v))
      | PageFault code v \<Rightarrow> map_option Inr (inject_pf_fault c gla code v)
      | Leaf a pte ptpshift v \<Rightarrow>
          let (ok, v1) = (if prot AND XHYVE_PROT_WRITE \<noteq> 0 \<and> pte AND PG_M = 0 then atomic_cmpset (tf_width tf) a pte (pte OR PG_M) v else (True, v))
          in if \<not> ok then Some (Inl v1)
             else Some (Inr (OK, False, Some (tf_page tf ptpshift pte OR (gla AND (push_bit ptpshift 1 - 1))), v1)))"

definition walk_once :: "int \<Rightarrow> vm_guest_paging \<Rightarrow> u64 \<Rightarrow> u32 \<Rightarrow> vm \<Rightarrow> (vm + translation) option" where
  "walk_once c paging gla prot v =
     (let usermode = (pg_cpl paging = 3); ptpphys = pg_cr3 paging
      in if vie_canonical_check (pg_cpu_mode paging) gla
         then map_option (\<lambda>v. Inr (OK, True, None, v)) (vm_inject_gp c v)
         else case pg_paging_mode paging of
                PAGING_MODE_FLAT \<Rightarrow> Some (Inr (OK, False, Some gla, v))
              | PAGING_MODE_32 \<Rightarrow> finish_walk tables_32 c prot gla (walk_tables tables_32 usermode prot gla 1 ptpphys v)
              | PAGING_MODE_PAE \<Rightarrow>
                  (case vm_gpa2hva v (ptpphys AND 0xffffffe0) (8 * 4) of
                     None \<Rightarrow> Some (Inr (EFAULT, False, None, v))
                   | Some ptpbase \<Rightarrow>
                       let pte = load 8 (vm_bytes v) (ptpbase + 8 * unat (drop_bit 30 gla AND 3)) :: u64
                       in if pte AND PG_V = 0 then map_option Inr (inject_pf_fault c gla (pf_error_code usermode prot False pte) v)
                          else finish_walk tables_64 c prot gla (walk_tables tables_64 usermode prot gla 1 pte v))
              | PAGING_MODE_64 \<Rightarrow> finish_walk tables_64 c prot gla (walk_tables tables_64 usermode prot gla 3 ptpphys v))"

text \<open>\<open>None\<close>: an abort, or no end.\<close>

partial_function (option) vm_gla2gpa :: "int \<Rightarrow> vm_guest_paging \<Rightarrow> u64 \<Rightarrow> u32 \<Rightarrow> vm \<Rightarrow> translation option" where
  "vm_gla2gpa c paging gla prot v =
     (case walk_once c paging gla prot v of
        None \<Rightarrow> None
      | Some (Inl v1) \<Rightarrow> vm_gla2gpa c paging gla prot v1
      | Some (Inr r) \<Rightarrow> Some r)"

section \<open>Copies\<close>

record vm_copyinfo =
  ci_gpa :: u64
  ci_len :: nat
  ci_hva :: nat

text \<open>The loop that translates the pieces of a range; \<open>room\<close> is the number of unused elements of \<^verbatim>\<open>copyinfo\<close>.\<close>

function copy_pieces :: "int \<Rightarrow> vm_guest_paging \<Rightarrow> u32 \<Rightarrow> u64 \<Rightarrow> nat \<Rightarrow> nat \<Rightarrow> (u64 \<times> nat) list \<Rightarrow> vm
    \<Rightarrow> (errno \<times> bool \<times> (u64 \<times> nat) list \<times> vm) option" where
  "copy_pieces c paging prot gla remaining room acc v =
     (if remaining > 0
      then
        if room = 0 then None
        else case vm_gla2gpa c paging gla prot v of
               None \<Rightarrow> None
             | Some (e, fault, gpa, v1) \<Rightarrow>
                 if e \<noteq> OK \<or> fault then Some (e, fault, acc, v1)
                 else
                   let g = the gpa;
                       n = min remaining (XHYVE_PAGE_SIZE - unat (g AND 0xfff))
                   in copy_pieces c paging prot (gla + word_of_nat n) (remaining - n) (room - 1) (acc @ [(g, n)]) v1
      else Some (OK, False, acc, v))"
  by pat_completeness auto

termination copy_pieces
  by (relation "measure (\<lambda>(c, paging, prot, gla, remaining, room, acc, v). room)") auto

fun map_pieces :: "vm \<Rightarrow> (u64 \<times> nat) list \<Rightarrow> vm_copyinfo list option" where
  "map_pieces v [] = Some []"
| "map_pieces v ((g, n) # ps) =
     (case vm_gpa2hva v g (word_of_nat n) of
        None \<Rightarrow> None
      | Some hva \<Rightarrow> map_option (\<lambda>cs. \<lparr>ci_gpa = g, ci_len = n, ci_hva = hva\<rparr> # cs) (map_pieces v ps))"

text \<open>The result: the return value, \<^verbatim>\<open>*fault\<close>, the pieces, and the machine.\<close>

definition vm_copy_setup :: "int \<Rightarrow> vm_guest_paging \<Rightarrow> u64 \<Rightarrow> nat \<Rightarrow> u32 \<Rightarrow> nat \<Rightarrow> vm \<Rightarrow> (errno \<times> bool \<times> vm_copyinfo list \<times> vm) option" where
  "vm_copy_setup c paging gla len prot num_copyinfo v =
     (case copy_pieces c paging prot gla len num_copyinfo [] v of
        None \<Rightarrow> None
      | Some (e, fault, ps, v1) \<Rightarrow>
          if e \<noteq> OK \<or> fault then Some (e, fault, [], v1)
          else case map_pieces v1 ps of None \<Rightarrow> Some (EFAULT, False, [], v1) | Some cs \<Rightarrow> Some (OK, False, cs, v1))"

text \<open>
  The loops of \<^verbatim>\<open>vm_copyin\<close> and \<^verbatim>\<open>vm_copyout\<close>. \<open>None\<close>: they run off the array, which also happens when a piece is longer than what
  remains, since the unsigned count wraps around.
\<close>

definition get_bytes :: "nat \<Rightarrow> nat \<Rightarrow> bytes \<Rightarrow> u8 list" where
  "get_bytes a n m = map (\<lambda>i. m (a + i)) [0..<n]"

definition put_bytes :: "nat \<Rightarrow> u8 list \<Rightarrow> bytes \<Rightarrow> bytes" where
  "put_bytes a bs m = (\<lambda>x. if a \<le> x \<and> x < a + length bs then bs ! (x - a) else m x)"

fun copyin_loop :: "vm_copyinfo list \<Rightarrow> nat \<Rightarrow> bytes \<Rightarrow> u8 list option" where
  "copyin_loop cs 0 m = Some []"
| "copyin_loop [] (Suc n) m = None"
| "copyin_loop (ci # cs) (Suc n) m =
     (if ci_len ci > Suc n then None
      else map_option (\<lambda>bs. get_bytes (ci_hva ci) (ci_len ci) m @ bs) (copyin_loop cs (Suc n - ci_len ci) m))"

definition vm_copyin :: "vm \<Rightarrow> vm_copyinfo list \<Rightarrow> nat \<Rightarrow> u8 list option" where
  "vm_copyin v cs len = copyin_loop cs len (vm_bytes v)"

fun copyout_loop :: "vm_copyinfo list \<Rightarrow> nat \<Rightarrow> u8 list \<Rightarrow> bytes \<Rightarrow> bytes option" where
  "copyout_loop cs 0 src m = Some m"
| "copyout_loop [] (Suc n) src m = None"
| "copyout_loop (ci # cs) (Suc n) src m =
     (if ci_len ci > Suc n then None
      else copyout_loop cs (Suc n - ci_len ci) (drop (ci_len ci) src) (put_bytes (ci_hva ci) (take (ci_len ci) src) m))"

definition vm_copyout :: "u8 list \<Rightarrow> vm_copyinfo list \<Rightarrow> nat \<Rightarrow> vm \<Rightarrow> vm option" where
  "vm_copyout src cs len v = map_option (\<lambda>m. v\<lparr>vm_bytes := m\<rparr>) (copyout_loop cs len src (vm_bytes v))"

section \<open>Bits of memory\<close>

lemma bit_horner: "bit (horner_sum (unat :: u8 \<Rightarrow> nat) 256 bs) n \<longleftrightarrow> n < 8 * length bs \<and> bit (bs ! (n div 8)) (n mod 8)"
proof (induction bs arbitrary: n)
  case (Cons b bs)
  have b: "unat b < 2 ^ 8" using unsigned_less[where 'a = nat and w = b] by simp
  have "unat b + 256 * horner_sum unat 256 bs = unat b OR push_bit 8 (horner_sum unat 256 bs)"
  proof -
    have "unat b AND push_bit 8 (horner_sum unat 256 bs) = 0"
      using b by (intro bit_eqI) (auto simp: bit_and_iff bit_push_bit_iff bit_unsigned_iff dest: bit_imp_le_length)
    from disjunctive_add_eq_or[OF this] show ?thesis by (simp add: push_bit_eq_mult mult.commute)
  qed
  then have "bit (horner_sum unat 256 (b # bs)) n \<longleftrightarrow> bit b n \<or> 8 \<le> n \<and> bit (horner_sum (unat :: u8 \<Rightarrow> nat) 256 bs) (n - 8)"
    by (simp add: bit_or_iff bit_push_bit_iff bit_unsigned_iff)
  then show ?case
    by (cases "n < 8") (auto simp: Cons.IH not_less nth_Cons' le_div_geq le_mod_geq dest: bit_imp_le_length)
qed simp

lemma bit_load: "bit (load k m a :: 'w::len word) n \<longleftrightarrow> n < LENGTH('w) \<and> n < 8 * k \<and> bit (m (a + n div 8)) (n mod 8)"
proof -
  have "n div 8 < k" if "n < 8 * k" using that by (simp add: div_less_iff_less_mult mult.commute)
  then show ?thesis by (auto simp: load_def bit_of_nat_iff bit_horner)
qed

lemma bit_store:
  "bit (store k (w :: 'w::len word) a m x) j \<longleftrightarrow> (if a \<le> x \<and> x < a + k then j < 8 \<and> bit w (8 * (x - a) + j) else bit (m x) j)"
proof -
  have "bit (unat w div 256 ^ i) j \<longleftrightarrow> bit w (8 * i + j)" for i
  proof -
    have "unat w div 256 ^ i = drop_bit (8 * i) (unat w)" by (simp add: drop_bit_eq_div power_mult)
    then show ?thesis by (simp add: bit_drop_bit_eq bit_unsigned_iff add.commute)
  qed
  then show ?thesis by (simp add: store_def bit_of_nat_iff)
qed

text \<open>Setting bits in the first byte of an entry.\<close>

definition touch :: "u8 \<Rightarrow> nat \<Rightarrow> bytes \<Rightarrow> bytes" where
  "touch k a m = m(a := m a OR k)"

lemma store_or:
  assumes "0 < w" "8 * w \<le> 64"
  shows "store w ((load w m a :: u64) OR ucast k) a m = touch k a m"
proof (rule ext, rule bit_word_eqI)
  fix x j assume j: "j < LENGTH(8)"
  show "bit (store w ((load w m a :: u64) OR ucast k) a m x) j = bit (touch k a m x) j"
  proof (cases "a \<le> x \<and> x < a + w")
    case True
    then have *: "8 * (x - a) + j < 8 * w" "(8 * (x - a) + j) div 8 = x - a" "(8 * (x - a) + j) mod 8 = j" using j by auto
    have "bit (ucast k :: u64) (8 * (x - a) + j) \<longleftrightarrow> x = a \<and> bit k j"
      using True j by (cases "x = a") (auto simp: bit_unsigned_iff dest: bit_imp_le_length)
    then show ?thesis using True * j assms by (auto simp: bit_store bit_or_iff bit_load touch_def)
  qed (use assms in \<open>auto simp: bit_store touch_def\<close>)
qed

lemma load_touch:
  assumes "0 < w" "w dvd a" "w dvd b" "8 * w \<le> 64"
  shows "load w (touch k a m) b = (if b = a then load w m b OR ucast k else load w m b :: u64)"
proof (rule bit_word_eqI)
  fix n
  have "a = b" if "a = b + n div 8" "n < 8 * w"
  proof -
    have "n div 8 < w" using that(2) by (simp add: div_less_iff_less_mult mult.commute)
    moreover have "w dvd n div 8" using assms(2,3) that(1) by (metis dvd_add_right_iff)
    ultimately show ?thesis using that(1) by (auto dest: dvd_imp_le)
  qed
  moreover have "bit (ucast k :: u64) n \<longleftrightarrow> n < 8 \<and> bit k n" by (auto simp: bit_unsigned_iff dest: bit_imp_le_length)
  ultimately show "bit (load w (touch k a m) b :: u64) n = bit (if b = a then load w m b OR ucast k else load w m b :: u64) n"
    using assms(1) by (auto simp: bit_load bit_or_iff touch_def)
qed

lemma touch_again: "m a OR k = m a \<Longrightarrow> touch k a m = m"
  by (simp add: touch_def)

section \<open>Entries up to accessed and dirty bits\<close>

definition same_entry :: "u64 \<Rightarrow> u64 \<Rightarrow> bool" where
  "same_entry p q \<longleftrightarrow> p AND NOT 0x60 = q AND NOT 0x60"

lemma same_entry_bit: "same_entry p q \<Longrightarrow> n \<noteq> 5 \<Longrightarrow> n \<noteq> 6 \<Longrightarrow> bit p n = bit q n"
proof -
  assume s: "same_entry p q" and n: "n \<noteq> 5" "n \<noteq> 6"
  have z: "bit (0x60 :: u64) n = False"
  proof -
    have e: "(0x60 :: u64) = 2 ^ 5 OR 2 ^ 6" by simp
    show ?thesis unfolding e bit_or_iff bit_exp_iff using n by simp
  qed
  have "bit (p AND NOT 0x60) n = bit (q AND NOT 0x60) n" using s by (simp only: same_entry_def)
  then show ?thesis unfolding bit_and_iff bit_not_iff z by (cases "n < 64") (auto dest: bit_imp_le_length)
qed

lemma same_entry_flags:
  assumes "same_entry p q"
  shows "p AND PG_V = q AND PG_V" "p AND PG_RW = q AND PG_RW" "p AND PG_U = q AND PG_U" "p AND PG_PS = q AND PG_PS"
proof -
  have e: "p AND 2 ^ n = q AND 2 ^ n" if "n \<noteq> 5" "n \<noteq> 6" for n
    using same_entry_bit[OF assms] that by (intro bit_word_eqI) (auto simp: bit_and_iff bit_exp_iff)
  show "p AND PG_V = q AND PG_V" "p AND PG_RW = q AND PG_RW" "p AND PG_U = q AND PG_U" "p AND PG_PS = q AND PG_PS"
    using e[of 0] e[of 1] e[of 2] e[of 7] by (simp_all add: pg)
qed

lemma same_entry_shift: "same_entry p q \<Longrightarrow> 12 \<le> n \<Longrightarrow> drop_bit n p = drop_bit n q"
  using same_entry_bit[of p q] by (intro bit_word_eqI) (auto simp: bit_drop_bit_eq)

lemma same_entry_or: "k \<in> {0x20, 0x40} \<Longrightarrow> same_entry (p OR k) q \<longleftrightarrow> same_entry p q"
  by (auto simp: same_entry_def bit.conj_disj_distrib2)

lemma denied_same: "same_entry p q \<Longrightarrow> denied u prot p = denied u prot q"
  by (simp add: denied_def same_entry_flags[of p q])

lemma code_same: "same_entry p q \<Longrightarrow> pf_error_code u prot r p = pf_error_code u prot r q"
  by (simp add: pf_error_code_def same_entry_flags[of p q])

definition format_ok :: "table_format \<Rightarrow> bool" where
  "format_ok tf \<longleftrightarrow> tf \<in> {tables_32, tables_64}"

lemma clear_low: "p AND NOT 0xfff = push_bit 12 (drop_bit 12 p)" for p :: u64
proof -
  have m: "(0xfff :: u64) = mask 12" by (simp add: mask_eq_exp_minus_1)
  show ?thesis unfolding m by (rule bit_word_eqI) (auto simp: bit_and_iff bit_not_iff bit_mask_iff bit_push_bit_iff bit_drop_bit_eq)
qed

lemma tables_32_table: "tf_table tables_32 p = push_bit 12 (drop_bit 12 p)"
  unfolding tables_32_def table_format.simps clear_low ..

lemma format_laws:
  assumes "format_ok tf"
  shows "0 < tf_width tf" "8 * tf_width tf \<le> 64" "tf_width tf dvd 8"
    "same_entry p q \<Longrightarrow> tf_table tf p = tf_table tf q" "same_entry p q \<Longrightarrow> 12 \<le> n \<Longrightarrow> tf_page tf n p = tf_page tf n q"
    "4096 dvd unat (tf_table tf p)"
proof -
  have d: "4096 dvd unat (push_bit 12 x)" for x :: u64
  proof (rule page_dvd)
    have m: "(0xfff :: u64) = mask 12" by (simp add: mask_eq_exp_minus_1)
    show "push_bit 12 x AND 0xfff = 0" unfolding m by (rule bit_word_eqI) (auto simp: bit_and_iff bit_mask_iff bit_push_bit_iff)
  qed
  have t: "drop_bit 12 (push_bit 24 y) = push_bit 12 (take_bit 40 y)" for y :: u64
    by (rule bit_word_eqI) (auto simp: bit_drop_bit_eq bit_push_bit_iff bit_take_bit_iff)
  show "0 < tf_width tf" "8 * tf_width tf \<le> 64" "tf_width tf dvd 8" using assms by (auto simp: format_ok_def tables_32_def tables_64_def)
  show "tf_table tf p = tf_table tf q" if "same_entry p q"
    using assms same_entry_shift[OF that, of 12] tables_32_table by (auto simp: format_ok_def tables_64_def)
  show "tf_page tf n p = tf_page tf n q" if "same_entry p q" "12 \<le> n"
    using assms same_entry_shift[OF that] by (auto simp: format_ok_def tables_32_def tables_64_def)
  show "4096 dvd unat (tf_table tf p)" using assms d tables_32_table by (auto simp: format_ok_def tables_64_def t)
qed

text \<open>Two memories with the same entries up to accessed and dirty bits.\<close>

definition same_tables :: "nat \<Rightarrow> bytes \<Rightarrow> bytes \<Rightarrow> bool" where
  "same_tables w m m' \<longleftrightarrow> (\<forall>a. w dvd a \<longrightarrow> same_entry (load w m a) (load w m' a))"

lemma same_tables_refl [simp]: "same_tables w m m"
  by (simp add: same_tables_def same_entry_def)

lemma same_tables_touch:
  assumes "same_tables w m m'" "w dvd a" "0 < w" "8 * w \<le> 64" "k \<in> {0x20, 0x40}"
  shows "same_tables w m (touch k a m')"
proof -
  have "(ucast k :: u64) \<in> {0x20, 0x40}" using assms(5) by auto
  then show ?thesis using assms(1) load_touch[OF assms(3,2) _ assms(4)] same_entry_or[of "ucast k"]
    unfolding same_tables_def same_entry_def by (metis (no_types, lifting))
qed

section \<open>The walk of a processor\<close>

text \<open>
  A walk that only reads: the entries it uses, and whether a table is missing, the access is refused, or a page of a given size is found.
  The processor marks the entries it uses as accessed, and the last one as dirty when it writes.
\<close>

datatype lookup = Missing | Refused int | Found u64 nat

fun lookup_tables :: "table_format \<Rightarrow> bool \<Rightarrow> u32 \<Rightarrow> u64 \<Rightarrow> nat \<Rightarrow> u64 \<Rightarrow> vm \<Rightarrow> nat list \<times> lookup" where
  "lookup_tables tf u prot gla n p v =
     (case vm_gpa2hva v (tf_table tf p) (word_of_nat XHYVE_PAGE_SIZE) of
        None \<Rightarrow> ([], Missing)
      | Some base \<Rightarrow>
          let shift = XHYVE_PAGE_SHIFT + n * tf_bits tf;
              a = base + tf_width tf * unat (drop_bit shift gla AND mask (tf_bits tf));
              pte = load (tf_width tf) (vm_bytes v) a
          in if denied u prot pte then ([], Refused (pf_error_code u prot False pte))
             else if n > 0 \<and> pte AND PG_PS \<noteq> 0
             then ([a], if tf_refuse tf \<and> (push_bit shift 1 :: u64) > GB then Refused (pf_error_code u prot True pte) else Found (tf_page tf shift pte) shift)
             else case n of
                    0 \<Rightarrow> ([a], Found (tf_page tf shift pte) shift)
                  | Suc k \<Rightarrow> apfst (Cons a) (lookup_tables tf u prot gla k pte v))"

declare lookup_tables.simps [simp del]

definition marked :: "u8 \<Rightarrow> nat \<Rightarrow> vm \<Rightarrow> vm" where
  "marked k a v = v\<lparr>vm_bytes := touch k a (vm_bytes v)\<rparr>"

definition accessed :: "nat list \<Rightarrow> vm \<Rightarrow> vm" where
  "accessed as v = fold (marked 0x20) as v"

text \<open>Host memory of the segments starts at multiples of eight, as memory from the allocator does.\<close>

definition aligned :: "vm \<Rightarrow> bool" where
  "aligned v \<longleftrightarrow> (\<forall>seg \<in> set (mem_segs v). 8 dvd the (seg_object seg))"

lemma marked_segs [simp]: "mem_segs (marked k a v) = mem_segs v" by (simp add: marked_def)

lemma gpa2hva_segs: "mem_segs v' = mem_segs v \<Longrightarrow> vm_gpa2hva v' = vm_gpa2hva v"
  by (intro ext) (simp add: vm_gpa2hva_def vm_get_memobj_def)

lemma gpa2hva_aligned:
  assumes "segs_ok v" "aligned v" "8 dvd unat g" "vm_gpa2hva v g len = Some h"
  shows "8 dvd h"
proof -
  obtain seg where f: "List.find (\<lambda>seg. seg_object seg \<noteq> None \<and> g \<ge> seg_gpa seg \<and> g + len \<le> seg_gpa seg + seg_len seg) (mem_segs v) = Some seg"
    and h: "h = the (seg_object seg) + unat (g - seg_gpa seg)"
    using assms(4) by (auto simp: vm_gpa2hva_def vm_get_memobj_def split: option.splits)
  have s: "seg \<in> set (mem_segs v)" "seg_gpa seg \<le> g" using find_SomeD[OF f] by auto
  have "4096 dvd unat (seg_gpa seg)" using assms(1) s(1) by (simp add: segs_ok_def seg_ok_def)
  then have "8 dvd unat (seg_gpa seg)" by (rule dvd_trans[rotated]) simp
  moreover have "8 dvd the (seg_object seg)" using assms(2) s(1) by (simp add: aligned_def)
  ultimately show ?thesis using assms(3) h unat_sub[OF s(2)] by (simp add: dvd_add)
qed

lemma entry_aligned:
  assumes "segs_ok v" "aligned v" "format_ok tf" "vm_gpa2hva v (tf_table tf p) len = Some base"
  shows "tf_width tf dvd base + tf_width tf * i"
proof -
  have "8 dvd unat (tf_table tf p)" using format_laws(6)[OF assms(3)] by (rule dvd_trans[rotated]) simp
  from gpa2hva_aligned[OF assms(1,2) this assms(4)] have "8 dvd base" .
  then have "tf_width tf dvd base" using format_laws(3)[OF assms(3)] dvd_trans by blast
  then show ?thesis by simp
qed

text \<open>Accessed and dirty bits do not change a lookup.\<close>

lemma lookup_same:
  assumes "segs_ok v" "aligned v" "format_ok tf" "mem_segs v' = mem_segs v" "same_tables (tf_width tf) (vm_bytes v) (vm_bytes v')"
  shows "tf_table tf p' = tf_table tf p \<Longrightarrow> lookup_tables tf u prot gla n p' v' = lookup_tables tf u prot gla n p v"
proof (induction n arbitrary: p p')
  have s: "same_entry (load (tf_width tf) (vm_bytes v) a) (load (tf_width tf) (vm_bytes v') a)"
    if "vm_gpa2hva v (tf_table tf p) len = Some base" "a = base + tf_width tf * i" for p len base a i
    using assms(5) entry_aligned[OF assms(1-3) that(1)] that(2) by (simp add: same_tables_def)
  have g: "12 \<le> XHYVE_PAGE_SHIFT + k" for k by (simp add: XHYVE_PAGE_SHIFT_def)
  {
    case 0
    show ?case
    proof (cases "vm_gpa2hva v (tf_table tf p) (word_of_nat XHYVE_PAGE_SIZE)")
      case (Some base)
      note e = s[OF Some refl, of "unat (drop_bit (XHYVE_PAGE_SHIFT + 0 * tf_bits tf) gla AND mask (tf_bits tf))"]
      show ?thesis
        apply (subst lookup_tables.simps, subst (2) lookup_tables.simps)
        unfolding gpa2hva_segs[OF assms(4)] 0 Some option.case Let_def denied_same[OF e] code_same[OF e] format_laws(5)[OF assms(3) e g]
          same_entry_flags(4)[OF e] nat.case ..
    qed (simp add: lookup_tables.simps gpa2hva_segs[OF assms(4)] 0)
  next
    case (Suc n)
    show ?case
    proof (cases "vm_gpa2hva v (tf_table tf p) (word_of_nat XHYVE_PAGE_SIZE)")
      case (Some base)
      note e = s[OF Some refl, of "unat (drop_bit (XHYVE_PAGE_SHIFT + Suc n * tf_bits tf) gla AND mask (tf_bits tf))"]
      show ?thesis
        apply (subst lookup_tables.simps, subst (2) lookup_tables.simps)
        unfolding gpa2hva_segs[OF assms(4)] Suc.prems Some option.case Let_def denied_same[OF e] code_same[OF e] format_laws(5)[OF assms(3) e g]
          same_entry_flags(4)[OF e] nat.case Suc.IH[OF format_laws(4)[OF assms(3) e, symmetric]] ..
    qed (simp add: lookup_tables.simps gpa2hva_segs[OF assms(4)] Suc.prems)
  }
qed

lemma touch_set: "0 < w \<Longrightarrow> i < 8 \<Longrightarrow> (load w m a :: u64) AND 2 ^ i \<noteq> 0 \<Longrightarrow> touch (2 ^ i) a m = m"
proof (rule touch_again)
  assume *: "0 < w" "i < 8" "(load w m a :: u64) AND 2 ^ i \<noteq> 0"
  then have "bit (m a) i" using bit_load[of w m a i, where 'w = 64] by (simp add: and_exp_eq_0_iff_not_bit)
  then show "m a OR 2 ^ i = m a" by (intro bit_word_eqI) (auto simp: bit_or_iff bit_exp_iff)
qed

lemma set_flag:
  assumes "format_ok tf" "pte = load (tf_width tf) (vm_bytes v) a" "(k, f) \<in> {(0x20, PG_A), (0x40, PG_M)}"
  shows "(if pte AND f = 0 then atomic_cmpset (tf_width tf) a pte (pte OR f) v else (True, v)) = (True, marked k a v)"
proof -
  note w = format_laws(1,2)[OF assms(1)]
  have f: "f = ucast k" using assms(3) by (auto simp: pg)
  obtain i where i: "i < 8" "k = 2 ^ i" "f = 2 ^ i" using that[of 5] that[of 6] assms(3) by (auto simp: pg)
  show ?thesis
  proof (cases "pte AND f = 0")
    case False
    then show ?thesis using touch_set[OF w(1) i(1), of "vm_bytes v" a] i assms(2) by (simp add: marked_def)
  qed (simp add: atomic_cmpset_def assms(2) marked_def store_or[OF w] f)
qed

lemma set_accessed:
  assumes "format_ok tf" "pte = load (tf_width tf) (vm_bytes v) a"
  shows "(if pte AND PG_A = 0 then snd (atomic_cmpset (tf_width tf) a pte (pte OR PG_A) v) else v) = marked 0x20 a v"
  using set_flag[OF assms, of "0x20" PG_A] by (auto split: if_splits)

lemma accessed_simps [simp]: "accessed [] v = v" "accessed (a # as) v = accessed as (marked 0x20 a v)" "mem_segs (accessed as v) = mem_segs v"
proof -
  show "accessed [] v = v" "accessed (a # as) v = accessed as (marked 0x20 a v)" by (simp_all add: accessed_def)
  show "mem_segs (accessed as v) = mem_segs v" by (induction as arbitrary: v) (simp_all add: accessed_def)
qed

lemma same_marked:
  assumes "format_ok tf" "tf_width tf dvd a" "k \<in> {0x20, 0x40}" "same_tables (tf_width tf) m (vm_bytes v)"
  shows "same_tables (tf_width tf) m (vm_bytes (marked k a v))"
  using same_tables_touch[OF assms(4,2) format_laws(1,2)[OF assms(1)] assms(3)] by (simp add: marked_def)

lemma same_accessed:
  assumes "format_ok tf"
  shows "\<forall>a \<in> set as. tf_width tf dvd a \<Longrightarrow> same_tables (tf_width tf) m (vm_bytes v) \<Longrightarrow> same_tables (tf_width tf) m (vm_bytes (accessed as v))"
  by (induction as arbitrary: v) (use same_marked[OF assms] in auto)

text \<open>What the walk of the code does, in terms of the lookup.\<close>

definition walked :: "nat \<Rightarrow> nat list \<times> lookup \<Rightarrow> vm \<Rightarrow> leaf" where
  "walked w l v =
     (case snd l of
        Missing \<Rightarrow> NoTable (accessed (fst l) v)
      | Refused c \<Rightarrow> PageFault c (accessed (fst l) v)
      | Found page shift \<Rightarrow> Leaf (last (fst l)) (load w (vm_bytes (accessed (butlast (fst l)) v)) (last (fst l))) shift (accessed (fst l) v))"

lemma walked_ends:
  "walked w ([], Refused c) v = PageFault c v" "walked w ([a], Refused c) v = PageFault c (marked 0x20 a v)"
  "walked w ([a], Found page shift) v = Leaf a (load w (vm_bytes v) a) shift (marked 0x20 a v)"
  by (simp_all add: walked_def)

lemma lookup_found: "snd (lookup_tables tf u prot gla n p v) = Found page shift \<Longrightarrow> fst (lookup_tables tf u prot gla n p v) \<noteq> []"
  by (subst (asm) lookup_tables.simps, subst lookup_tables.simps) (auto split: option.splits if_splits nat.splits simp: Let_def)

lemma walked_cons: "(\<And>page shift. snd l = Found page shift \<Longrightarrow> fst l \<noteq> []) \<Longrightarrow> walked w (apfst (Cons a) l) v = walked w l (marked 0x20 a v)"
  by (cases l) (auto simp: walked_def split: lookup.splits)

lemma walk_tables_lookup:
  assumes "format_ok tf"
  shows "segs_ok v \<Longrightarrow> aligned v \<Longrightarrow> walk_tables tf u prot gla n p v = walked (tf_width tf) (lookup_tables tf u prot gla n p v) v"
proof (induction n arbitrary: p v)
  case 0
  then show ?case
    by (subst walk_tables.simps, subst lookup_tables.simps)
      (simp add: set_accessed[OF assms refl] walked_def Let_def split: option.splits)
next
  case (Suc n)
  show ?case
  proof (cases "vm_gpa2hva v (tf_table tf p) (word_of_nat XHYVE_PAGE_SIZE)")
    case (Some base)
    let ?a = "base + tf_width tf * unat (drop_bit (XHYVE_PAGE_SHIFT + Suc n * tf_bits tf) gla AND mask (tf_bits tf))"
    let ?pte = "load (tf_width tf) (vm_bytes v) ?a :: u64" and ?v = "marked 0x20 ?a v"
    have s: "same_tables (tf_width tf) (vm_bytes v) (vm_bytes ?v)"
      using same_marked[OF assms entry_aligned[OF Suc.prems assms Some]] by simp
    have "walk_tables tf u prot gla n ?pte ?v = walked (tf_width tf) (lookup_tables tf u prot gla n ?pte v) ?v"
      using Suc.IH[of ?v ?pte] Suc.prems lookup_same[OF Suc.prems assms _ s refl] by (simp add: segs_ok_def aligned_def)
    also have "\<dots> = walked (tf_width tf) (apfst (Cons ?a) (lookup_tables tf u prot gla n ?pte v)) v"
      using lookup_found by (subst walked_cons) auto
    finally have IH: "walk_tables tf u prot gla n ?pte ?v = \<dots>" .
    show ?thesis
      apply (subst walk_tables.simps, subst lookup_tables.simps)
      unfolding Some option.case Let_def set_accessed[OF assms refl] nat.case IH
        if_distrib[of "\<lambda>l. walked (tf_width tf) l v"] if_distrib[of "Pair [?a]"] walked_ends by simp
  qed (simp add: walk_tables.simps lookup_tables.simps walked_def)
qed

lemma lookup_entries:
  assumes "format_ok tf" "segs_ok v" "aligned v"
  shows "\<forall>a \<in> set (fst (lookup_tables tf u prot gla n p v)). tf_width tf dvd a"
proof (induction n arbitrary: p)
  case 0
  then show ?case using entry_aligned[OF assms(2,3,1)]
    by (subst lookup_tables.simps) (auto simp: Let_def split: option.splits)
next
  case (Suc n)
  then show ?case using entry_aligned[OF assms(2,3,1)]
    by (subst lookup_tables.simps) (auto simp: Let_def simp del: mult_Suc split: option.splits)
qed

lemma lookup_page:
  "snd (lookup_tables tf u prot gla n p v) = Found page shift \<Longrightarrow>
     12 \<le> shift \<and> page = tf_page tf shift (load (tf_width tf) (vm_bytes v) (last (fst (lookup_tables tf u prot gla n p v))))"
proof (induction n arbitrary: p)
  case 0
  then show ?case
    by (subst (asm) lookup_tables.simps, subst lookup_tables.simps) (auto simp: Let_def XHYVE_PAGE_SHIFT_def split: option.splits if_splits)
next
  case (Suc n)
  show ?case using Suc.prems Suc.IH lookup_found[of tf u prot gla n]
    by (subst (asm) lookup_tables.simps, subst lookup_tables.simps)
      (auto simp: Let_def XHYVE_PAGE_SHIFT_def simp del: mult_Suc split: option.splits if_splits)
qed

lemma accessed_bytes: "accessed as v = v\<lparr>vm_bytes := \<lambda>x. if x \<in> set as then vm_bytes v x OR 0x20 else vm_bytes v x\<rparr>"
  by (induction as arbitrary: v) (auto simp: marked_def touch_def fun_eq_iff or.assoc intro!: vm.equality)

lemma accessed_again: "set bs \<subseteq> set as \<Longrightarrow> accessed bs (accessed as v) = accessed as v"
  by (auto simp: accessed_bytes fun_eq_iff or.assoc intro!: vm.equality)

lemma accessed_fixed: "accessed as v = v \<Longrightarrow> set bs \<subseteq> set as \<Longrightarrow> accessed bs v = v"
  using accessed_again[of bs as v] by simp

lemma leaf_entry:
  assumes "format_ok tf" "as \<noteq> []" "tf_width tf dvd last as"
  shows "load (tf_width tf) (vm_bytes (accessed as v)) (last as) = (load (tf_width tf) (vm_bytes (accessed (butlast as) v)) (last as) :: u64) OR PG_A"
proof -
  have "accessed as v = marked 0x20 (last as) (accessed (butlast as) v)"
    using assms(2) by (subst append_butlast_last_id[symmetric, OF assms(2)]) (simp only: accessed_def fold_append fold_simps comp_apply)
  then show ?thesis using load_touch[OF format_laws(1)[OF assms(1)] assms(3,3) format_laws(2)[OF assms(1)], of "0x20"]
    by (simp add: marked_def pg)
qed

text \<open>What a translation gives: the reference for \<^verbatim>\<open>vm_gla2gpa\<close>.\<close>

definition mmu :: "int \<Rightarrow> u32 \<Rightarrow> u64 \<Rightarrow> nat list \<times> lookup \<Rightarrow> vm \<Rightarrow> translation option" where
  "mmu c prot gla l v =
     (let v1 = accessed (fst l) v
      in case snd l of
           Missing \<Rightarrow> Some (EFAULT, False, None, v1)
         | Refused code \<Rightarrow> inject_pf_fault c gla code v1
         | Found page shift \<Rightarrow>
             Some (OK, False, Some (page OR (gla AND mask shift)), if prot AND XHYVE_PROT_WRITE \<noteq> 0 then marked 0x40 (last (fst l)) v1 else v1))"

lemma finish_leaf:
  assumes "format_ok tf" "as \<noteq> []" "tf_width tf dvd last as" "pte = load (tf_width tf) (vm_bytes (accessed (butlast as) v)) (last as)"
    "tf_page tf shift pte = page"
  shows "finish_walk tf c prot gla (Leaf (last as) pte shift (accessed as v)) \<in>
      {map_option Inr (mmu c prot gla (as, Found page shift) v), Some (Inl (accessed as v))}"
    "accessed as v = v \<Longrightarrow> finish_walk tf c prot gla (Leaf (last as) pte shift (accessed as v)) = map_option Inr (mmu c prot gla (as, Found page shift) v)"
proof -
  let ?now = "load (tf_width tf) (vm_bytes (accessed as v)) (last as) :: u64"
  have now: "?now = pte OR PG_A" using leaf_entry[OF assms(1-3)] assms(4) by simp
  have m: "(2 ^ shift - 1 :: u64) = mask shift" by (simp add: mask_eq_exp_minus_1)
  note dirty = set_flag[OF assms(1) refl, of "0x40" PG_M "accessed as v" "last as"]
  have M: "pte AND PG_M = 0 \<longleftrightarrow> ?now AND PG_M = 0" unfolding now by (simp add: bit.conj_disj_distrib2 pg)
  have eq: "finish_walk tf c prot gla (Leaf (last as) pte shift (accessed as v)) = map_option Inr (mmu c prot gla (as, Found page shift) v)"
    if "prot AND XHYVE_PROT_WRITE = 0 \<or> pte AND PG_M \<noteq> 0 \<or> ?now = pte"
    using that dirty M assms(5) by (auto simp: finish_walk_def mmu_def m Let_def split: if_splits)
  show "finish_walk tf c prot gla (Leaf (last as) pte shift (accessed as v)) \<in>
      {map_option Inr (mmu c prot gla (as, Found page shift) v), Some (Inl (accessed as v))}"
  proof (cases "prot AND XHYVE_PROT_WRITE = 0 \<or> pte AND PG_M \<noteq> 0 \<or> ?now = pte")
    case False
    then show ?thesis by (simp add: finish_walk_def atomic_cmpset_def)
  qed (use eq in blast)
  show "finish_walk tf c prot gla (Leaf (last as) pte shift (accessed as v)) = map_option Inr (mmu c prot gla (as, Found page shift) v)"
    if "accessed as v = v"
  proof (rule eq)
    have "accessed (butlast as) v = v" using accessed_fixed[OF that, of "butlast as"] in_set_butlastD by fast
    then have "?now = pte" using that assms(4) by simp
    then show "prot AND XHYVE_PROT_WRITE = 0 \<or> pte AND PG_M \<noteq> 0 \<or> ?now = pte" by blast
  qed
qed

lemma tables_once:
  assumes "format_ok tf" "segs_ok v" "aligned v" "l = lookup_tables tf u prot gla n p v"
  shows "finish_walk tf c prot gla (walk_tables tf u prot gla n p v) \<in> {map_option Inr (mmu c prot gla l v), Some (Inl (accessed (fst l) v))}"
    "accessed (fst l) v = v \<Longrightarrow> finish_walk tf c prot gla (walk_tables tf u prot gla n p v) = map_option Inr (mmu c prot gla l v)"
proof -
  note w = walk_tables_lookup[OF assms(1-3), of u prot gla n p, folded assms(4)]
  have *: "finish_walk tf c prot gla (walked (tf_width tf) l v) \<in> {map_option Inr (mmu c prot gla l v), Some (Inl (accessed (fst l) v))}
      \<and> (accessed (fst l) v = v \<longrightarrow> finish_walk tf c prot gla (walked (tf_width tf) l v) = map_option Inr (mmu c prot gla l v))"
  proof (cases "snd l")
    case (Found page shift)
    then obtain as where l: "l = (as, Found page shift)" by (cases l) auto
    let ?pte = "load (tf_width tf) (vm_bytes (accessed (butlast as) v)) (last as) :: u64"
    have as: "as \<noteq> []" "\<forall>a \<in> set as. tf_width tf dvd a" "12 \<le> shift" "page = tf_page tf shift (load (tf_width tf) (vm_bytes v) (last as))"
      using lookup_found[of tf u prot gla n p v page shift] lookup_entries[OF assms(1-3), of u prot gla n p]
        lookup_page[of tf u prot gla n p v page shift] unfolding assms(4)[symmetric] l by auto
    have "same_entry (load (tf_width tf) (vm_bytes v) (last as)) ?pte"
      using same_accessed[OF assms(1), of "butlast as" "vm_bytes v" v] as(1,2) by (simp add: same_tables_def in_set_butlastD)
    then have pg: "tf_page tf shift ?pte = page" using format_laws(5)[OF assms(1)] as(3,4) by simp
    have d: "tf_width tf dvd last as" using as(1,2) by simp
    show ?thesis using finish_leaf[OF assms(1) as(1) d refl pg, of c prot gla] by (simp add: l walked_def)
  qed (simp_all add: walked_def finish_walk_def mmu_def)
  show "finish_walk tf c prot gla (walk_tables tf u prot gla n p v) \<in> {map_option Inr (mmu c prot gla l v), Some (Inl (accessed (fst l) v))}"
    "accessed (fst l) v = v \<Longrightarrow> finish_walk tf c prot gla (walk_tables tf u prot gla n p v) = map_option Inr (mmu c prot gla l v)"
    unfolding w using * by blast+
qed

lemma lookup_accessed:
  assumes "format_ok tf" "segs_ok v" "aligned v" "l = lookup_tables tf u prot gla n p v" "tf_table tf p' = tf_table tf p"
  shows "lookup_tables tf u prot gla n p' (accessed (fst l) v) = l"
proof -
  have "same_tables (tf_width tf) (vm_bytes v) (vm_bytes (accessed (fst l) v))"
    using same_accessed[OF assms(1)] lookup_entries[OF assms(1-3), of u prot gla n p] assms(4) by simp
  then show ?thesis using lookup_same[OF assms(2,3,1) _ _ assms(5)] assms(4) by simp
qed

text \<open>The top of the tables: \<^verbatim>\<open>CR3\<close>, or one of four pointers it leads to.\<close>

definition mmu_lookup :: "vm_guest_paging \<Rightarrow> u64 \<Rightarrow> u32 \<Rightarrow> vm \<Rightarrow> nat list \<times> lookup" where
  "mmu_lookup paging gla prot v =
     (let u = (pg_cpl paging = 3)
      in case pg_paging_mode paging of
           PAGING_MODE_FLAT \<Rightarrow> ([], Missing)
         | PAGING_MODE_32 \<Rightarrow> lookup_tables tables_32 u prot gla 1 (pg_cr3 paging) v
         | PAGING_MODE_64 \<Rightarrow> lookup_tables tables_64 u prot gla 3 (pg_cr3 paging) v
         | PAGING_MODE_PAE \<Rightarrow>
             (case vm_gpa2hva v (pg_cr3 paging AND 0xffffffe0) 32 of
                None \<Rightarrow> ([], Missing)
              | Some base \<Rightarrow>
                  let pdpte = load 8 (vm_bytes v) (base + 8 * unat (drop_bit 30 gla AND 3))
                  in if pdpte AND PG_V = 0 then ([], Refused (pf_error_code u prot False pdpte)) else lookup_tables tables_64 u prot gla 1 pdpte v))"

definition mmu_walk :: "int \<Rightarrow> vm_guest_paging \<Rightarrow> u64 \<Rightarrow> u32 \<Rightarrow> vm \<Rightarrow> translation option" where
  "mmu_walk c paging gla prot v =
     (if vie_canonical_check (pg_cpu_mode paging) gla then map_option (\<lambda>v. (OK, True, None, v)) (vm_inject_gp c v)
      else if pg_paging_mode paging = PAGING_MODE_FLAT then Some (OK, False, Some gla, v)
      else mmu c prot gla (mmu_lookup paging gla prot v) v)"

lemma formats [simp]: "format_ok tables_32" "format_ok tables_64"
  by (simp_all add: format_ok_def)

lemma walk_once_exact:
  assumes "segs_ok v" "aligned v"
  shows "walk_once c paging gla prot v \<in> {map_option Inr (mmu_walk c paging gla prot v), Some (Inl (accessed (fst (mmu_lookup paging gla prot v)) v))}"
    "accessed (fst (mmu_lookup paging gla prot v)) v = v \<Longrightarrow> walk_once c paging gla prot v = map_option Inr (mmu_walk c paging gla prot v)"
proof -
  note t = tables_once[OF formats(1) assms refl] tables_once[OF formats(2) assms refl]
  have p: "x \<in> {a, b} \<longleftrightarrow> x = a \<or> x = b" for x a b :: 'z by blast
  have e: "map_option Inr (inject_pf_fault c gla code v) = map_option Inr (mmu c prot gla ([], Refused code) v)" for code by (simp add: mmu_def)
  have "walk_once c paging gla prot v \<in> {map_option Inr (mmu_walk c paging gla prot v), Some (Inl (accessed (fst (mmu_lookup paging gla prot v)) v))}
    \<and> (accessed (fst (mmu_lookup paging gla prot v)) v = v \<longrightarrow> walk_once c paging gla prot v = map_option Inr (mmu_walk c paging gla prot v))"
  proof (cases "vie_canonical_check (pg_cpu_mode paging) gla")
    case True
    then show ?thesis by (simp add: walk_once_def mmu_walk_def option.map_comp comp_def)
  next
    case False
    show ?thesis
    proof (cases "pg_paging_mode paging")
      case PAGING_MODE_PAE
      show ?thesis
      proof (cases "vm_gpa2hva v (pg_cr3 paging AND 0xffffffe0) 32")
        case (Some base)
        let ?pte = "load 8 (vm_bytes v) (base + 8 * unat (drop_bit 30 gla AND 3)) :: u64"
        show ?thesis using False PAGING_MODE_PAE Some t(3,4)[where c = c and prot = prot and gla = gla and u = "pg_cpl paging = 3" and n = 1 and p = ?pte] e
          by (cases "?pte AND PG_V = 0") (simp_all add: walk_once_def mmu_walk_def mmu_lookup_def)
      qed (use False PAGING_MODE_PAE in \<open>simp add: walk_once_def mmu_walk_def mmu_lookup_def mmu_def\<close>)
    qed (use False t[where c = c and prot = prot and gla = gla and u = "pg_cpl paging = 3" and p = "pg_cr3 paging"] in \<open>simp_all add: walk_once_def mmu_walk_def mmu_lookup_def\<close>)
  qed
  then show "walk_once c paging gla prot v \<in> {map_option Inr (mmu_walk c paging gla prot v), Some (Inl (accessed (fst (mmu_lookup paging gla prot v)) v))}"
    "accessed (fst (mmu_lookup paging gla prot v)) v = v \<Longrightarrow> walk_once c paging gla prot v = map_option Inr (mmu_walk c paging gla prot v)" by blast+
qed

lemma pdpte_same:
  assumes "segs_ok v" "aligned v" "vm_gpa2hva v (g AND 0xffffffe0) len = Some base" "same_tables 8 (vm_bytes v) m'"
  shows "same_entry (load 8 (vm_bytes v) (base + 8 * i)) (load 8 m' (base + 8 * i))"
proof -
  have "bit (0xffffffe0 :: u64) n = (5 \<le> n \<and> n < 32)" for n
  proof -
    have e: "(0xffffffe0 :: u64) = push_bit 5 (mask 27)" by (simp add: mask_eq_exp_minus_1)
    show ?thesis unfolding e bit_push_bit_iff bit_mask_iff by auto
  qed
  then have "take_bit 3 (g AND 0xffffffe0) = 0" by (intro bit_word_eqI) (simp add: bit_take_bit_iff bit_and_iff)
  then have "take_bit 3 (unat (g AND 0xffffffe0)) = 0" by (metis unsigned_0 unsigned_take_bit_eq)
  then have "8 dvd unat (g AND 0xffffffe0)" by (simp add: take_bit_eq_mod mod_eq_0_iff_dvd)
  from gpa2hva_aligned[OF assms(1,2) this assms(3)] have "8 dvd base + 8 * i" by simp
  then show ?thesis using assms(4) by (simp add: same_tables_def)
qed

lemma mmu_lookup_accessed:
  assumes "segs_ok v" "aligned v" "l = mmu_lookup paging gla prot v"
  shows "mmu_lookup paging gla prot (accessed (fst l) v) = l"
proof (cases "pg_paging_mode paging")
  case PAGING_MODE_PAE
  show ?thesis
  proof (cases "vm_gpa2hva v (pg_cr3 paging AND 0xffffffe0) 32")
    case None
    then show ?thesis using assms(3) PAGING_MODE_PAE by (simp add: mmu_lookup_def)
  next
    case (Some base)
    let ?a = "base + 8 * unat (drop_bit 30 gla AND 3)"
    let ?pte = "load 8 (vm_bytes v) ?a :: u64"
    have l: "l = (if ?pte AND PG_V = 0 then ([], Refused (pf_error_code (pg_cpl paging = 3) prot False ?pte))
        else lookup_tables tables_64 (pg_cpl paging = 3) prot gla 1 ?pte v)"
      unfolding assms(3) mmu_lookup_def PAGING_MODE_PAE Let_def vm_paging_mode.case Some option.case ..
    show ?thesis
    proof (cases "?pte AND PG_V = 0")
      case True
      then have "fst l = []" using l by simp
      then show ?thesis using assms(3) by simp
    next
      case False
      then have k: "l = lookup_tables tables_64 (pg_cpl paging = 3) prot gla 1 ?pte v" using l by simp
      have "same_tables 8 (vm_bytes v) (vm_bytes (accessed (fst l) v))"
        using same_accessed[OF formats(2), of "fst l" "vm_bytes v" v] lookup_entries[OF formats(2) assms(1,2)] k by (simp add: tables_64_def)
      note s = pdpte_same[OF assms(1,2) Some this]
      show ?thesis using lookup_accessed[OF formats(2) assms(1,2) k format_laws(4)[OF formats(2) s, symmetric]] False same_entry_flags(1)[OF s]
        by (simp add: mmu_lookup_def PAGING_MODE_PAE gpa2hva_segs[of "accessed (fst l) v" v] Some)
    qed
  qed
qed (use assms(3) lookup_accessed[OF _ assms(1,2) _ refl] in \<open>simp_all add: mmu_lookup_def\<close>)

lemma gla2gpa_mmu:
  assumes "segs_ok v" "aligned v"
  shows "vm_gla2gpa c paging gla prot v = mmu_walk c paging gla prot v"
proof -
  let ?l = "mmu_lookup paging gla prot v"
  let ?v = "accessed (fst ?l) v"
  have l: "mmu_lookup paging gla prot ?v = ?l" by (rule mmu_lookup_accessed[OF assms refl])
  have again: "accessed (fst ?l) ?v = ?v" by (rule accessed_again) simp
  have "segs_ok ?v" "aligned ?v" using assms by (simp_all add: segs_ok_def aligned_def)
  then have second: "walk_once c paging gla prot ?v = map_option Inr (mmu_walk c paging gla prot ?v)" using walk_once_exact(2) l again by metis
  have ends: "vm_gla2gpa c paging gla prot w = mmu_walk c paging gla prot w"
    if "walk_once c paging gla prot w = map_option Inr (mmu_walk c paging gla prot w)" for w
    by (subst vm_gla2gpa.simps) (simp add: that split: option.split)
  show ?thesis
  proof (cases "walk_once c paging gla prot v = map_option Inr (mmu_walk c paging gla prot v)")
    case False
    then have r: "walk_once c paging gla prot v = Some (Inl ?v)" using walk_once_exact(1)[OF assms, of c paging gla prot] by blast
    then have "\<not> vie_canonical_check (pg_cpu_mode paging) gla" "pg_paging_mode paging \<noteq> PAGING_MODE_FLAT"
      by (auto simp: walk_once_def Let_def split: if_splits)
    then have "mmu_walk c paging gla prot ?v = mmu_walk c paging gla prot v" by (simp add: mmu_walk_def l mmu_def again)
    then show ?thesis using r ends[OF second] by (subst vm_gla2gpa.simps) simp
  qed (rule ends)
qed

text \<open>A write through 32-bit tables: directory at address 0, table at 0x1000, page at 0x2000.\<close>

definition sample_tables :: vm where
  "sample_tables = sample_vm\<lparr>mem_segs := [\<lparr>seg_gpa = 0, seg_len = 0x4000, seg_object = Some 0\<rparr>],
     vm_bytes := (\<lambda>_. 0)(0 := 3, 1 := 0x10, 0x1004 := 3, 0x1005 := 0x20)\<rparr>"

lemma sample_tables_ok: "segs_ok sample_tables" "aligned sample_tables"
  by (simp_all add: sample_tables_def segs_ok_def seg_ok_def aligned_def VM_MAX_MEMORY_SEGMENTS_def)

lemma sample_lookup: "lookup_tables tables_32 False XHYVE_PROT_WRITE 0x1234 1 0 sample_tables = ([0, 0x1004], Found 0x2000 12)"
proof -
  have h: "vm_gpa2hva sample_tables 0 0x1000 = Some 0" "vm_gpa2hva sample_tables 0x1000 0x1000 = Some 0x1000"
    by (simp_all add: vm_gpa2hva_def vm_get_memobj_def sample_tables_def)
  have l: "load 4 (vm_bytes sample_tables) 0 = (0x1003 :: u64)" "load 4 (vm_bytes sample_tables) 0x1004 = (0x2003 :: u64)"
    by (simp_all add: load_def sample_tables_def upt_rec)
  have d: "\<not> denied False XHYVE_PROT_WRITE 0x1003" "\<not> denied False XHYVE_PROT_WRITE 0x2003" by (simp_all add: denied_def pg prots)
  have last: "lookup_tables tables_32 False XHYVE_PROT_WRITE 0x1234 0 0x1003 sample_tables = ([0x1004], Found 0x2000 12)"
    by (subst lookup_tables.simps) (simp add: tables_32_def XHYVE_PAGE_SIZE_def XHYVE_PAGE_SHIFT_def h l d mask_eq_exp_minus_1)
  show ?thesis
    by (subst lookup_tables.simps) (use last in \<open>simp add: tables_32_def XHYVE_PAGE_SIZE_def XHYVE_PAGE_SHIFT_def h l d mask_eq_exp_minus_1 pg\<close>)
qed

section \<open>Copies between host and guest\<close>

lemma low_bits: "unat (g AND 0xfff) = unat g mod 4096" for g :: u64
proof -
  have m: "(0xfff :: u64) = mask 12" by (simp add: mask_eq_exp_minus_1)
  show ?thesis unfolding m take_bit_eq_mask[symmetric] unsigned_take_bit_eq by (simp add: take_bit_eq_mod)
qed

text \<open>A virtual CPU a fault can be injected into: no other exception is pending, and it is running or frozen.\<close>

definition can_fault :: "int \<Rightarrow> vm \<Rightarrow> bool" where
  "can_fault c v \<longleftrightarrow> \<not> bad_vcpuid c \<and> \<not> exception_pending (vm_vcpu v (nat c)) \<and> cpu_state (vm_vcpu v (nat c)) \<in> {VCPU_RUNNING, VCPU_FROZEN}"

lemma inject_returns:
  assumes "can_fault c v"
  shows "\<exists>v'. vm_inject_gp c v = Some v'" "\<exists>v'. vm_inject_pf c code cr2 v = Some v'"
  using assms
  by (auto simp: can_fault_def vm_inject_gp_def vm_inject_pf_def vm_inject_fault_def vm_inject_exception_def vm_restart_instruction_def
      vm_set_register_def vm_get_register_def upd_vcpu_def idt Let_def split: vcpu_state.splits)

lemma page_low:
  assumes "format_ok tf" "12 \<le> shift"
  shows "tf_page tf shift p AND 0xfff = 0"
proof -
  have m: "(0xfff :: u64) = mask 12" by (simp add: mask_eq_exp_minus_1)
  show ?thesis unfolding m using assms
    by (intro bit_word_eqI) (auto simp: format_ok_def tables_32_def tables_64_def bit_and_iff bit_mask_iff bit_push_bit_iff bit_drop_bit_eq)
qed

lemma lookup_found_low:
  assumes "snd (mmu_lookup paging gla prot v) = Found page shift"
  shows "(page OR (gla AND mask shift)) AND 0xfff = gla AND 0xfff"
proof -
  have *: "12 \<le> shift \<and> page AND 0xfff = 0" if "format_ok tf" "snd (lookup_tables tf u prot gla n p v) = Found page shift" for tf u n p
    using lookup_page[OF that(2)] page_low[OF that(1)] by auto
  have l: "12 \<le> shift \<and> page AND 0xfff = 0"
    using assms *[OF formats(1)] *[OF formats(2)] by (auto simp: mmu_lookup_def Let_def split: vm_paging_mode.splits option.splits if_splits)
  have m: "(0xfff :: u64) = mask 12" by (simp add: mask_eq_exp_minus_1)
  have "(gla AND mask shift) AND 0xfff = gla AND 0xfff" unfolding m using l by (intro bit_word_eqI) (auto simp: bit_and_iff bit_mask_iff)
  then show ?thesis using l by (simp add: bit.conj_disj_distrib2)
qed

text \<open>A translated address has 52 bits.\<close>

lemma lookup_shift: "snd (lookup_tables tf u prot gla n p v) = Found page shift \<Longrightarrow> shift \<le> XHYVE_PAGE_SHIFT + n * tf_bits tf"
proof (induction n arbitrary: p)
  case 0
  then show ?case by (subst (asm) lookup_tables.simps) (auto simp: Let_def split: option.splits if_splits)
next
  case (Suc n)
  show ?case using Suc.prems Suc.IH
    by (subst (asm) lookup_tables.simps) (fastforce simp: Let_def split: option.splits if_splits)
qed

lemma page_high:
  assumes "format_ok tf" "bit (tf_page tf shift (load (tf_width tf) m a)) k"
  shows "k < 52"
  using assms by (auto simp: format_ok_def tables_32_def tables_64_def bit_push_bit_iff bit_drop_bit_eq bit_load)

lemma lookup_found_high:
  assumes "snd (mmu_lookup paging gla prot v) = Found page shift"
  shows "unat (page OR (gla AND mask shift)) < 2 ^ 52"
proof -
  have *: "shift \<le> 39 \<and> (\<forall>k. bit page k \<longrightarrow> k < 52)"
    if "format_ok tf" "snd (lookup_tables tf u prot gla n p v) = Found page shift" "n * tf_bits tf \<le> 27" for tf u n p
    using lookup_page[OF that(2)] lookup_shift[OF that(2)] page_high[OF that(1)] that(3) by (auto simp: XHYVE_PAGE_SHIFT_def)
  have l: "shift \<le> 39 \<and> (\<forall>k. bit page k \<longrightarrow> k < 52)"
    using assms *[OF formats(1)] *[OF formats(2)]
    by (auto simp: mmu_lookup_def Let_def tables_32_def tables_64_def split: vm_paging_mode.splits option.splits if_splits)
  then have "take_bit 52 (page OR (gla AND mask shift)) = page OR (gla AND mask shift)"
    by (intro bit_word_eqI) (auto simp: bit_take_bit_iff bit_or_iff bit_and_iff bit_mask_iff)
  then have "take_bit 52 (unat (page OR (gla AND mask shift))) = unat (page OR (gla AND mask shift))" by (metis unsigned_take_bit_eq)
  then show ?thesis by (metis take_bit_nat_less_exp)
qed

lemma translate_cases:
  assumes "segs_ok v" "aligned v" "can_fault c v"
  obtains v' where "vm_gla2gpa c paging gla prot v = Some (OK, True, None, v')"
  | v' where "vm_gla2gpa c paging gla prot v = Some (EFAULT, False, None, v')"
  | g v' where "vm_gla2gpa c paging gla prot v = Some (OK, False, Some g, v')" "unat g mod 4096 = unat gla mod 4096"
      "mem_segs v' = mem_segs v" "vm_vcpu v' = vm_vcpu v" "g = gla \<or> unat g < 2 ^ 52"
proof -
  let ?l = "mmu_lookup paging gla prot v"
  have c: "vm_vcpu (accessed as w) = vm_vcpu w" "vm_vcpu (marked k a w) = vm_vcpu w" for as k a w by (simp_all add: accessed_bytes marked_def)
  have f: "can_fault c (accessed as v)" for as using assms(3) by (simp add: can_fault_def c)
  show ?thesis
  proof (cases "vie_canonical_check (pg_cpu_mode paging) gla")
    case True
    then show ?thesis using that(1) inject_returns(1)[OF assms(3)] gla2gpa_mmu[OF assms(1,2)] by (auto simp: mmu_walk_def)
  next
    case nc: False
    show ?thesis
    proof (cases "pg_paging_mode paging = PAGING_MODE_FLAT")
      case True
      then show ?thesis using that(3)[of gla v] nc gla2gpa_mmu[OF assms(1,2)] by (simp add: mmu_walk_def)
    next
      case False
      then have e: "vm_gla2gpa c paging gla prot v = mmu c prot gla ?l v" using nc gla2gpa_mmu[OF assms(1,2)] by (simp add: mmu_walk_def)
      show ?thesis
      proof (cases "snd ?l")
        case Missing
        then show ?thesis using that(2) e by (simp add: mmu_def)
      next
        case (Refused code)
        then show ?thesis using that(1) e inject_returns(2)[OF f] by (fastforce simp: mmu_def inject_pf_fault_def)
      next
        case (Found page shift)
        have "unat (page OR (gla AND mask shift)) mod 4096 = unat gla mod 4096"
          using lookup_found_low[OF Found] low_bits by metis
        then show ?thesis using that(3) e Found False c lookup_found_high[OF Found] by (fastforce simp: mmu_def Let_def)
      qed
    qed
  qed
qed



text \<open>The pieces of a range of at most a page: one, or the end of a page and the start of another.\<close>

lemma piece_step:
  assumes "segs_ok v" "aligned v" "can_fault c v" "0 < remaining" "n = min remaining (4096 - unat gla mod 4096)"
  obtains e fault v' where "e \<noteq> OK \<or> fault" "copy_pieces c paging prot gla remaining (Suc room) acc v = Some (e, fault, acc, v')"
  | g v' where "copy_pieces c paging prot gla remaining (Suc room) acc v = copy_pieces c paging prot (gla + word_of_nat n) (remaining - n) room (acc @ [(g, n)]) v'"
      "unat g mod 4096 = unat gla mod 4096" "mem_segs v' = mem_segs v" "vm_vcpu v' = vm_vcpu v" "g = gla \<or> unat g < 2 ^ 52"
  using assms(1-3)
proof (cases rule: translate_cases[of v c paging gla prot])
  case (1 v')
  then show ?thesis using assms(4) by (intro that(1)[of OK True v']) simp_all
next
  case (2 v')
  then show ?thesis using assms(4) by (intro that(1)[of EFAULT False v']) simp_all
next
  case (3 g v')
  have "copy_pieces c paging prot gla remaining (Suc room) acc v =
      copy_pieces c paging prot (gla + word_of_nat n) (remaining - n) room (acc @ [(g, n)]) v'"
    by (subst copy_pieces.simps) (use 3 assms(4,5) in \<open>simp add: low_bits XHYVE_PAGE_SIZE_def Let_def del: copy_pieces.simps\<close>)
  from that(2)[OF this 3(2-5)] show ?thesis .
qed

lemma page_end: "(a + (4096 - a mod 4096)) mod 4096 = 0" for a :: nat
proof -
  have "a mod 4096 + (4096 - a mod 4096) = 4096" by simp
  then show ?thesis by (metis mod_add_left_eq mod_self)
qed

definition pieces_ok :: "nat \<Rightarrow> (u64 \<times> nat) list \<Rightarrow> bool" where
  "pieces_ok len ps \<longleftrightarrow>
     (\<forall>(g, n) \<in> set ps. 0 < n \<and> unat g + n < 2 ^ 64) \<and> sum_list (map snd ps) = len \<and>
     (ps = [] \<or> (\<exists>g. ps = [(g, len)]) \<or> (\<exists>g h n. ps = [(g, n), (h, len - n)] \<and> len - n \<le> unat g mod 4096 \<and> n = 4096 - unat g mod 4096 \<and> unat h mod 4096 = 0))"

lemma two_pieces:
  assumes "0 < n" "n < len" "len \<le> 4096" "unat g + n < 2 ^ 64" "unat h + (len - n) < 2 ^ 64" "n = 4096 - unat g mod 4096" "unat h mod 4096 = 0"
  shows "pieces_ok len [(g, n), (h, len - n)]"
proof -
  have "len - (4096 - r) \<le> r" for r using assms(3) by simp
  from this[of "unat g mod 4096"] have "len - n \<le> unat g mod 4096" unfolding assms(6) .
  then have k: "\<exists>g' h' n'. [(g, n), (h, len - n)] = [(g', n'), (h', len - n')] \<and> len - n' \<le> unat g' mod 4096 \<and> n' = 4096 - unat g' mod 4096 \<and> unat h' mod 4096 = 0"
    using assms(6,7) by (intro exI[of _ g] exI[of _ h] exI[of _ n] conjI refl)
  have "0 < len - n" "n + (len - n) = len" using assms(2) by simp_all
  then show ?thesis unfolding pieces_ok_def using assms(1,4,5) by (intro conjI disjI2 k) (simp_all only: list.set ball_simps prod.case list.map snd_conv sum_list.Cons sum_list.Nil add_0_right ball_empty simp_thms)
qed

lemma copy_pieces_exact:
  assumes "segs_ok v" "aligned v" "can_fault c v" "len \<le> 4096" "unat gla + len < 2 ^ 64"
  shows "\<exists>e fault ps v'. copy_pieces c paging prot gla len 2 [] v = Some (e, fault, ps, v')
    \<and> (e = OK \<and> \<not> fault \<longrightarrow> pieces_ok len ps \<and> mem_segs v' = mem_segs v)"
proof (cases "len = 0")
  case False
  define n where "n = min len (4096 - unat gla mod 4096)"
  have n: "0 < n" "n \<le> len" using False by (simp_all add: n_def)
  have two: "copy_pieces c paging prot gla len 2 [] v = copy_pieces c paging prot gla len (Suc (Suc 0)) [] v" by (simp only: numeral_2_eq_2)
  have "0 < len" using False by simp
  from assms(1-3) this n_def show ?thesis
  proof (cases rule: piece_step[of v c len n gla paging prot "Suc 0" "[]"])
    case (1 e fault v')
    then show ?thesis unfolding two by (auto simp del: copy_pieces.simps)
  next
    case (2 g v')
    note first = 2
    have g: "unat g + n < 2 ^ 64" using first(5) assms(4,5) n by auto
    show ?thesis
    proof (cases "n = len")
      case True
      then have "copy_pieces c paging prot gla len (Suc (Suc 0)) [] v = Some (OK, False, [(g, len)], v')" using first(1) by simp
      then show ?thesis using first g True n(1) unfolding two by (auto simp: pieces_ok_def simp del: copy_pieces.simps)
    next
      case more: False
      then have e: "n = 4096 - unat gla mod 4096" "n < len" using n(2) unfolding n_def by auto
      have u: "unat (gla + word_of_nat n) = unat gla + n"
        using assms(5) n(2) by (simp add: unat_word_ariths unat_of_nat)
      have u0: "unat (gla + word_of_nat n) mod 4096 = 0" unfolding u by (simp only: e(1) page_end)
      have v': "segs_ok v'" "aligned v'" "can_fault c v'" using assms(1-3) first by (simp_all add: segs_ok_def aligned_def can_fault_def)
      have rest: "0 < len - n" "len - n = min (len - n) (4096 - unat (gla + word_of_nat n) mod 4096)" using e assms(4) u0 by simp_all
      from v' rest show ?thesis
      proof (cases rule: piece_step[of v' c "len - n" "len - n" "gla + word_of_nat n" paging prot 0 "[(g, n)]"])
        case (1 er fault w)
        then show ?thesis using first(1) unfolding two by (auto simp del: copy_pieces.simps)
      next
        case (2 h w)
        have "unat h + (len - n) < 2 ^ 64" using 2(5) u assms(4,5) n(2) by auto
        moreover have "n = 4096 - unat g mod 4096" "unat h mod 4096 = 0" unfolding first(2) 2(2) by (rule e(1), rule u0)
        ultimately have "pieces_ok len [(g, n), (h, len - n)]" by (rule two_pieces[OF n(1) e(2) assms(4) g])
        moreover have "copy_pieces c paging prot gla len (Suc (Suc 0)) [] v = Some (OK, False, [(g, n), (h, len - n)], w)" using first(1) 2(1) by simp
        ultimately show ?thesis using first(3) 2(3) unfolding two by (auto simp del: copy_pieces.simps)
      qed
    qed
  qed
qed (auto simp: pieces_ok_def)

text \<open>Bytes written to disjoint pieces are read back.\<close>

definition piece_range :: "vm_copyinfo \<Rightarrow> nat set" where
  "piece_range ci = {ci_hva ci..<ci_hva ci + ci_len ci}"

lemma copy_loops:
  assumes "sum_list (map ci_len cs) = len" "\<forall>ci \<in> set cs. 0 < ci_len ci" "sorted_wrt (\<lambda>ci cj. piece_range ci \<inter> piece_range cj = {}) cs" "length src = len"
  shows "\<exists>m'. copyout_loop cs len src m = Some m' \<and> copyin_loop cs len m' = Some src \<and> (\<forall>x. (\<forall>ci \<in> set cs. x \<notin> piece_range ci) \<longrightarrow> m' x = m x)"
  using assms
proof (induction cs arbitrary: len src m)
  case (Cons ci cs)
  let ?n = "ci_len ci"
  let ?m = "put_bytes (ci_hva ci) (take ?n src) m"
  obtain k where k: "len = Suc k" using Cons.prems(1,2) by (cases len) auto
  obtain m' where m': "copyout_loop cs (len - ?n) (drop ?n src) ?m = Some m'" "copyin_loop cs (len - ?n) m' = Some (drop ?n src)"
    "\<forall>x. (\<forall>ci \<in> set cs. x \<notin> piece_range ci) \<longrightarrow> m' x = ?m x"
    using Cons.IH[of "len - ?n" "drop ?n src" ?m] Cons.prems by auto
  have n: "?n \<le> length src" using Cons.prems(1,4) by auto
  have "m' (ci_hva ci + i) = src ! i" if "i < ?n" for i
  proof -
    have "ci_hva ci + i \<in> piece_range ci" using that by (simp add: piece_range_def)
    then have "m' (ci_hva ci + i) = ?m (ci_hva ci + i)" using m'(3) Cons.prems(3) by auto
    then show ?thesis using that n by (simp add: put_bytes_def)
  qed
  then have "get_bytes (ci_hva ci) ?n m' = take ?n src" using n by (auto simp: get_bytes_def intro: nth_equalityI)
  then have "copyin_loop (ci # cs) len m' = Some src" using m'(2) k n Cons.prems(4) by (simp add: not_less)
  moreover have "copyout_loop (ci # cs) len src m = Some m'" using m'(1) k n Cons.prems(4) by (simp add: not_less)
  moreover have "?m x = m x" if "x \<notin> piece_range ci" for x using that n by (auto simp: put_bytes_def piece_range_def)
  ultimately show ?case using m'(3) by auto
qed simp

text \<open>Host memory of different segments is disjoint.\<close>

definition host_range :: "mem_seg \<Rightarrow> nat set" where
  "host_range seg = {the (seg_object seg)..<the (seg_object seg) + unat (seg_len seg)}"

definition hosts_disjoint :: "vm \<Rightarrow> bool" where
  "hosts_disjoint v \<longleftrightarrow> (\<forall>s \<in> set (mem_segs v). \<forall>t \<in> set (mem_segs v). s \<noteq> t \<longrightarrow> host_range s \<inter> host_range t = {})"

lemma map_pieces_shape:
  "map_pieces v ps = Some cs \<Longrightarrow> map (\<lambda>ci. (ci_gpa ci, ci_len ci)) cs = ps \<and> (\<forall>ci \<in> set cs. vm_gpa2hva v (ci_gpa ci) (word_of_nat (ci_len ci)) = Some (ci_hva ci))"
  by (induction ps arbitrary: cs) (auto split: option.splits)

lemma piece_host:
  assumes "segs_ok v" "vm_gpa2hva v (ci_gpa ci) (word_of_nat (ci_len ci)) = Some (ci_hva ci)" "unat (ci_gpa ci) + ci_len ci < 2 ^ 64"
  obtains seg where "seg \<in> set (mem_segs v)" "piece_range ci \<subseteq> host_range seg" "ci_hva ci = the (seg_object seg) + (unat (ci_gpa ci) - unat (seg_gpa seg))"
    "unat (seg_gpa seg) \<le> unat (ci_gpa ci)"
proof -
  have u: "unat (word_of_nat (ci_len ci) :: u64) = ci_len ci" using assms(3) by (simp add: unat_of_nat)
  obtain seg base where s: "seg \<in> set (mem_segs v)" "seg_object seg = Some base" "ci_hva ci = base + (unat (ci_gpa ci) - unat (seg_gpa seg))"
    "unat (seg_gpa seg) \<le> unat (ci_gpa ci)" "unat (ci_gpa ci) + ci_len ci \<le> unat (seg_gpa seg) + unat (seg_len seg)"
    using gpa2hva_inside[OF assms(1,2)] assms(3) unfolding u by blast
  then have "piece_range ci \<subseteq> host_range seg" unfolding piece_range_def host_range_def by auto
  then show ?thesis using that[of seg] s by simp
qed

lemma crossing_disjoint:
  fixes a b i j :: nat
  assumes "i = 4096 - a mod 4096" "b mod 4096 = 0" "j \<le> a mod 4096"
  shows "b + j \<le> a \<or> a + i \<le> b"
proof -
  have a: "a = 4096 * (a div 4096) + a mod 4096" "b = 4096 * (b div 4096)" using assms(2) by auto
  have l: "a mod 4096 < 4096" by simp
  show ?thesis
  proof (cases "b div 4096 \<le> a div 4096")
    case True
    then show ?thesis using a assms(3) by linarith
  next
    case False
    then have "a div 4096 + 1 \<le> b div 4096" by simp
    then show ?thesis using a assms(1) l by linarith
  qed
qed

lemma pieces_disjoint:
  assumes "segs_ok v" "hosts_disjoint v" "\<forall>ci \<in> {ci, cj}. vm_gpa2hva v (ci_gpa ci) (word_of_nat (ci_len ci)) = Some (ci_hva ci) \<and> unat (ci_gpa ci) + ci_len ci < 2 ^ 64"
    "ci_len ci = 4096 - unat (ci_gpa ci) mod 4096" "unat (ci_gpa cj) mod 4096 = 0" "ci_len cj \<le> unat (ci_gpa ci) mod 4096"
  shows "piece_range ci \<inter> piece_range cj = {}"
proof -
  obtain s where s: "s \<in> set (mem_segs v)" "piece_range ci \<subseteq> host_range s" "ci_hva ci = the (seg_object s) + (unat (ci_gpa ci) - unat (seg_gpa s))"
    "unat (seg_gpa s) \<le> unat (ci_gpa ci)" using piece_host[OF assms(1)] assms(3) by blast
  obtain t where t: "t \<in> set (mem_segs v)" "piece_range cj \<subseteq> host_range t" "ci_hva cj = the (seg_object t) + (unat (ci_gpa cj) - unat (seg_gpa t))"
    "unat (seg_gpa t) \<le> unat (ci_gpa cj)" using piece_host[OF assms(1)] assms(3) by blast
  show ?thesis
  proof (cases "s = t")
    case True
    then have "ci_hva cj + ci_len cj \<le> ci_hva ci \<or> ci_hva ci + ci_len ci \<le> ci_hva cj"
      using crossing_disjoint[OF assms(4-6)] s(3,4) t(3,4) by auto
    then show ?thesis by (auto simp: piece_range_def)
  next
    case False
    then have "host_range s \<inter> host_range t = {}" using assms(2) s(1) t(1) by (simp add: hosts_disjoint_def)
    then show ?thesis using s(2) t(2) by blast
  qed
qed

lemma mapped_pieces:
  assumes "segs_ok v" "hosts_disjoint v" "pieces_ok len ps" "map_pieces v ps = Some cs"
  shows "sum_list (map ci_len cs) = len" "\<forall>ci \<in> set cs. 0 < ci_len ci" "sorted_wrt (\<lambda>ci cj. piece_range ci \<inter> piece_range cj = {}) cs"
proof -
  have m: "map (\<lambda>ci. (ci_gpa ci, ci_len ci)) cs = ps" "\<forall>ci \<in> set cs. vm_gpa2hva v (ci_gpa ci) (word_of_nat (ci_len ci)) = Some (ci_hva ci)"
    using map_pieces_shape[OF assms(4)] by auto
  have b: "\<forall>ci \<in> set cs. 0 < ci_len ci \<and> unat (ci_gpa ci) + ci_len ci < 2 ^ 64"
  proof
    fix ci assume "ci \<in> set cs"
    then have "(ci_gpa ci, ci_len ci) \<in> set ps" unfolding m(1)[symmetric] by simp
    then show "0 < ci_len ci \<and> unat (ci_gpa ci) + ci_len ci < 2 ^ 64" using assms(3) unfolding pieces_ok_def by blast
  qed
  show "\<forall>ci \<in> set cs. 0 < ci_len ci" using b by blast
  have "map ci_len cs = map snd ps" using m(1) by auto
  then show "sum_list (map ci_len cs) = len" using assms(3) by (simp add: pieces_ok_def)
  consider "length cs \<le> 1" | ci cj where "cs = [ci, cj]" "ci_len ci = 4096 - unat (ci_gpa ci) mod 4096" "unat (ci_gpa cj) mod 4096 = 0" "ci_len cj \<le> unat (ci_gpa ci) mod 4096"
  proof -
    have "ps = [] \<or> (\<exists>g. ps = [(g, len)]) \<or> (\<exists>g h n. ps = [(g, n), (h, len - n)] \<and> len - n \<le> unat g mod 4096 \<and> n = 4096 - unat g mod 4096 \<and> unat h mod 4096 = 0)"
      using assms(3) unfolding pieces_ok_def by (elim conjE)
    then show thesis
    proof (elim disjE exE conjE)
      fix g h n assume 2: "ps = [(g, n), (h, len - n)]" "len - n \<le> unat g mod 4096" "n = 4096 - unat g mod 4096" "unat h mod 4096 = 0"
      then obtain ci cj where cs: "cs = [ci, cj]" using m(1) by (auto simp: map_eq_Cons_conv)
      have f: "ci_gpa ci = g" "ci_len ci = n" "ci_gpa cj = h" "ci_len cj = len - n" using m(1) unfolding 2(1) cs by simp_all
      show thesis by (rule that(2)[OF cs]) (simp_all only: f 2(2,4), rule 2(3))
    qed (use that(1) m(1) in auto)
  qed
  then show "sorted_wrt (\<lambda>ci cj. piece_range ci \<inter> piece_range cj = {}) cs"
  proof cases
    case 1
    then show ?thesis by (cases cs) auto
  next
    case (2 ci cj)
    then show ?thesis using pieces_disjoint[OF assms(1,2), of ci cj] m(2) b by auto
  qed
qed

text \<open>
  C19 (roundtrip). Preparing a copy of at most a page never runs out of elements and ends. Once it succeeds, bytes copied out to the guest
  are the bytes copied in again, and no byte outside the pieces changes, also when the range crosses from one page to another and the
  guest maps both to the same memory.
\<close>

theorem copy_roundtrip:
  assumes "segs_ok v" "aligned v" "hosts_disjoint v" "can_fault c v" "len \<le> 4096" "unat gla + len < 2 ^ 64" "length src = len"
  shows "\<exists>e fault cs v'. vm_copy_setup c paging gla len prot 2 v = Some (e, fault, cs, v')
    \<and> (e = OK \<and> \<not> fault \<longrightarrow> (\<exists>w. vm_copyout src cs len v' = Some w \<and> vm_copyin w cs len = Some src
         \<and> (\<forall>x. (\<forall>ci \<in> set cs. x \<notin> piece_range ci) \<longrightarrow> vm_bytes w x = vm_bytes v' x)))"
proof -
  obtain e fault ps v' where p: "copy_pieces c paging prot gla len 2 [] v = Some (e, fault, ps, v')"
    "e = OK \<and> \<not> fault \<longrightarrow> pieces_ok len ps \<and> mem_segs v' = mem_segs v"
    using copy_pieces_exact[OF assms(1,2,4-6)] by blast
  show ?thesis
  proof (cases "e = OK \<and> \<not> fault")
    case True
    then have ok: "pieces_ok len ps" "segs_ok v'" "hosts_disjoint v'" using p(2) assms(1,3) by (auto simp: segs_ok_def hosts_disjoint_def)
    show ?thesis
    proof (cases "map_pieces v' ps")
      case (Some cs)
      then have "vm_copy_setup c paging gla len prot 2 v = Some (OK, False, cs, v')" using p(1) True by (simp add: vm_copy_setup_def)
      moreover obtain m' where "copyout_loop cs len src (vm_bytes v') = Some m'" "copyin_loop cs len m' = Some src"
        "\<forall>x. (\<forall>ci \<in> set cs. x \<notin> piece_range ci) \<longrightarrow> m' x = vm_bytes v' x"
        using copy_loops[OF mapped_pieces[OF ok(2,3,1) Some] assms(7)] by blast
      ultimately show ?thesis by (auto simp: vm_copyout_def vm_copyin_def)
    qed (use p(1) True in \<open>auto simp: vm_copy_setup_def\<close>)
  qed (use p(1) in \<open>auto simp: vm_copy_setup_def\<close>)
qed

theorem copy_roundtrip_witness:
  "\<exists>cs v' w. vm_copy_setup 0 \<lparr>pg_cr3 = 0, pg_cpl = 0, pg_cpu_mode = CPU_MODE_PROTECTED, pg_paging_mode = PAGING_MODE_FLAT\<rparr> 0xffe 4 XHYVE_PROT_WRITE 2 sample_tables =
     Some (OK, False, cs, v') \<and> length cs = 2 \<and> vm_copyout [1, 2, 3, 4] cs 4 v' = Some w \<and> vm_copyin w cs 4 = Some [1, 2, 3, 4]"
proof -
  let ?p = "\<lparr>pg_cr3 = 0, pg_cpl = 0, pg_cpu_mode = CPU_MODE_PROTECTED, pg_paging_mode = PAGING_MODE_FLAT\<rparr>"
  let ?cs = "[\<lparr>ci_gpa = 0xffe, ci_len = 2, ci_hva = 0xffe\<rparr>, \<lparr>ci_gpa = 0x1000, ci_len = 2, ci_hva = 0x1000\<rparr>]"
  have g: "vm_gla2gpa 0 ?p a XHYVE_PROT_WRITE v = Some (OK, False, Some a, v)" for a v
    by (subst vm_gla2gpa.simps) (simp add: walk_once_def vie_canonical_check_def)
  have "vm_copy_setup 0 ?p 0xffe 4 XHYVE_PROT_WRITE 2 sample_tables = Some (OK, False, ?cs, sample_tables)"
    by (simp add: vm_copy_setup_def g XHYVE_PAGE_SIZE_def sample_tables_def vm_gpa2hva_def vm_get_memobj_def)
  moreover have "hosts_disjoint sample_tables" "can_fault 0 sample_tables"
    by (simp_all add: hosts_disjoint_def can_fault_def sample_tables_def sample_vm_def sample_vcpu_def bad_vcpuid_def VM_MAXCPU_def)
  ultimately show ?thesis
    using copy_roundtrip[OF sample_tables_ok, of 0 4 "0xffe" "[1, 2, 3, 4]" ?p XHYVE_PROT_WRITE] by auto
qed

end
