(* ===== verification/Vie.thy ===== *)
theory Vie
  imports Paging
begin

text \<open>
  Fetching and decoding the instruction that caused an exit, from \<^verbatim>\<open>src/src/lib/vmm/vmm_instruction_emul.c\<close> (\<^verbatim>\<open>vie_init\<close>,
  \<^verbatim>\<open>vmm_fetch_instruction\<close>, \<^verbatim>\<open>vmm_decode_instruction\<close> and the steps it is made of). The bit fields of \<^verbatim>\<open>struct vie\<close> are
  truth values, bytes and small numbers; \<^verbatim>\<open>displacement\<close> and \<^verbatim>\<open>immediate\<close> are kept in two's complement. What a rejected instruction leaves
  in the structure is not kept: it is only dumped.
\<close>

section \<open>Opcodes\<close>

datatype vie_op_type =
  VIE_OP_TYPE_NONE | VIE_OP_TYPE_MOV | VIE_OP_TYPE_MOVSX | VIE_OP_TYPE_MOVZX | VIE_OP_TYPE_AND | VIE_OP_TYPE_OR | VIE_OP_TYPE_SUB
| VIE_OP_TYPE_TWO_BYTE | VIE_OP_TYPE_PUSH | VIE_OP_TYPE_CMP | VIE_OP_TYPE_POP | VIE_OP_TYPE_MOVS | VIE_OP_TYPE_GROUP1
| VIE_OP_TYPE_STOS | VIE_OP_TYPE_BITTEST

definition VIE_OP_F_IMM :: u16 where "VIE_OP_F_IMM = 1"
definition VIE_OP_F_IMM8 :: u16 where "VIE_OP_F_IMM8 = 2"
definition VIE_OP_F_MOFFSET :: u16 where "VIE_OP_F_MOFFSET = 4"
definition VIE_OP_F_NO_MODRM :: u16 where "VIE_OP_F_NO_MODRM = 8"
definition VIE_OP_F_NO_GLA_VERIFICATION :: u16 where "VIE_OP_F_NO_GLA_VERIFICATION = 16"

lemmas op_flag = VIE_OP_F_IMM_def VIE_OP_F_IMM8_def VIE_OP_F_MOFFSET_def VIE_OP_F_NO_MODRM_def VIE_OP_F_NO_GLA_VERIFICATION_def

record vie_op =
  op_byte :: u8
  op_type :: vie_op_type
  op_flags :: u16

definition op_entry :: "(u8 \<times> vie_op_type \<times> u16) list \<Rightarrow> u8 \<Rightarrow> vie_op" where
  "op_entry table x =
     (case map_of table x of
        None \<Rightarrow> \<lparr>op_byte = 0, op_type = VIE_OP_TYPE_NONE, op_flags = 0\<rparr>
      | Some (t, f) \<Rightarrow> \<lparr>op_byte = x, op_type = t, op_flags = f\<rparr>)"

definition two_byte_opcodes :: "(u8 \<times> vie_op_type \<times> u16) list" where
  "two_byte_opcodes =
     [(0xB6, VIE_OP_TYPE_MOVZX, 0), (0xB7, VIE_OP_TYPE_MOVZX, 0), (0xBA, VIE_OP_TYPE_BITTEST, VIE_OP_F_IMM8), (0xBE, VIE_OP_TYPE_MOVSX, 0)]"

definition one_byte_opcodes :: "(u8 \<times> vie_op_type \<times> u16) list" where
  "one_byte_opcodes =
     [(0x0F, VIE_OP_TYPE_TWO_BYTE, 0), (0x2B, VIE_OP_TYPE_SUB, 0), (0x3B, VIE_OP_TYPE_CMP, 0), (0x88, VIE_OP_TYPE_MOV, 0),
      (0x89, VIE_OP_TYPE_MOV, 0), (0x8A, VIE_OP_TYPE_MOV, 0), (0x8B, VIE_OP_TYPE_MOV, 0),
      (0xA1, VIE_OP_TYPE_MOV, VIE_OP_F_MOFFSET OR VIE_OP_F_NO_MODRM), (0xA3, VIE_OP_TYPE_MOV, VIE_OP_F_MOFFSET OR VIE_OP_F_NO_MODRM),
      (0xA4, VIE_OP_TYPE_MOVS, VIE_OP_F_NO_MODRM OR VIE_OP_F_NO_GLA_VERIFICATION),
      (0xA5, VIE_OP_TYPE_MOVS, VIE_OP_F_NO_MODRM OR VIE_OP_F_NO_GLA_VERIFICATION),
      (0xAA, VIE_OP_TYPE_STOS, VIE_OP_F_NO_MODRM OR VIE_OP_F_NO_GLA_VERIFICATION),
      (0xAB, VIE_OP_TYPE_STOS, VIE_OP_F_NO_MODRM OR VIE_OP_F_NO_GLA_VERIFICATION),
      (0xC6, VIE_OP_TYPE_MOV, VIE_OP_F_IMM8), (0xC7, VIE_OP_TYPE_MOV, VIE_OP_F_IMM), (0x23, VIE_OP_TYPE_AND, 0),
      (0x80, VIE_OP_TYPE_GROUP1, VIE_OP_F_IMM8), (0x81, VIE_OP_TYPE_GROUP1, VIE_OP_F_IMM), (0x83, VIE_OP_TYPE_GROUP1, VIE_OP_F_IMM8),
      (0x8F, VIE_OP_TYPE_POP, 0), (0xFF, VIE_OP_TYPE_PUSH, 0)]"

section \<open>The structure\<close>

definition VIE_INST_SIZE :: nat where "VIE_INST_SIZE = 15"
definition VIE_INVALID_GLA :: u64 where "VIE_INVALID_GLA = push_bit 63 1"
definition VIE_MOD_INDIRECT :: u8 where "VIE_MOD_INDIRECT = 0"
definition VIE_MOD_INDIRECT_DISP8 :: u8 where "VIE_MOD_INDIRECT_DISP8 = 1"
definition VIE_MOD_INDIRECT_DISP32 :: u8 where "VIE_MOD_INDIRECT_DISP32 = 2"
definition VIE_MOD_DIRECT :: u8 where "VIE_MOD_DIRECT = 3"
definition VIE_RM_SIB :: u8 where "VIE_RM_SIB = 4"
definition VIE_RM_DISP32 :: u8 where "VIE_RM_DISP32 = 5"

lemmas modrm = VIE_MOD_INDIRECT_def VIE_MOD_INDIRECT_DISP8_def VIE_MOD_INDIRECT_DISP32_def VIE_MOD_DIRECT_def VIE_RM_SIB_def VIE_RM_DISP32_def

definition gpr_map :: "vm_reg_name list" where
  "gpr_map =
     [VM_REG_GUEST_RAX, VM_REG_GUEST_RCX, VM_REG_GUEST_RDX, VM_REG_GUEST_RBX, VM_REG_GUEST_RSP, VM_REG_GUEST_RBP, VM_REG_GUEST_RSI,
      VM_REG_GUEST_RDI, VM_REG_GUEST_R8, VM_REG_GUEST_R9, VM_REG_GUEST_R10, VM_REG_GUEST_R11, VM_REG_GUEST_R12, VM_REG_GUEST_R13,
      VM_REG_GUEST_R14, VM_REG_GUEST_R15]"

definition size2mask :: "nat \<Rightarrow> u64" where
  "size2mask n = (if n = 1 then 0xff else if n = 2 then 0xffff else if n = 4 then 0xffffffff else if n = 8 then 0xffffffffffffffff else 0)"

record vie =
  inst :: "u8 list"
  num_valid :: nat
  num_processed :: nat
  addrsize :: nat
  opsize :: nat
  rex_w :: bool
  rex_r :: bool
  rex_x :: bool
  rex_b :: bool
  rex_present :: bool
  repz_present :: bool
  repnz_present :: bool
  opsize_override :: bool
  addrsize_override :: bool
  seg_override :: bool
  vie_mod :: u8
  vie_reg :: u8
  vie_rm :: u8
  vie_ss :: u8
  vie_index :: u8
  vie_base :: u8
  disp_bytes :: nat
  imm_bytes :: nat
  vie_scale :: u8
  base_register :: vm_reg_name
  index_register :: vm_reg_name
  segment_register :: vm_reg_name
  displacement :: u64
  immediate :: u64
  decoded :: bool
  vie_op :: vie_op

definition bzero_vie :: vie where
  "bzero_vie = \<lparr>inst = replicate VIE_INST_SIZE 0, num_valid = 0, num_processed = 0, addrsize = 0, opsize = 0, rex_w = False, rex_r = False,
     rex_x = False, rex_b = False, rex_present = False, repz_present = False, repnz_present = False, opsize_override = False,
     addrsize_override = False, seg_override = False, vie_mod = 0, vie_reg = 0, vie_rm = 0, vie_ss = 0, vie_index = 0, vie_base = 0,
     disp_bytes = 0, imm_bytes = 0, vie_scale = 0, base_register = VM_REG_GUEST_RAX, index_register = VM_REG_GUEST_RAX,
     segment_register = VM_REG_GUEST_RAX, displacement = 0, immediate = 0, decoded = False,
     vie_op = \<lparr>op_byte = 0, op_type = VIE_OP_TYPE_NONE, op_flags = 0\<rparr>\<rparr>"

text \<open>The length is that of the list; \<open>None\<close> is the failed assertion.\<close>

definition vie_init :: "u8 list \<Rightarrow> vie option" where
  "vie_init inst_bytes =
     (if length inst_bytes > VIE_INST_SIZE then None
      else
        let vie = bzero_vie\<lparr>base_register := VM_REG_LAST, index_register := VM_REG_LAST, segment_register := VM_REG_LAST\<rparr>
        in Some (if length inst_bytes \<noteq> 0
                 then vie\<lparr>inst := inst_bytes @ drop (length inst_bytes) (inst vie), num_valid := length inst_bytes\<rparr> else vie))"

text \<open>The result: the return value, \<^verbatim>\<open>*faultptr\<close>, the structure and the machine. \<open>None\<close>: an abort.\<close>

definition vmm_fetch_instruction :: "int \<Rightarrow> vm_guest_paging \<Rightarrow> u64 \<Rightarrow> nat \<Rightarrow> vie \<Rightarrow> vm \<Rightarrow> (errno \<times> bool \<times> vie \<times> vm) option" where
  "vmm_fetch_instruction c paging rip len vie v =
     (if len > VIE_INST_SIZE then None
      else case vm_copy_setup c paging rip len (XHYVE_PROT_READ OR XHYVE_PROT_EXECUTE) 2 v of
             None \<Rightarrow> None
           | Some (error, fault, copyinfo, v1) \<Rightarrow>
               if error \<noteq> OK \<or> fault then Some (error, fault, vie, v1)
               else case vm_copyin v1 copyinfo len of
                      None \<Rightarrow> None
                    | Some bs \<Rightarrow> Some (OK, False, vie\<lparr>inst := bs @ drop len (inst vie), num_valid := len\<rparr>, v1))"

section \<open>Decoding\<close>

text \<open>A step of the decoder aborts, returns \<open>-1\<close>, or goes on.\<close>

datatype 'a decoding = Fatal | Reject | Accept 'a

fun continue :: "'a decoding \<Rightarrow> ('a \<Rightarrow> 'b decoding) \<Rightarrow> 'b decoding" where
  "continue Fatal f = Fatal"
| "continue Reject f = Reject"
| "continue (Accept x) f = f x"

definition vie_peek :: "vie \<Rightarrow> u8 decoding" where
  "vie_peek vie = (if num_processed vie < num_valid vie then Accept (inst vie ! num_processed vie) else Reject)"

definition vie_advance :: "vie \<Rightarrow> vie" where
  "vie_advance vie = vie\<lparr>num_processed := num_processed vie + 1\<rparr>"

definition segment_override :: "u8 \<Rightarrow> vm_reg_name option" where
  "segment_override x =
     (if x = 0x2E then Some VM_REG_GUEST_CS else if x = 0x36 then Some VM_REG_GUEST_SS else if x = 0x3E then Some VM_REG_GUEST_DS
      else if x = 0x26 then Some VM_REG_GUEST_ES else if x = 0x64 then Some VM_REG_GUEST_FS else if x = 0x65 then Some VM_REG_GUEST_GS
      else None)"

definition legacy_prefix :: "u8 \<Rightarrow> vie \<Rightarrow> vie option" where
  "legacy_prefix x vie =
     (if x = 0x66 then Some (vie\<lparr>opsize_override := True\<rparr>)
      else if x = 0x67 then Some (vie\<lparr>addrsize_override := True\<rparr>)
      else if x = 0xF3 then Some (vie\<lparr>repz_present := True\<rparr>)
      else if x = 0xF2 then Some (vie\<lparr>repnz_present := True\<rparr>)
      else map_option (\<lambda>seg. vie\<lparr>segment_register := seg, seg_override := True\<rparr>) (segment_override x))"

lemma legacy_prefix_counts: "legacy_prefix x vie = Some vie' \<Longrightarrow> num_valid vie' = num_valid vie \<and> num_processed vie' = num_processed vie"
  by (auto simp: legacy_prefix_def split: if_splits)

text \<open>The loop over the prefixes, with the byte that ends it.\<close>

function prefix_loop :: "vie \<Rightarrow> (u8 \<times> vie) decoding" where
  "prefix_loop vie =
     (case vie_peek vie of
        Accept x \<Rightarrow> (case legacy_prefix x vie of Some vie1 \<Rightarrow> prefix_loop (vie_advance vie1) | None \<Rightarrow> Accept (x, vie))
      | _ \<Rightarrow> Reject)"
  by pat_completeness auto

termination prefix_loop
  by (relation "measure (\<lambda>vie. num_valid vie - num_processed vie)")
    (auto simp: vie_peek_def vie_advance_def dest!: legacy_prefix_counts split: if_splits)

declare prefix_loop.simps [simp del]

definition rex_prefix :: "vm_cpu_mode \<Rightarrow> u8 \<Rightarrow> vie \<Rightarrow> vie" where
  "rex_prefix cpu_mode x vie =
     (if cpu_mode = CPU_MODE_64BIT \<and> x \<ge> 0x40 \<and> x \<le> 0x4F
      then vie_advance (vie\<lparr>rex_present := True, rex_w := x AND 0x8 \<noteq> 0, rex_r := x AND 0x4 \<noteq> 0, rex_x := x AND 0x2 \<noteq> 0, rex_b := x AND 0x1 \<noteq> 0\<rparr>)
      else vie)"

definition set_sizes :: "vm_cpu_mode \<Rightarrow> bool \<Rightarrow> vie \<Rightarrow> vie" where
  "set_sizes cpu_mode cs_d vie =
     (if cpu_mode = CPU_MODE_64BIT
      then vie\<lparr>addrsize := if addrsize_override vie then 4 else 8, opsize := if rex_w vie then 8 else if opsize_override vie then 2 else 4\<rparr>
      else if cs_d then vie\<lparr>addrsize := if addrsize_override vie then 2 else 4, opsize := if opsize_override vie then 2 else 4\<rparr>
      else vie\<lparr>addrsize := if addrsize_override vie then 4 else 2, opsize := if opsize_override vie then 4 else 2\<rparr>)"

definition decode_prefixes :: "vm_cpu_mode \<Rightarrow> bool \<Rightarrow> vie \<Rightarrow> vie decoding" where
  "decode_prefixes cpu_mode cs_d vie = continue (prefix_loop vie) (\<lambda>(x, vie). Accept (set_sizes cpu_mode cs_d (rex_prefix cpu_mode x vie)))"

definition decode_two_byte_opcode :: "vie \<Rightarrow> vie decoding" where
  "decode_two_byte_opcode vie =
     continue (vie_peek vie) (\<lambda>x.
       let vie1 = vie\<lparr>vie_op := op_entry two_byte_opcodes x\<rparr>
       in if op_type (vie_op vie1) = VIE_OP_TYPE_NONE then Reject else Accept (vie_advance vie1))"

definition decode_opcode :: "vie \<Rightarrow> vie decoding" where
  "decode_opcode vie =
     continue (vie_peek vie) (\<lambda>x.
       let vie1 = vie\<lparr>vie_op := op_entry one_byte_opcodes x\<rparr>
       in if op_type (vie_op vie1) = VIE_OP_TYPE_NONE then Reject
          else
            let vie2 = vie_advance vie1
            in if op_type (vie_op vie2) = VIE_OP_TYPE_TWO_BYTE then decode_two_byte_opcode vie2 else Accept vie2)"

definition rex_bit :: "bool \<Rightarrow> u8" where "rex_bit b = (if b then 8 else 0)"

definition set_modrm :: "vm_cpu_mode \<Rightarrow> u8 \<Rightarrow> vie \<Rightarrow> vie" where
  "set_modrm cpu_mode x vie =
     (let m = drop_bit 6 x AND 0x3; rm0 = x AND 0x7; reg0 = drop_bit 3 x AND 0x7;
          rm = (if m = VIE_MOD_INDIRECT \<and> rm0 = VIE_RM_DISP32 \<or> m \<noteq> VIE_MOD_DIRECT \<and> rm0 = VIE_RM_SIB then rm0 else rm0 OR rex_bit (rex_b vie));
          vie1 = vie\<lparr>vie_mod := m, vie_rm := rm, vie_reg := reg0 OR rex_bit (rex_r vie)\<rparr>
      in if m \<noteq> VIE_MOD_DIRECT \<and> rm = VIE_RM_SIB then vie1
         else
           let vie2 = vie1\<lparr>base_register := gpr_map ! unat rm\<rparr>
           in if m = VIE_MOD_INDIRECT_DISP8 then vie2\<lparr>disp_bytes := 1\<rparr>
              else if m = VIE_MOD_INDIRECT_DISP32 then vie2\<lparr>disp_bytes := 4\<rparr>
              else if m = VIE_MOD_INDIRECT \<and> rm = VIE_RM_DISP32
              then vie2\<lparr>disp_bytes := 4, base_register := if cpu_mode = CPU_MODE_64BIT then VM_REG_GUEST_RIP else VM_REG_LAST\<rparr>
              else vie2)"

definition decode_modrm :: "vm_cpu_mode \<Rightarrow> vie \<Rightarrow> vie decoding" where
  "decode_modrm cpu_mode vie =
     (if op_flags (vie_op vie) AND VIE_OP_F_NO_MODRM \<noteq> 0 then Accept vie
      else if cpu_mode = CPU_MODE_REAL then Reject
      else continue (vie_peek vie) (\<lambda>x.
        if drop_bit 6 x AND 0x3 = VIE_MOD_DIRECT then Reject else Accept (vie_advance (set_modrm cpu_mode x vie))))"

definition set_sib :: "u8 \<Rightarrow> vie \<Rightarrow> vie" where
  "set_sib x vie =
     (let vie1 = vie\<lparr>vie_ss := drop_bit 6 x AND 0x3, vie_index := (drop_bit 3 x AND 0x7) OR rex_bit (rex_x vie),
                       vie_base := (x AND 0x7) OR rex_bit (rex_b vie)\<rparr>;
          vie2 = (if vie_mod vie1 = VIE_MOD_INDIRECT_DISP8 then vie1\<lparr>disp_bytes := 1\<rparr>
                  else if vie_mod vie1 = VIE_MOD_INDIRECT_DISP32 then vie1\<lparr>disp_bytes := 4\<rparr> else vie1);
          vie3 = (if vie_mod vie2 = VIE_MOD_INDIRECT \<and> (vie_base vie2 = 5 \<or> vie_base vie2 = 13) then vie2\<lparr>disp_bytes := 4\<rparr>
                  else vie2\<lparr>base_register := gpr_map ! unat (vie_base vie2)\<rparr>);
          vie4 = (if vie_index vie3 \<noteq> 4 then vie3\<lparr>index_register := gpr_map ! unat (vie_index vie3)\<rparr> else vie3)
      in if index_register vie4 \<noteq> VM_REG_LAST then vie4\<lparr>vie_scale := push_bit (unat (vie_ss vie4)) 1\<rparr> else vie4)"

definition decode_sib :: "vie \<Rightarrow> vie decoding" where
  "decode_sib vie =
     (if vie_mod vie = VIE_MOD_DIRECT \<or> vie_rm vie \<noteq> VIE_RM_SIB then Accept vie
      else continue (vie_peek vie) (\<lambda>x. Accept (vie_advance (set_sib x vie))))"

text \<open>The loops that read \<open>n\<close> bytes, and the little-endian value of bytes.\<close>

fun take_bytes :: "nat \<Rightarrow> vie \<Rightarrow> (u8 list \<times> vie) decoding" where
  "take_bytes 0 vie = Accept ([], vie)"
| "take_bytes (Suc n) vie = continue (vie_peek vie) (\<lambda>x. continue (take_bytes n (vie_advance vie)) (\<lambda>(bs, vie). Accept (x # bs, vie)))"

definition le_word :: "u8 list \<Rightarrow> 'w::len word" where
  "le_word bs = word_of_nat (horner_sum unat 256 bs)"

definition decode_displacement :: "vie \<Rightarrow> vie decoding" where
  "decode_displacement vie =
     (let n = disp_bytes vie
      in if n = 0 then Accept vie
         else if n \<noteq> 1 \<and> n \<noteq> 4 then Fatal
         else continue (take_bytes n vie) (\<lambda>(bs, vie).
           Accept (vie\<lparr>displacement := if n = 1 then scast (le_word bs :: u8) else scast (le_word bs :: u32)\<rparr>)))"

definition decode_immediate :: "vie \<Rightarrow> vie decoding" where
  "decode_immediate vie =
     (let vie1 = (if op_flags (vie_op vie) AND VIE_OP_F_IMM \<noteq> 0 then vie\<lparr>imm_bytes := if opsize vie = 4 \<or> opsize vie = 8 then 4 else 2\<rparr>
                  else if op_flags (vie_op vie) AND VIE_OP_F_IMM8 \<noteq> 0 then vie\<lparr>imm_bytes := 1\<rparr> else vie);
          n = imm_bytes vie1
      in if n = 0 then Accept vie1
         else if n \<noteq> 1 \<and> n \<noteq> 2 \<and> n \<noteq> 4 then Fatal
         else continue (take_bytes n vie1) (\<lambda>(bs, vie).
           Accept (vie\<lparr>immediate := if n = 1 then scast (le_word bs :: u8) else if n = 2 then scast (le_word bs :: u16) else scast (le_word bs :: u32)\<rparr>)))"

definition decode_moffset :: "vie \<Rightarrow> vie decoding" where
  "decode_moffset vie =
     (if op_flags (vie_op vie) AND VIE_OP_F_MOFFSET = 0 then Accept vie
      else
        let n = addrsize vie
        in if n \<noteq> 2 \<and> n \<noteq> 4 \<and> n \<noteq> 8 then Fatal
           else continue (take_bytes n vie) (\<lambda>(bs, vie). Accept (vie\<lparr>displacement := le_word bs\<rparr>)))"

definition verify_inst_length :: "vie \<Rightarrow> bool" where
  "verify_inst_length vie \<longleftrightarrow> num_processed vie \<noteq> 0"

definition verify_gla :: "vm \<Rightarrow> int \<Rightarrow> u64 \<Rightarrow> vie \<Rightarrow> bool" where
  "verify_gla v c gla vie =
     (if gla = VIE_INVALID_GLA then True
      else case (if base_register vie \<noteq> VM_REG_LAST
                 then map_option (\<lambda>base. if base_register vie = VM_REG_GUEST_RIP then base + word_of_nat (num_valid vie) else base)
                        (vm_get_register v c (base_register vie))
                 else Some 0) of
             None \<Rightarrow> False
           | Some base \<Rightarrow>
               (case (if index_register vie \<noteq> VM_REG_LAST then vm_get_register v c (index_register vie) else Some 0) of
                  None \<Rightarrow> False
                | Some idx \<Rightarrow> gla = (base + ucast (vie_scale vie) * idx + displacement vie) AND size2mask (addrsize vie)))"

definition vmm_decode_instruction :: "vm \<Rightarrow> int \<Rightarrow> u64 \<Rightarrow> vm_cpu_mode \<Rightarrow> bool \<Rightarrow> vie \<Rightarrow> vie decoding" where
  "vmm_decode_instruction v c gla cpu_mode cs_d vie =
     continue (decode_prefixes cpu_mode cs_d vie) (\<lambda>vie.
     continue (decode_opcode vie) (\<lambda>vie.
     continue (decode_modrm cpu_mode vie) (\<lambda>vie.
     continue (decode_sib vie) (\<lambda>vie.
     continue (decode_displacement vie) (\<lambda>vie.
     continue (decode_immediate vie) (\<lambda>vie.
     continue (decode_moffset vie) (\<lambda>vie.
       if \<not> verify_inst_length vie then Reject
       else if op_flags (vie_op vie) AND VIE_OP_F_NO_GLA_VERIFICATION = 0 \<and> \<not> verify_gla v c gla vie then Reject
       else Accept (vie\<lparr>decoded := True\<rparr>))))))))"

section \<open>What decoding establishes\<close>

text \<open>A step does not abort, and what it accepts satisfies a condition.\<close>

definition ensures :: "('a \<Rightarrow> bool) \<Rightarrow> 'a decoding \<Rightarrow> bool" where
  "ensures Q r = (case r of Fatal \<Rightarrow> False | Reject \<Rightarrow> True | Accept x \<Rightarrow> Q x)"

lemma ensures_simps [simp]: "ensures Q Reject" "ensures Q (Accept x) = Q x" "\<not> ensures Q Fatal"
  by (simp_all add: ensures_def)

lemma ensures_continue: "ensures P r \<Longrightarrow> (\<And>x. P x \<Longrightarrow> ensures Q (f x)) \<Longrightarrow> ensures Q (continue r f)"
  by (cases r) (auto simp: ensures_def)

lemma ensures_mono: "ensures P r \<Longrightarrow> (\<And>x. P x \<Longrightarrow> Q x) \<Longrightarrow> ensures Q r"
  by (cases r) (auto simp: ensures_def)

lemma nibble: "unat ((y AND 7) OR rex_bit b :: u8) < 16"
proof -
  have m: "(7 :: u8) = mask 3" by (simp add: mask_eq_exp_minus_1)
  have r: "bit (rex_bit b) k \<Longrightarrow> k = 3" for k
  proof -
    assume "bit (rex_bit b) k"
    moreover have "(8 :: u8) = 2 ^ 3" by simp
    ultimately show ?thesis unfolding rex_bit_def by (cases b) (auto simp only: if_True if_False bit_exp_iff bit_0_eq bot_fun_def bot_bool_def)
  qed
  have "take_bit 4 ((y AND 7) OR rex_bit b) = (y AND 7) OR rex_bit b"
    unfolding m by (intro bit_word_eqI) (auto simp: bit_take_bit_iff bit_or_iff bit_and_iff bit_mask_iff dest: r)
  then have "take_bit 4 (unat ((y AND 7) OR rex_bit b)) = unat ((y AND 7) OR rex_bit b)" by (metis unsigned_take_bit_eq)
  then show ?thesis using take_bit_nat_less_exp[of 4 "unat ((y AND 7) OR rex_bit b)"] by simp
qed

lemma low_nibble: "unat (y AND 7 :: u8) < 16"
  using nibble[of y False] by (simp add: rex_bit_def)

lemma gpr_mem: "n < 16 \<Longrightarrow> gpr_map ! n \<in> set gpr_map"
  by (rule nth_mem) (simp add: gpr_map_def)

text \<open>The bytes of the instruction stay as they are and are never read past the valid ones.\<close>

definition within :: "u8 list \<Rightarrow> nat \<Rightarrow> vie \<Rightarrow> bool" where
  "within bs n vie \<longleftrightarrow> inst vie = bs \<and> num_valid vie = n \<and> num_processed vie \<le> n"

definition operand_regs :: "vm_reg_name set" where
  "operand_regs = set gpr_map \<union> {VM_REG_GUEST_RIP, VM_REG_LAST}"

definition fresh :: "vie \<Rightarrow> bool" where
  "fresh vie \<longleftrightarrow> disp_bytes vie = 0 \<and> imm_bytes vie = 0 \<and> vie_reg vie = 0 \<and> base_register vie = VM_REG_LAST \<and> index_register vie = VM_REG_LAST"

definition sized :: "vie \<Rightarrow> bool" where
  "sized vie \<longleftrightarrow> opsize vie \<in> {2, 4, 8} \<and> addrsize vie \<in> {2, 4, 8}"

lemma peek_within: "within bs n vie \<Longrightarrow> ensures (\<lambda>x. within bs n (vie_advance vie)) (vie_peek vie)"
  by (simp add: vie_peek_def within_def vie_advance_def)

lemma legacy_keeps: "legacy_prefix x vie = Some vie' \<Longrightarrow> (within bs n vie' = within bs n vie) \<and> (fresh vie' = fresh vie)"
  by (auto simp: legacy_prefix_def within_def fresh_def split: if_splits)

lemma prefix_loop_keeps:
  "within bs n vie \<Longrightarrow> fresh vie \<Longrightarrow> ensures (\<lambda>(x, vie'). within bs n vie' \<and> fresh vie' \<and> num_processed vie' < n) (prefix_loop vie)"
proof (induction vie rule: prefix_loop.induct)
  case (1 vie)
  show ?case
  proof (cases "vie_peek vie")
    case (Accept x)
    then have p: "num_processed vie < n" using 1(2) by (auto simp: vie_peek_def within_def split: if_splits)
    show ?thesis
    proof (cases "legacy_prefix x vie")
      case None
      then show ?thesis using Accept 1(2,3) p by (subst prefix_loop.simps) simp
    next
      case (Some vie1)
      have "within bs n (vie_advance vie1) \<and> fresh (vie_advance vie1)"
        using legacy_keeps[OF Some, of bs n] legacy_prefix_counts[OF Some] 1(2,3) p by (auto simp: within_def vie_advance_def fresh_def)
      then show ?thesis using 1(1)[OF Accept Some] Accept Some by (subst prefix_loop.simps) simp
    qed
  qed (subst prefix_loop.simps, simp)+
qed

lemma decode_prefixes_keeps:
  assumes "within bs n vie" "fresh vie"
  shows "ensures (\<lambda>vie'. within bs n vie' \<and> fresh vie' \<and> sized vie') (decode_prefixes cpu_mode cs_d vie)"
  unfolding decode_prefixes_def
  by (rule ensures_continue[OF prefix_loop_keeps[OF assms]])
    (auto simp: rex_prefix_def set_sizes_def vie_advance_def within_def fresh_def sized_def)

lemma decode_opcode_keeps:
  assumes "within bs n vie" "fresh vie" "sized vie"
  shows "ensures (\<lambda>vie'. within bs n vie' \<and> fresh vie' \<and> sized vie' \<and> 0 < num_processed vie') (decode_opcode vie)"
proof -
  have "ensures (\<lambda>vie'. within bs n vie' \<and> fresh vie' \<and> sized vie' \<and> 0 < num_processed vie') (decode_two_byte_opcode w)"
    if "within bs n w" "fresh w" "sized w" for w unfolding decode_two_byte_opcode_def
    by (rule ensures_continue[OF peek_within[OF that(1)]]) (use that in \<open>auto simp: Let_def within_def vie_advance_def fresh_def sized_def\<close>)
  then show ?thesis unfolding decode_opcode_def
    by (intro ensures_continue[OF peek_within[OF assms(1)]])
      (use assms in \<open>auto simp: Let_def within_def vie_advance_def fresh_def sized_def\<close>)
qed

definition operand_ok :: "vie \<Rightarrow> bool" where
  "operand_ok vie \<longleftrightarrow> unat (vie_reg vie) < 16 \<and> disp_bytes vie \<in> {0, 1, 4} \<and> imm_bytes vie = 0
     \<and> base_register vie \<in> operand_regs \<and> index_register vie \<in> operand_regs"

definition midway :: "u8 list \<Rightarrow> nat \<Rightarrow> vie \<Rightarrow> bool" where
  "midway bs n vie \<longleftrightarrow> within bs n vie \<and> sized vie \<and> 0 < num_processed vie \<and> operand_ok vie"

lemma advance_keeps [simp]: "sized (vie_advance vie) = sized vie" "operand_ok (vie_advance vie) = operand_ok vie"
  by (simp_all add: vie_advance_def sized_def operand_ok_def)

lemma set_modrm_ok:
  assumes "fresh vie"
  shows "operand_ok (set_modrm cpu_mode x vie)"
  using assms gpr_mem[OF nibble[of x "rex_b vie"]] gpr_mem[OF low_nibble[of x]] nibble[of "drop_bit 3 x" "rex_r vie"]
  by (auto simp: set_modrm_def Let_def operand_ok_def fresh_def operand_regs_def)

lemma set_modrm_rest [simp]:
  "inst (set_modrm cpu_mode x vie) = inst vie" "num_valid (set_modrm cpu_mode x vie) = num_valid vie"
  "num_processed (set_modrm cpu_mode x vie) = num_processed vie" "sized (set_modrm cpu_mode x vie) = sized vie"
  by (simp_all add: set_modrm_def Let_def sized_def)

lemma set_sib_ok:
  assumes "operand_ok vie"
  shows "operand_ok (set_sib x vie)"
  using assms gpr_mem[OF nibble[of x "rex_b vie"]] gpr_mem[OF nibble[of "drop_bit 3 x" "rex_x vie"]]
  by (auto simp: set_sib_def Let_def operand_ok_def operand_regs_def)

lemma set_sib_rest [simp]:
  "inst (set_sib x vie) = inst vie" "num_valid (set_sib x vie) = num_valid vie"
  "num_processed (set_sib x vie) = num_processed vie" "sized (set_sib x vie) = sized vie"
  by (simp_all add: set_sib_def Let_def sized_def)

lemma decode_modrm_keeps:
  assumes "within bs n vie" "fresh vie" "sized vie" "0 < num_processed vie"
  shows "ensures (midway bs n) (decode_modrm cpu_mode vie)"
proof -
  have "ensures (midway bs n) (if drop_bit 6 x AND 0x3 = VIE_MOD_DIRECT then Reject else Accept (vie_advance (set_modrm cpu_mode x vie)))"
    if "within bs n (vie_advance vie)" for x
    using that assms set_modrm_ok[OF assms(2), of cpu_mode x] by (simp add: midway_def) (simp add: within_def vie_advance_def)
  then have "ensures (midway bs n) (continue (vie_peek vie) (\<lambda>x. if drop_bit 6 x AND 0x3 = VIE_MOD_DIRECT then Reject else Accept (vie_advance (set_modrm cpu_mode x vie))))"
    by (rule ensures_continue[OF peek_within[OF assms(1)]])
  moreover have "operand_ok vie" using assms(2) by (simp add: fresh_def operand_ok_def operand_regs_def)
  ultimately show ?thesis using assms by (simp add: decode_modrm_def midway_def)
qed

lemma decode_sib_keeps:
  assumes "midway bs n vie"
  shows "ensures (midway bs n) (decode_sib vie)"
proof -
  have w: "within bs n vie" using assms by (simp add: midway_def)
  have "ensures (midway bs n) (Accept (vie_advance (set_sib x vie)))" if "within bs n (vie_advance vie)" for x
    using that assms set_sib_ok[of vie x] by (simp add: midway_def) (simp add: within_def vie_advance_def)
  from ensures_continue[OF peek_within[OF w] this] show ?thesis using assms by (simp add: decode_sib_def)
qed

lemma take_bytes_keeps:
  "within bs n vie \<Longrightarrow> ensures (\<lambda>(xs, vie'). within bs n vie' \<and> length xs = k \<and> vie' = vie\<lparr>num_processed := num_processed vie + k\<rparr>) (take_bytes k vie)"
proof (induction k arbitrary: vie)
  case (Suc k)
  show ?case unfolding take_bytes.simps
    by (intro ensures_continue[OF peek_within[OF Suc.prems]] ensures_continue[OF Suc.IH]) (auto simp: vie_advance_def)
qed simp

lemma midway_processed: "midway bs n vie \<Longrightarrow> within bs n (vie\<lparr>num_processed := k\<rparr>) \<Longrightarrow> 0 < k \<Longrightarrow> midway bs n (vie\<lparr>num_processed := k\<rparr>)"
  by (simp add: midway_def sized_def operand_ok_def)

lemma decode_displacement_keeps:
  assumes "midway bs n vie"
  shows "ensures (midway bs n) (decode_displacement vie)"
proof -
  have w: "within bs n vie" "0 < num_processed vie" using assms by (simp_all add: midway_def)
  have "ensures (midway bs n) (continue (take_bytes (disp_bytes vie) vie) (\<lambda>(bs, vie). Accept (vie\<lparr>displacement := f bs\<rparr>)))" for f
    by (rule ensures_continue[OF take_bytes_keeps[OF w(1)]])
      (use midway_processed[OF assms] w(2) in \<open>auto simp: midway_def within_def sized_def operand_ok_def\<close>)
  then show ?thesis using assms by (auto simp: decode_displacement_def Let_def midway_def operand_ok_def)
qed

definition accepted :: "u8 list \<Rightarrow> nat \<Rightarrow> vie \<Rightarrow> bool" where
  "accepted bs n vie \<longleftrightarrow> within bs n vie \<and> sized vie \<and> 0 < num_processed vie \<and> unat (vie_reg vie) < 16
     \<and> base_register vie \<in> operand_regs \<and> index_register vie \<in> operand_regs"

lemma accepted_upd [simp]:
  "accepted bs n (vie\<lparr>immediate := x\<rparr>) = accepted bs n vie" "accepted bs n (vie\<lparr>displacement := x\<rparr>) = accepted bs n vie"
  "accepted bs n (vie\<lparr>imm_bytes := k\<rparr>) = accepted bs n vie"
  by (simp_all add: accepted_def within_def sized_def)

lemma read_keeps:
  assumes "accepted bs n vie" "\<And>xs w. accepted bs n w \<Longrightarrow> accepted bs n (g xs w)"
  shows "ensures (accepted bs n) (continue (take_bytes k vie) (\<lambda>(xs, w). Accept (g xs w)))"
proof (rule ensures_continue[OF take_bytes_keeps])
  show "within bs n vie" using assms(1) by (simp add: accepted_def)
  fix r :: "u8 list \<times> vie"
  assume "case r of (xs, vie') \<Rightarrow> within bs n vie' \<and> length xs = k \<and> vie' = vie\<lparr>num_processed := num_processed vie + k\<rparr>"
  then obtain xs where r: "r = (xs, vie\<lparr>num_processed := num_processed vie + k\<rparr>)" "within bs n (vie\<lparr>num_processed := num_processed vie + k\<rparr>)" by (cases r) blast
  have "accepted bs n (vie\<lparr>num_processed := num_processed vie + k\<rparr>)" using r(2) assms(1) by (simp add: accepted_def sized_def)
  then show "ensures (accepted bs n) (case r of (xs, w) \<Rightarrow> Accept (g xs w))" using assms(2) unfolding r(1) by simp
qed

lemma decode_immediate_keeps:
  assumes "midway bs n vie"
  shows "ensures (accepted bs n) (decode_immediate vie)"
proof -
  have 0: "accepted bs n vie" "imm_bytes vie = 0" using assms by (simp_all add: accepted_def midway_def operand_ok_def)
  have read: "ensures (accepted bs n) (continue (take_bytes k (vie\<lparr>imm_bytes := k\<rparr>)) (\<lambda>(bs, vie). Accept (vie\<lparr>immediate := f bs\<rparr>)))" for f k
    by (rule read_keeps) (simp_all add: 0)
  define vie1 where "vie1 = (if op_flags (vie_op vie) AND VIE_OP_F_IMM \<noteq> 0 then vie\<lparr>imm_bytes := if opsize vie = 4 \<or> opsize vie = 8 then 4 else 2\<rparr>
    else if op_flags (vie_op vie) AND VIE_OP_F_IMM8 \<noteq> 0 then vie\<lparr>imm_bytes := 1\<rparr> else vie)"
  have "vie1 = vie \<or> (\<exists>k \<in> {1, 2, 4}. vie1 = vie\<lparr>imm_bytes := k\<rparr>)" by (simp add: vie1_def)
  then consider "vie1 = vie" | k where "k \<in> {1, 2, 4}" "vie1 = vie\<lparr>imm_bytes := k\<rparr>" by blast
  then show ?thesis unfolding decode_immediate_def vie1_def[symmetric] Let_def
  proof cases
    case 1
    then show "ensures (accepted bs n) (if imm_bytes vie1 = 0 then Accept vie1 else if imm_bytes vie1 \<noteq> 1 \<and> imm_bytes vie1 \<noteq> 2 \<and> imm_bytes vie1 \<noteq> 4 then Fatal
      else continue (take_bytes (imm_bytes vie1) vie1) (\<lambda>(bs, vie). Accept (vie\<lparr>immediate := if imm_bytes vie1 = 1 then scast (le_word bs :: u8)
        else if imm_bytes vie1 = 2 then scast (le_word bs :: u16) else scast (le_word bs :: u32)\<rparr>)))" using 0 by simp
  next
    case (2 k)
    then have k: "imm_bytes vie1 = k" "\<not> (k \<noteq> 1 \<and> k \<noteq> 2 \<and> k \<noteq> 4)" "k \<noteq> 0" by auto
    show "ensures (accepted bs n) (if imm_bytes vie1 = 0 then Accept vie1 else if imm_bytes vie1 \<noteq> 1 \<and> imm_bytes vie1 \<noteq> 2 \<and> imm_bytes vie1 \<noteq> 4 then Fatal
      else continue (take_bytes (imm_bytes vie1) vie1) (\<lambda>(bs, vie). Accept (vie\<lparr>immediate := if imm_bytes vie1 = 1 then scast (le_word bs :: u8)
        else if imm_bytes vie1 = 2 then scast (le_word bs :: u16) else scast (le_word bs :: u32)\<rparr>)))"
      unfolding k(1) if_not_P[OF k(2)] if_not_P[OF k(3)] unfolding 2(2) by (rule read)
  qed
qed

lemma decode_moffset_keeps:
  assumes "accepted bs n vie"
  shows "ensures (accepted bs n) (decode_moffset vie)"
proof -
  have "ensures (accepted bs n) (continue (take_bytes k vie) (\<lambda>(bs, vie). Accept (vie\<lparr>displacement := f bs\<rparr>)))" for f k
    by (rule read_keeps[OF assms]) simp
  moreover have "addrsize vie \<in> {2, 4, 8}" using assms by (simp add: accepted_def sized_def)
  ultimately show ?thesis using assms unfolding decode_moffset_def Let_def by (simp, blast)
qed

text \<open>
  C8 (safety). Decoding any bytes never aborts and never reads past the valid bytes; an accepted instruction has a positive length
  within the bytes, operand and address sizes of 2, 4 or 8 bytes, and registers the operand encodings can name.
\<close>

theorem decode_safe:
  assumes "vie_init bs = Some vie"
  shows "vmm_decode_instruction v c gla cpu_mode cs_d vie \<noteq> Fatal
    \<and> (\<forall>vie'. vmm_decode_instruction v c gla cpu_mode cs_d vie = Accept vie' \<longrightarrow>
         decoded vie' \<and> take (length bs) (inst vie') = bs \<and> 0 < num_processed vie' \<and> num_processed vie' \<le> length bs \<and> length bs \<le> VIE_INST_SIZE
         \<and> opsize vie' \<in> {2, 4, 8} \<and> addrsize vie' \<in> {2, 4, 8} \<and> unat (vie_reg vie') < length gpr_map
         \<and> base_register vie' \<in> operand_regs \<and> index_register vie' \<in> operand_regs)"
proof -
  let ?n = "length bs"
  have i: "within (inst vie) ?n vie" "fresh vie" "take ?n (inst vie) = bs" "?n \<le> VIE_INST_SIZE"
    using assms by (auto simp: vie_init_def bzero_vie_def within_def fresh_def Let_def split: if_splits)
  have "ensures (\<lambda>vie'. accepted (inst vie) ?n vie' \<and> decoded vie') (vmm_decode_instruction v c gla cpu_mode cs_d vie)"
    unfolding vmm_decode_instruction_def
  proof (intro ensures_continue[OF decode_prefixes_keeps[OF i(1,2)]], elim conjE)
    fix vie1 assume 1: "within (inst vie) ?n vie1" "fresh vie1" "sized vie1"
    show "ensures (\<lambda>vie'. accepted (inst vie) ?n vie' \<and> decoded vie') (continue (decode_opcode vie1) (\<lambda>vie.
        continue (decode_modrm cpu_mode vie) (\<lambda>vie. continue (decode_sib vie) (\<lambda>vie. continue (decode_displacement vie) (\<lambda>vie.
        continue (decode_immediate vie) (\<lambda>vie. continue (decode_moffset vie) (\<lambda>vie. if \<not> verify_inst_length vie then Reject
          else if op_flags (vie_op vie) AND VIE_OP_F_NO_GLA_VERIFICATION = 0 \<and> \<not> verify_gla v c gla vie then Reject
          else Accept (vie\<lparr>decoded := True\<rparr>))))))))"
      by (rule ensures_continue[OF decode_opcode_keeps[OF 1]], elim conjE, rule ensures_continue[OF decode_modrm_keeps], assumption+,
        rule ensures_continue[OF decode_sib_keeps], assumption, rule ensures_continue[OF decode_displacement_keeps], assumption,
        rule ensures_continue[OF decode_immediate_keeps], assumption, rule ensures_continue[OF decode_moffset_keeps], assumption)
        (auto simp: accepted_def within_def sized_def)
  qed
  then show ?thesis using i by (auto simp: ensures_def accepted_def within_def sized_def gpr_map_def split: decoding.splits)
qed

theorem decode_safe_witness:
  "\<exists>vie vie'. vie_init [0x8B, 0x43, 0x10] = Some vie \<and> vmm_decode_instruction sample_vm 0 VIE_INVALID_GLA CPU_MODE_64BIT False vie = Accept vie'
     \<and> num_processed vie' = 3 \<and> num_processed vie' \<le> length [0x8B, 0x43, 0x10 :: u8]"
proof -
  let ?bs = "[0x8B, 0x43, 0x10] :: u8 list"
  obtain vie where i: "vie_init ?bs = Some vie" by (simp add: vie_init_def VIE_INST_SIZE_def Let_def)
  have "case vie_init ?bs of Some vie \<Rightarrow> (case vmm_decode_instruction sample_vm 0 VIE_INVALID_GLA CPU_MODE_64BIT False vie of Accept vie' \<Rightarrow> num_processed vie' = 3 | _ \<Rightarrow> False) | None \<Rightarrow> False"
    by code_simp
  then obtain vie' where "vmm_decode_instruction sample_vm 0 VIE_INVALID_GLA CPU_MODE_64BIT False vie = Accept vie'" "num_processed vie' = 3"
    using i by (auto split: decoding.splits)
  then show ?thesis using i decode_safe[OF i, of sample_vm 0 VIE_INVALID_GLA CPU_MODE_64BIT False] by blast
qed

lemma join_fields:
  assumes "m < 4" "r < 8" "b < 8"
  shows "drop_bit 6 (word_of_nat (64 * m + 8 * r + b) :: u8) AND 3 = word_of_nat m" "drop_bit 3 (word_of_nat (64 * m + 8 * r + b) :: u8) AND 7 = word_of_nat r"
    "(word_of_nat (64 * m + 8 * r + b) :: u8) AND 7 = word_of_nat b"
proof -
  have "list_all (\<lambda>m. list_all (\<lambda>r. list_all (\<lambda>b. drop_bit 6 (word_of_nat (64 * m + 8 * r + b) :: u8) AND 3 = word_of_nat m
      \<and> drop_bit 3 (word_of_nat (64 * m + 8 * r + b) :: u8) AND 7 = word_of_nat r
      \<and> (word_of_nat (64 * m + 8 * r + b) :: u8) AND 7 = word_of_nat b) [0..<8]) [0..<8]) [0..<4]" by code_simp
  then show "drop_bit 6 (word_of_nat (64 * m + 8 * r + b) :: u8) AND 3 = word_of_nat m" "drop_bit 3 (word_of_nat (64 * m + 8 * r + b) :: u8) AND 7 = word_of_nat r"
    "(word_of_nat (64 * m + 8 * r + b) :: u8) AND 7 = word_of_nat b" using assms by (auto simp: list_all_iff)
qed

lemma rex_join: "r < 16 \<Longrightarrow> word_of_nat (r mod 8) OR rex_bit (8 \<le> r) = (word_of_nat r :: u8)"
proof -
  assume "r < 16"
  moreover have "list_all (\<lambda>r. word_of_nat (r mod 8) OR rex_bit (8 \<le> r) = (word_of_nat r :: u8)) [0..<16]" by code_simp
  ultimately show ?thesis by (auto simp: list_all_iff)
qed

section \<open>Encodings\<close>

text \<open>
  The encoding of a memory operand by the manual: a base register with a displacement; a scaled index with or without a base, and a
  displacement; or a displacement that is relative to the next instruction in 64-bit mode.
\<close>

datatype disp = NoDisp | Disp8 u8 | Disp32 u32
datatype operand = Plain nat disp | Scaled "nat option" "(nat \<times> nat) option" disp | Relative u32

definition le_bytes :: "nat \<Rightarrow> 'w::len word \<Rightarrow> u8 list" where
  "le_bytes k w = map (\<lambda>i. ucast (drop_bit (8 * i) w)) [0..<k]"

fun disp_mod :: "disp \<Rightarrow> nat" where
  "disp_mod NoDisp = 0"
| "disp_mod (Disp8 d) = 1"
| "disp_mod (Disp32 d) = 2"

fun disp_code :: "disp \<Rightarrow> u8 list" where
  "disp_code NoDisp = []"
| "disp_code (Disp8 d) = [d]"
| "disp_code (Disp32 d) = le_bytes 4 d"

fun disp_value :: "disp \<Rightarrow> u64" where
  "disp_value NoDisp = 0"
| "disp_value (Disp8 d) = scast d"
| "disp_value (Disp32 d) = scast d"

definition index_fields :: "(nat \<times> nat) option \<Rightarrow> nat \<times> nat" where
  "index_fields x = (case x of None \<Rightarrow> (4, 0) | Some p \<Rightarrow> p)"

fun operand_valid :: "operand \<Rightarrow> bool" where
  "operand_valid (Plain b d) \<longleftrightarrow> b < 16 \<and> b mod 8 \<noteq> 4 \<and> (d = NoDisp \<longrightarrow> b mod 8 \<noteq> 5)"
| "operand_valid (Scaled b x d) \<longleftrightarrow> (case b of None \<Rightarrow> \<exists>k. d = Disp32 k | Some b \<Rightarrow> b < 16 \<and> (d = NoDisp \<longrightarrow> b mod 8 \<noteq> 5))
     \<and> (case x of None \<Rightarrow> True | Some (i, s) \<Rightarrow> i < 16 \<and> i \<noteq> 4 \<and> s < 4)"
| "operand_valid (Relative d) \<longleftrightarrow> True"

text \<open>The extension bits for index and base, the mode, the register field, and the bytes that follow.\<close>

fun operand_code :: "operand \<Rightarrow> bool \<times> bool \<times> nat \<times> nat \<times> u8 list" where
  "operand_code (Plain b d) = (False, 8 \<le> b, disp_mod d, b mod 8, disp_code d)"
| "operand_code (Scaled (Some b) x d) =
     (let (i, s) = index_fields x in (8 \<le> i, 8 \<le> b, disp_mod d, 4, word_of_nat (64 * s + 8 * (i mod 8) + b mod 8) # disp_code d))"
| "operand_code (Scaled None x d) =
     (let (i, s) = index_fields x in (8 \<le> i, False, 0, 4, word_of_nat (64 * s + 8 * (i mod 8) + 5) # disp_code d))"
| "operand_code (Relative d) = (False, False, 0, 5, le_bytes 4 d)"

text \<open>What an operand denotes: base, index, scale and displacement.\<close>

fun operand_meaning :: "vm_cpu_mode \<Rightarrow> operand \<Rightarrow> vm_reg_name \<times> vm_reg_name \<times> u8 \<times> u64" where
  "operand_meaning m (Plain b d) = (gpr_map ! b, VM_REG_LAST, 0, disp_value d)"
| "operand_meaning m (Scaled b x d) =
     ((case b of None \<Rightarrow> VM_REG_LAST | Some b \<Rightarrow> gpr_map ! b), (case x of None \<Rightarrow> VM_REG_LAST | Some (i, s) \<Rightarrow> gpr_map ! i),
      (case x of None \<Rightarrow> 0 | Some (i, s) \<Rightarrow> 2 ^ s), disp_value d)"
| "operand_meaning m (Relative d) = (if m = CPU_MODE_64BIT then VM_REG_GUEST_RIP else VM_REG_LAST, VM_REG_LAST, 0, scast d)"

lemma le_word_bytes: "LENGTH('w) = 8 * k \<Longrightarrow> le_word (le_bytes k w) = (w :: 'w::len word)"
proof (rule bit_word_eqI)
  fix n assume *: "LENGTH('w) = 8 * k" "n < LENGTH('w)"
  then have "n div 8 < k" by (simp add: div_less_iff_less_mult mult.commute)
  then show "bit (le_word (le_bytes k w) :: 'w word) n = bit w n"
    using * by (simp add: le_word_def bit_of_nat_iff bit_horner le_bytes_def bit_unsigned_iff bit_drop_bit_eq)
qed

lemma le_word_single: "le_word [d] = (d :: u8)"
  by (simp add: le_word_def)

text \<open>The bytes not read yet.\<close>

definition rest :: "vie \<Rightarrow> u8 list" where
  "rest vie = drop (num_processed vie) (take (num_valid vie) (inst vie))"

lemma rest_peek: "rest vie = x # xs \<Longrightarrow> vie_peek vie = Accept x \<and> rest (vie_advance vie) = xs"
proof -
  assume r: "rest vie = x # xs"
  then have l: "num_processed vie < length (take (num_valid vie) (inst vie))" unfolding rest_def by (metis drop_all linorder_not_le list.distinct(1))
  from Cons_nth_drop_Suc[OF l] r have "x = take (num_valid vie) (inst vie) ! num_processed vie" "xs = drop (Suc (num_processed vie)) (take (num_valid vie) (inst vie))"
    unfolding rest_def by auto
  then show ?thesis using l by (simp add: vie_peek_def rest_def vie_advance_def)
qed

lemma rest_take: "rest vie = bs @ xs \<Longrightarrow> take_bytes (length bs) vie = Accept (bs, vie\<lparr>num_processed := num_processed vie + length bs\<rparr>)
    \<and> rest (vie\<lparr>num_processed := num_processed vie + length bs\<rparr>) = xs"
proof (induction bs arbitrary: vie)
  case (Cons b bs)
  then have p: "vie_peek vie = Accept b" "rest (vie_advance vie) = bs @ xs" using rest_peek[of vie b "bs @ xs"] by simp_all
  show ?case using Cons.IH[OF p(2)] p(1) by (simp add: vie_advance_def)
qed simp

definition blank :: "vie \<Rightarrow> bool" where
  "blank vie \<longleftrightarrow> base_register vie = VM_REG_LAST \<and> index_register vie = VM_REG_LAST \<and> disp_bytes vie = 0 \<and> vie_scale vie = 0 \<and> displacement vie = 0
     \<and> imm_bytes vie = 0 \<and> immediate vie = 0"

definition header_part :: "vie \<Rightarrow> u8 list \<times> nat \<times> nat \<times> nat \<times> vie_op" where
  "header_part vie = (inst vie, num_valid vie, opsize vie, addrsize vie, vie_op vie)"

definition operand_part :: "vie \<Rightarrow> vm_reg_name \<times> vm_reg_name \<times> u8 \<times> u64" where
  "operand_part vie = (base_register vie, index_register vie, vie_scale vie, displacement vie)"

lemma disp_length: "length (disp_code d) = (case d of NoDisp \<Rightarrow> 0 | Disp8 k \<Rightarrow> 1 | Disp32 k \<Rightarrow> 4)"
  by (cases d) (simp_all add: le_bytes_def)

lemma decode_disp:
  assumes "rest vie = disp_code d @ xs" "disp_bytes vie = length (disp_code d)" "displacement vie = 0"
  shows "decode_displacement vie = Accept (vie\<lparr>num_processed := num_processed vie + length (disp_code d), displacement := disp_value d\<rparr>)"
proof (cases d)
  case NoDisp
  then show ?thesis using assms by (simp add: decode_displacement_def)
next
  case (Disp8 k)
  then show ?thesis using rest_take[OF assms(1)] assms(2) by (simp add: decode_displacement_def le_word_single)
next
  case (Disp32 k)
  have "length (disp_code d) = 4" using Disp32 by (simp add: le_bytes_def)
  then show ?thesis using rest_take[OF assms(1)] assms(2) Disp32 le_word_bytes[of 4 k] by (simp add: decode_displacement_def del: take_bytes.simps)
qed

lemma word8_eq: "b < 256 \<Longrightarrow> n < 256 \<Longrightarrow> (word_of_nat b = (word_of_nat n :: u8)) = (b = n)"
  by (simp add: word_of_nat_eq_iff take_bit_eq_mod)

lemma decode_modrm_join:
  assumes "rest vie = word_of_nat (64 * m + 8 * r + rm) # xs" "m < 3" "r < 8" "rm < 8" "op_flags (vie_op vie) AND VIE_OP_F_NO_MODRM = 0" "cpu_mode \<noteq> CPU_MODE_REAL"
  shows "decode_modrm cpu_mode vie = Accept (vie_advance (set_modrm cpu_mode (word_of_nat (64 * m + 8 * r + rm)) vie))"
proof -
  have "(word_of_nat m :: u8) \<noteq> 3" using word8_eq[of m 3] assms(2) by simp
  then show ?thesis using rest_peek[OF assms(1)] join_fields(1)[of m r rm] assms(2-6) by (simp add: decode_modrm_def modrm)
qed

definition operand_decoded :: "vm_cpu_mode \<Rightarrow> nat \<Rightarrow> operand \<Rightarrow> vie \<Rightarrow> u8 list \<Rightarrow> nat \<Rightarrow> vie \<Rightarrow> bool" where
  "operand_decoded cpu_mode r a vie xs len vie' \<longleftrightarrow> rest vie' = xs \<and> num_processed vie' = num_processed vie + len \<and> header_part vie' = header_part vie
     \<and> vie_reg vie' = word_of_nat r \<and> operand_part vie' = operand_meaning cpu_mode a \<and> imm_bytes vie' = 0 \<and> immediate vie' = 0"

definition decode_operand :: "vm_cpu_mode \<Rightarrow> vie \<Rightarrow> vie decoding" where
  "decode_operand cpu_mode vie = continue (decode_modrm cpu_mode vie) (\<lambda>vie. continue (decode_sib vie) decode_displacement)"

lemma unat8: "b < 256 \<Longrightarrow> unat (word_of_nat b :: u8) = b"
  by (simp add: unat_of_nat)

lemma rest_disp: "rest (vie\<lparr>num_processed := n, displacement := k\<rparr>) = rest (vie\<lparr>num_processed := n\<rparr>)"
  by (simp add: rest_def)

lemma finish_operand:
  assumes "rest vie1 = disp_code d @ xs" "disp_bytes vie1 = length (disp_code d)" "displacement vie1 = 0"
    "num_processed vie1 = num_processed vie + k" "header_part vie1 = header_part vie" "vie_reg vie1 = word_of_nat r"
    "(base_register vie1, index_register vie1, vie_scale vie1, disp_value d) = operand_meaning cpu_mode a" "imm_bytes vie1 = 0" "immediate vie1 = 0"
  shows "\<exists>vie'. decode_displacement vie1 = Accept vie' \<and> operand_decoded cpu_mode r a vie xs (k + length (disp_code d)) vie'"
  using decode_disp[OF assms(1-3)] rest_take[OF assms(1)] assms(4-9)
  by (auto simp: operand_decoded_def rest_disp header_part_def operand_part_def)

lemma decode_plain:
  assumes "operand_valid (Plain b d)" "r < 16" "blank vie" "rex_r vie = (8 \<le> r)" "rex_b vie = (8 \<le> b)" "cpu_mode \<noteq> CPU_MODE_REAL"
    "op_flags (vie_op vie) AND VIE_OP_F_NO_MODRM = 0" "rest vie = word_of_nat (64 * disp_mod d + 8 * (r mod 8) + b mod 8) # disp_code d @ xs"
  shows "\<exists>vie'. decode_operand cpu_mode vie = Accept vie' \<and> operand_decoded cpu_mode r (Plain b d) vie xs (1 + length (disp_code d)) vie'"
proof -
  let ?x = "word_of_nat (64 * disp_mod d + 8 * (r mod 8) + b mod 8) :: u8"
  have m: "disp_mod d < 3" by (cases d) simp_all
  have b: "b < 16" "b mod 8 \<noteq> 4" "b \<noteq> 4" "d = NoDisp \<Longrightarrow> b mod 8 \<noteq> 5" "d = NoDisp \<Longrightarrow> b \<noteq> 5" using assms(1) by auto
  have f: "drop_bit 6 ?x AND 3 = word_of_nat (disp_mod d)" "drop_bit 3 ?x AND 7 = word_of_nat (r mod 8)" "?x AND 7 = word_of_nat (b mod 8)"
    using join_fields[of "disp_mod d" "r mod 8" "b mod 8"] m by simp_all
  have e4: "(word_of_nat (b mod 8) = (4 :: u8)) = False" "(word_of_nat b = (4 :: u8)) = False"
    using word8_eq[of "b mod 8" 4] word8_eq[of b 4] b by simp_all
  have e5: "(d = NoDisp \<and> word_of_nat (b mod 8) = (5 :: u8)) = False" "(d = NoDisp \<and> word_of_nat b = (5 :: u8)) = False"
    using word8_eq[of "b mod 8" 5] word8_eq[of b 5] b by auto
  let ?v = "vie_advance (set_modrm cpu_mode ?x vie)"
  let ?w = "vie\<lparr>vie_mod := word_of_nat (disp_mod d), vie_rm := word_of_nat b, vie_reg := word_of_nat r, base_register := gpr_map ! b\<rparr>"
  have s: "set_modrm cpu_mode ?x vie = (if d = NoDisp then ?w else ?w\<lparr>disp_bytes := length (disp_code d)\<rparr>)"
    using assms(4,5) e4 e5 rex_join[OF assms(2)] rex_join[OF b(1)] unat8[of b] b(1)
    unfolding set_modrm_def Let_def f by (cases d) (simp_all add: modrm le_bytes_def)
  have sib: "decode_sib ?v = Accept ?v" unfolding s using e4(2) by (simp add: decode_sib_def vie_advance_def modrm)
  have r: "rest ?v = disp_code d @ xs" using rest_peek[OF assms(8)] unfolding s by (simp add: rest_def vie_advance_def)
  have "\<exists>vie'. decode_displacement ?v = Accept vie' \<and> operand_decoded cpu_mode r (Plain b d) vie xs (1 + length (disp_code d)) vie'"
    unfolding s by (rule finish_operand[OF r[unfolded s]]) (use assms(3) in \<open>simp_all add: vie_advance_def blank_def header_part_def\<close>)
  moreover have "decode_modrm cpu_mode vie = Accept ?v" by (rule decode_modrm_join[OF assms(8) m _ _ assms(7,6)]) simp_all
  ultimately show ?thesis unfolding decode_operand_def by (simp only: sib continue.simps)
qed

lemma decode_relative:
  assumes "r < 16" "blank vie" "rex_r vie = (8 \<le> r)" "cpu_mode \<noteq> CPU_MODE_REAL"
    "op_flags (vie_op vie) AND VIE_OP_F_NO_MODRM = 0" "rest vie = word_of_nat (8 * (r mod 8) + 5) # le_bytes 4 d @ xs"
  shows "\<exists>vie'. decode_operand cpu_mode vie = Accept vie' \<and> operand_decoded cpu_mode r (Relative d) vie xs 5 vie'"
proof -
  let ?x = "word_of_nat (8 * (r mod 8) + 5) :: u8"
  have f: "drop_bit 6 ?x AND 3 = 0" "drop_bit 3 ?x AND 7 = word_of_nat (r mod 8)" "?x AND 7 = 5"
    using join_fields[of 0 "r mod 8" 5] by simp_all
  let ?v = "vie_advance (set_modrm cpu_mode ?x vie)"
  have s: "set_modrm cpu_mode ?x vie = vie\<lparr>vie_mod := 0, vie_rm := 5, vie_reg := word_of_nat r,
      base_register := gpr_map ! 5, disp_bytes := 4, base_register := if cpu_mode = CPU_MODE_64BIT then VM_REG_GUEST_RIP else VM_REG_LAST\<rparr>"
    unfolding set_modrm_def Let_def f assms(3) rex_join[OF assms(1)] by (simp add: modrm)
  have sib: "decode_sib ?v = Accept ?v" unfolding s by (simp add: decode_sib_def vie_advance_def modrm)
  have r: "rest ?v = disp_code (Disp32 d) @ xs" using rest_peek[OF assms(6)] unfolding s by (simp add: rest_def vie_advance_def)
  have "\<exists>vie'. decode_displacement ?v = Accept vie' \<and> operand_decoded cpu_mode r (Relative d) vie xs (1 + length (disp_code (Disp32 d))) vie'"
    unfolding s by (rule finish_operand[OF r[unfolded s]]) (use assms(2) in \<open>simp_all add: vie_advance_def blank_def header_part_def le_bytes_def\<close>)
  moreover have "decode_modrm cpu_mode vie = Accept ?v" using decode_modrm_join[of vie 0 "r mod 8" 5, unfolded mult_0_right add_0] assms(4-6) by simp
  ultimately show ?thesis unfolding decode_operand_def by (simp only: sib continue.simps) (simp add: le_bytes_def)
qed

lemma gpr_not_last: "i < 16 \<Longrightarrow> gpr_map ! i \<noteq> VM_REG_LAST"
  using gpr_mem[of i] by (auto simp: gpr_map_def)

lemma set_sib_join:
  fixes vie
  assumes "i < 16" "b < 16" "s < 4" "m < 3" "vie_mod vie = word_of_nat m" "rex_x vie = (8 \<le> i)" "rex_b vie = (8 \<le> b)"
    "index_register vie = VM_REG_LAST" "vie_scale vie = 0"
  defines "w \<equiv> set_sib (word_of_nat (64 * s + 8 * (i mod 8) + b mod 8)) vie"
  shows "disp_bytes w = (if m = 1 then 1 else if m = 2 \<or> b = 5 \<or> b = 13 then 4 else disp_bytes vie)"
    "base_register w = (if m = 0 \<and> (b = 5 \<or> b = 13) then base_register vie else gpr_map ! b)"
    "index_register w = (if i \<noteq> 4 then gpr_map ! i else VM_REG_LAST)" "vie_scale w = (if i \<noteq> 4 then 2 ^ s else 0)"
    "displacement w = displacement vie" "vie_reg w = vie_reg vie" "imm_bytes w = imm_bytes vie" "immediate w = immediate vie" "header_part w = header_part vie"
proof -
  let ?x = "word_of_nat (64 * s + 8 * (i mod 8) + b mod 8) :: u8"
  have f: "drop_bit 6 ?x AND 3 = word_of_nat s" "drop_bit 3 ?x AND 7 = word_of_nat (i mod 8)" "?x AND 7 = word_of_nat (b mod 8)"
    using join_fields[of s "i mod 8" "b mod 8"] assms(3) by simp_all
  have e: "(word_of_nat i = (4 :: u8)) = (i = 4)" "(word_of_nat b = (5 :: u8)) = (b = 5)" "(word_of_nat b = (13 :: u8)) = (b = 13)"
    "(word_of_nat m = (0 :: u8)) = (m = 0)" "(word_of_nat m = (1 :: u8)) = (m = 1)" "(word_of_nat m = (2 :: u8)) = (m = 2)"
    using word8_eq[of i 4] word8_eq[of b 5] word8_eq[of b 13] word8_eq[of m 0] word8_eq[of m 1] word8_eq[of m 2] assms(1,2,4) by simp_all
  have u: "unat (word_of_nat b :: u8) = b" "unat (word_of_nat i :: u8) = i" "unat (word_of_nat s :: u8) = s" using unat8 assms(1-3) by simp_all
  have m: "m = 0 \<or> m = 1 \<or> m = 2" using assms(4) by auto
  note w = w_def[unfolded set_sib_def Let_def f assms(6,7) rex_join[OF assms(1)] rex_join[OF assms(2)]]
  note g = gpr_not_last[OF assms(1)]
  show "disp_bytes w = (if m = 1 then 1 else if m = 2 \<or> b = 5 \<or> b = 13 then 4 else disp_bytes vie)"
    "base_register w = (if m = 0 \<and> (b = 5 \<or> b = 13) then base_register vie else gpr_map ! b)"
    "index_register w = (if i \<noteq> 4 then gpr_map ! i else VM_REG_LAST)" "vie_scale w = (if i \<noteq> 4 then 2 ^ s else 0)"
    "displacement w = displacement vie" "vie_reg w = vie_reg vie" "imm_bytes w = imm_bytes vie" "immediate w = immediate vie" "header_part w = header_part vie"
    unfolding w using m assms(5,8,9) g by (elim disjE; simp add: modrm e u header_part_def)+
qed

lemma advance_sel [simp]:
  "disp_bytes (vie_advance vie) = disp_bytes vie" "displacement (vie_advance vie) = displacement vie" "num_processed (vie_advance vie) = num_processed vie + 1"
  "header_part (vie_advance vie) = header_part vie" "vie_reg (vie_advance vie) = vie_reg vie" "base_register (vie_advance vie) = base_register vie"
  "index_register (vie_advance vie) = index_register vie" "vie_scale (vie_advance vie) = vie_scale vie" "imm_bytes (vie_advance vie) = imm_bytes vie"
  "immediate (vie_advance vie) = immediate vie" "vie_mod (vie_advance vie) = vie_mod vie" "rex_x (vie_advance vie) = rex_x vie" "rex_b (vie_advance vie) = rex_b vie"
  by (simp_all add: vie_advance_def header_part_def)

lemma decode_sib_form:
  assumes "i < 16" "b < 16" "s < 4" "m < 3" "r < 16" "blank vie" "rex_r vie = (8 \<le> r)" "rex_x vie = (8 \<le> i)" "rex_b vie = (8 \<le> b)" "cpu_mode \<noteq> CPU_MODE_REAL"
    "op_flags (vie_op vie) AND VIE_OP_F_NO_MODRM = 0"
    "rest vie = word_of_nat (64 * m + 8 * (r mod 8) + 4) # word_of_nat (64 * s + 8 * (i mod 8) + b mod 8) # disp_code d @ xs"
    "length (disp_code d) = (if m = 1 then 1 else if m = 2 \<or> b = 5 \<or> b = 13 then 4 else 0)"
    "operand_meaning cpu_mode a = (if m = 0 \<and> (b = 5 \<or> b = 13) then VM_REG_LAST else gpr_map ! b, if i \<noteq> 4 then gpr_map ! i else VM_REG_LAST,
       if i \<noteq> 4 then 2 ^ s else 0, disp_value d)"
  shows "\<exists>vie'. decode_operand cpu_mode vie = Accept vie' \<and> operand_decoded cpu_mode r a vie xs (2 + length (disp_code d)) vie'"
proof -
  let ?x = "word_of_nat (64 * m + 8 * (r mod 8) + 4) :: u8" and ?y = "word_of_nat (64 * s + 8 * (i mod 8) + b mod 8) :: u8"
  have f: "drop_bit 6 ?x AND 3 = word_of_nat m" "drop_bit 3 ?x AND 7 = word_of_nat (r mod 8)" "?x AND 7 = 4"
    using join_fields[of m "r mod 8" 4] assms(4) by simp_all
  have m3: "(word_of_nat m = (3 :: u8)) = False" using word8_eq[of m 3] assms(4) by simp
  let ?v = "vie\<lparr>vie_mod := word_of_nat m, vie_rm := 4, vie_reg := word_of_nat r\<rparr>"
  have s: "set_modrm cpu_mode ?x vie = ?v"
    unfolding set_modrm_def Let_def f assms(7) rex_join[OF assms(5)] using m3 by (simp add: modrm)
  have "decode_modrm cpu_mode vie = Accept (vie_advance ?v)" unfolding s[symmetric] by (rule decode_modrm_join[OF assms(12,4) _ _ assms(11,10)]) simp_all
  moreover have r1: "rest (vie_advance ?v) = ?y # disp_code d @ xs" using rest_peek[OF assms(12)] by (simp add: rest_def vie_advance_def)
  let ?w = "vie_advance (set_sib ?y (vie_advance ?v))"
  have "decode_sib (vie_advance ?v) = Accept ?w"
    using rest_peek[OF r1] m3 unfolding decode_sib_def by (simp only: modrm vie_advance_def) simp
  moreover have "\<exists>vie'. decode_displacement ?w = Accept vie' \<and> operand_decoded cpu_mode r a vie xs (2 + length (disp_code d)) vie'"
  proof (rule finish_operand)
    have p: "vie_mod (vie_advance ?v) = word_of_nat m" "rex_x (vie_advance ?v) = (8 \<le> i)" "rex_b (vie_advance ?v) = (8 \<le> b)"
      "index_register (vie_advance ?v) = VM_REG_LAST" "vie_scale (vie_advance ?v) = 0" using assms(6,8,9) by (simp_all add: blank_def)
    note j = set_sib_join[OF assms(1-4) p]
    have h: "header_part ?v = header_part vie" by (simp add: header_part_def)
    show "rest ?w = disp_code d @ xs" using rest_peek[OF r1] by (simp add: rest_def vie_advance_def)
    show "disp_bytes ?w = length (disp_code d)" "displacement ?w = 0" "num_processed ?w = num_processed vie + 2" "header_part ?w = header_part vie" "vie_reg ?w = word_of_nat r"
      "(base_register ?w, index_register ?w, vie_scale ?w, disp_value d) = operand_meaning cpu_mode a" "imm_bytes ?w = 0" "immediate ?w = 0"
      unfolding advance_sel j set_sib_rest h assms(13,14) using assms(6) by (simp_all add: blank_def)
  qed
  ultimately show ?thesis unfolding decode_operand_def by (simp only: continue.simps)
qed

lemma operand_roundtrip:
  assumes "operand_valid a" "operand_code a = (x, b, m, rm, tail)" "r < 16" "blank vie" "rex_r vie = (8 \<le> r)" "rex_x vie = x" "rex_b vie = b" "cpu_mode \<noteq> CPU_MODE_REAL"
    "op_flags (vie_op vie) AND VIE_OP_F_NO_MODRM = 0" "rest vie = word_of_nat (64 * m + 8 * (r mod 8) + rm) # tail @ xs"
  shows "\<exists>vie'. decode_operand cpu_mode vie = Accept vie' \<and> operand_decoded cpu_mode r a vie xs (1 + length tail) vie'"
proof (cases a)
  case (Plain k d)
  then show ?thesis using decode_plain[of k d r vie cpu_mode xs] assms by auto
next
  case (Relative d)
  then show ?thesis using decode_relative[of r vie cpu_mode d xs] assms by (auto simp: le_bytes_def)
next
  case (Scaled base idx d)
  obtain i s where i: "index_fields idx = (i, s)" by (cases "index_fields idx") auto
  have il: "i < 16" "s < 4" using assms(1) i Scaled by (auto simp: index_fields_def split: option.splits)
  have im: "(case idx of None \<Rightarrow> VM_REG_LAST | Some (i, s) \<Rightarrow> gpr_map ! i) = (if i \<noteq> 4 then gpr_map ! i else VM_REG_LAST)"
    "(case idx of None \<Rightarrow> 0 | Some (i, s) \<Rightarrow> 2 ^ s) = (if i \<noteq> 4 then 2 ^ s else (0 :: u8))"
    using assms(1) i Scaled by (auto simp: index_fields_def split: option.splits)
  show ?thesis
  proof (cases base)
    case None
    then obtain k where d: "d = Disp32 k" using assms(1) Scaled by auto
    have c: "x = (8 \<le> i)" "b = (8 \<le> (5 :: nat))" "m = 0" "rm = 4" "tail = word_of_nat (64 * s + 8 * (i mod 8) + 5) # disp_code d"
      using assms(2) unfolding Scaled None by (auto simp: i)
    have "\<exists>vie'. decode_operand cpu_mode vie = Accept vie' \<and> operand_decoded cpu_mode r a vie xs (2 + length (disp_code d)) vie'"
      by (rule decode_sib_form[OF il(1) _ il(2) _ assms(3,4,5), of 5 0]) (use assms(6-10) c d im in \<open>simp_all add: Scaled None le_bytes_def\<close>)
    then show ?thesis unfolding c(5) by simp
  next
    case (Some k)
    have k: "k < 16" "d = NoDisp \<Longrightarrow> k \<noteq> 5 \<and> k \<noteq> 13" using assms(1) Scaled Some by auto
    have c: "x = (8 \<le> i)" "b = (8 \<le> k)" "m = disp_mod d" "rm = 4" "tail = word_of_nat (64 * s + 8 * (i mod 8) + k mod 8) # disp_code d"
      using assms(2) unfolding Scaled Some by (auto simp: i)
    have dm: "disp_mod d < 3" "length (disp_code d) = (if disp_mod d = 1 then 1 else if disp_mod d = 2 \<or> k = 5 \<or> k = 13 then 4 else 0)"
      "(disp_mod d = 0 \<and> (k = 5 \<or> k = 13)) = False" using k(2) by (cases d; simp add: le_bytes_def)+
    have "\<exists>vie'. decode_operand cpu_mode vie = Accept vie' \<and> operand_decoded cpu_mode r a vie xs (2 + length (disp_code d)) vie'"
      by (rule decode_sib_form[OF il(1) k(1) il(2) dm(1) assms(3,4,5) _ _ assms(8,9) _ dm(2)]) (use assms(6,7,10) c im dm(3) in \<open>simp_all only: Scaled Some operand_meaning.simps option.case if_False append_Cons\<close>)
    then show ?thesis unfolding c(5) by simp
  qed
qed

text \<open>Prefixes, the extension byte, and opcodes.\<close>

definition legacy_prefixes :: "u8 set" where
  "legacy_prefixes = {0x66, 0x67, 0xF3, 0xF2, 0x2E, 0x36, 0x3E, 0x26, 0x64, 0x65}"

definition rex_part :: "vie \<Rightarrow> bool \<times> bool \<times> bool \<times> bool" where
  "rex_part vie = (rex_w vie, rex_r vie, rex_x vie, rex_b vie)"

definition start_part :: "vie \<Rightarrow> u8 list \<times> nat \<times> bool" where
  "start_part vie = (inst vie, num_valid vie, blank vie)"

lemma legacy_step:
  assumes "x \<in> legacy_prefixes"
  shows "\<exists>vie'. legacy_prefix x vie = Some vie' \<and> rest vie' = rest vie \<and> num_processed vie' = num_processed vie \<and> start_part vie' = start_part vie
    \<and> rex_part vie' = rex_part vie \<and> opsize_override vie' = (opsize_override vie \<or> x = 0x66) \<and> addrsize_override vie' = (addrsize_override vie \<or> x = 0x67)"
  using assms unfolding legacy_prefixes_def
  by (elim insertE emptyE) (simp_all add: legacy_prefix_def segment_override_def rest_def start_part_def rex_part_def blank_def)

lemma rest_advance: "rest vie = x # xs \<Longrightarrow> rest (vie_advance vie) = xs"
  using rest_peek by blast

lemma prefixes_read:
  assumes "set ps \<subseteq> legacy_prefixes" "y \<notin> legacy_prefixes"
  shows "rest vie = ps @ y # xs \<Longrightarrow> \<exists>vie'. prefix_loop vie = Accept (y, vie') \<and> rest vie' = y # xs \<and> num_processed vie' = num_processed vie + length ps
    \<and> start_part vie' = start_part vie \<and> rex_part vie' = rex_part vie
    \<and> opsize_override vie' = (opsize_override vie \<or> 0x66 \<in> set ps) \<and> addrsize_override vie' = (addrsize_override vie \<or> 0x67 \<in> set ps)"
  using assms(1)
proof (induction ps arbitrary: vie)
  case Nil
  have "legacy_prefix y vie = None" using assms(2) by (simp add: legacy_prefixes_def legacy_prefix_def segment_override_def)
  then show ?case using rest_peek[of vie y xs] Nil by (subst prefix_loop.simps) simp
next
  case (Cons x ps)
  have x: "x \<in> legacy_prefixes" "set ps \<subseteq> legacy_prefixes" using Cons.prems(2) by auto
  obtain v1 where v1: "legacy_prefix x vie = Some v1" "rest v1 = x # ps @ y # xs" "num_processed v1 = num_processed vie" "start_part v1 = start_part vie"
    "rex_part v1 = rex_part vie" "opsize_override v1 = (opsize_override vie \<or> x = 0x66)" "addrsize_override v1 = (addrsize_override vie \<or> x = 0x67)"
    using legacy_step[OF x(1), of vie] Cons.prems(1) by auto
  have a: "start_part (vie_advance v1) = start_part v1" "rex_part (vie_advance v1) = rex_part v1" "opsize_override (vie_advance v1) = opsize_override v1"
    "addrsize_override (vie_advance v1) = addrsize_override v1" by (simp_all add: vie_advance_def start_part_def rex_part_def blank_def)
  have "prefix_loop vie = prefix_loop (vie_advance v1)" using rest_peek[of vie x "ps @ y # xs"] Cons.prems(1) v1(1) by (subst prefix_loop.simps) simp
  then show ?case using Cons.IH[OF rest_advance[OF v1(2)] x(2)] v1(3-7) a by auto
qed

definition rex_byte :: "bool \<Rightarrow> bool \<Rightarrow> bool \<Rightarrow> bool \<Rightarrow> u8" where
  "rex_byte w r x b = 0x40 + (if w then 8 else 0) + (if r then 4 else 0) + (if x then 2 else 0) + (if b then 1 else 0)"

lemma rex_read:
  assumes "rest vie = rex_byte w r x b # xs"
  shows "\<exists>vie'. rex_prefix CPU_MODE_64BIT (rex_byte w r x b) vie = vie' \<and> rest vie' = xs \<and> num_processed vie' = num_processed vie + 1 \<and> start_part vie' = start_part vie
    \<and> rex_part vie' = (w, r, x, b) \<and> opsize_override vie' = opsize_override vie \<and> addrsize_override vie' = addrsize_override vie"
proof -
  have f: "0x40 \<le> rex_byte w r x b \<and> rex_byte w r x b \<le> 0x4F" "(rex_byte w r x b AND 8 \<noteq> 0) = w" "(rex_byte w r x b AND 4 \<noteq> 0) = r"
    "(rex_byte w r x b AND 2 \<noteq> 0) = x" "(rex_byte w r x b AND 1 \<noteq> 0) = b"
    by (cases w; cases r; cases x; cases b; simp add: rex_byte_def)+
  show ?thesis using rest_advance[OF assms] f(1) unfolding rex_prefix_def f(2-5)
    by (simp add: vie_advance_def rest_def start_part_def rex_part_def blank_def)
qed

lemma rex_byte_not_legacy: "rex_byte w r x b \<notin> legacy_prefixes"
  by (cases w; cases r; cases x; cases b; simp add: rex_byte_def legacy_prefixes_def)

text \<open>The bytes of an opcode, and its description.\<close>

definition opcode_of :: "u8 list \<Rightarrow> vie_op \<Rightarrow> bool" where
  "opcode_of op e \<longleftrightarrow> (case op of
      [x] \<Rightarrow> e = op_entry one_byte_opcodes x \<and> op_type e \<notin> {VIE_OP_TYPE_NONE, VIE_OP_TYPE_TWO_BYTE}
    | [x, y] \<Rightarrow> x = 0x0F \<and> e = op_entry two_byte_opcodes y \<and> op_type e \<noteq> VIE_OP_TYPE_NONE
    | _ \<Rightarrow> False)"

lemma opcode_read:
  assumes "opcode_of op e" "rest vie = op @ xs"
  shows "\<exists>vie'. decode_opcode vie = Accept vie' \<and> rest vie' = xs \<and> num_processed vie' = num_processed vie + length op \<and> start_part vie' = start_part vie
    \<and> rex_part vie' = rex_part vie \<and> opsize vie' = opsize vie \<and> addrsize vie' = addrsize vie \<and> vie_op vie' = e"
proof -
  have k: "rest (w\<lparr>vie_op := d\<rparr>) = rest w" "start_part (w\<lparr>vie_op := d\<rparr>) = start_part w" "rex_part (w\<lparr>vie_op := d\<rparr>) = rex_part w" for w d
    by (simp_all add: rest_def start_part_def rex_part_def blank_def)
  have a: "start_part (vie_advance w) = start_part w" "rex_part (vie_advance w) = rex_part w" "opsize (vie_advance w) = opsize w" "addrsize (vie_advance w) = addrsize w"
    "vie_op (vie_advance w) = vie_op w" for w by (simp_all add: vie_advance_def start_part_def rex_part_def blank_def)
  consider x where "op = [x]" | y where "op = [0x0F, y]" using assms(1) by (auto simp: opcode_of_def split: list.splits)
  then show ?thesis
  proof cases
    case (1 x)
    then show ?thesis using assms rest_peek[of vie x xs] rest_advance[of "vie\<lparr>vie_op := e\<rparr>" x xs]
      by (auto simp: decode_opcode_def opcode_of_def k a Let_def)
  next
    case (2 y)
    let ?v = "vie_advance (vie\<lparr>vie_op := op_entry one_byte_opcodes 0x0F\<rparr>)"
    have t: "op_type (op_entry one_byte_opcodes 0x0F) = VIE_OP_TYPE_TWO_BYTE" by (simp add: op_entry_def one_byte_opcodes_def)
    have r: "rest ?v = y # xs" using rest_advance[of "vie\<lparr>vie_op := op_entry one_byte_opcodes 0x0F\<rparr>"] assms(2) 2 by (simp add: k)
    have "decode_two_byte_opcode ?v = Accept (vie_advance (?v\<lparr>vie_op := e\<rparr>))"
      using assms(1) 2 rest_peek[OF r] by (auto simp: decode_two_byte_opcode_def opcode_of_def)
    moreover have "decode_opcode vie = decode_two_byte_opcode ?v"
      using rest_peek[of vie "0x0F" "y # xs"] assms(2) 2 t by (simp add: decode_opcode_def a)
    moreover have "rest (vie_advance (?v\<lparr>vie_op := e\<rparr>)) = xs" using rest_advance[of "?v\<lparr>vie_op := e\<rparr>" y xs] r by (simp add: k)
    ultimately show ?thesis using 2 by (simp add: k a)
  qed
qed

lemma opcode_first:
  assumes "opcode_of op e"
  shows "\<exists>y ys. op = y # ys \<and> y \<notin> legacy_prefixes \<and> \<not> (0x40 \<le> y \<and> y \<le> 0x4F)"
proof -
  have "y \<notin> legacy_prefixes \<and> \<not> (0x40 \<le> y \<and> y \<le> 0x4F)" if "op_type (op_entry one_byte_opcodes y) \<noteq> VIE_OP_TYPE_NONE" for y
  proof -
    have "y \<in> fst ` set one_byte_opcodes" using that by (auto simp: op_entry_def dest!: map_of_SomeD split: option.splits intro: rev_image_eqI)
    then show ?thesis unfolding one_byte_opcodes_def legacy_prefixes_def by (elim imageE) (auto simp: word_less_eq_iff_unsigned)
  qed
  moreover have "(0x0F :: u8) \<notin> legacy_prefixes" by (simp add: legacy_prefixes_def)
  ultimately show ?thesis using assms by (auto simp: opcode_of_def split: list.splits)
qed

record instr =
  i_prefixes :: "u8 list"
  i_rex :: bool
  i_w :: bool
  i_op :: "u8 list"
  i_desc :: vie_op
  i_reg :: nat
  i_operand :: operand
  i_imm :: "u8 list"

definition encode :: "instr \<Rightarrow> u8 list" where
  "encode i = (case operand_code (i_operand i) of (x, b, m, rm, tail) \<Rightarrow>
     i_prefixes i @ (if i_rex i then [rex_byte (i_w i) (8 \<le> i_reg i) x b] else []) @ i_op i @ word_of_nat (64 * m + 8 * (i_reg i mod 8) + rm) # tail @ i_imm i)"

definition operand_size :: "vm_cpu_mode \<Rightarrow> bool \<Rightarrow> instr \<Rightarrow> nat" where
  "operand_size cpu_mode cs_d i =
     (let short = (0x66 \<in> set (i_prefixes i))
      in if cpu_mode = CPU_MODE_64BIT then (if i_w i then 8 else if short then 2 else 4) else if cs_d \<noteq> short then 4 else 2)"

definition address_size :: "vm_cpu_mode \<Rightarrow> bool \<Rightarrow> instr \<Rightarrow> nat" where
  "address_size cpu_mode cs_d i =
     (let other = (0x67 \<in> set (i_prefixes i))
      in if cpu_mode = CPU_MODE_64BIT then (if other then 4 else 8) else if cs_d \<noteq> other then 4 else 2)"

definition imm_length :: "vie_op \<Rightarrow> nat \<Rightarrow> nat" where
  "imm_length e k = (if op_flags e AND VIE_OP_F_IMM \<noteq> 0 then (if k = 4 \<or> k = 8 then 4 else 2) else if op_flags e AND VIE_OP_F_IMM8 \<noteq> 0 then 1 else 0)"

definition imm_value :: "u8 list \<Rightarrow> u64" where
  "imm_value bs = (if length bs = 0 then 0 else if length bs = 1 then scast (le_word bs :: u8) else if length bs = 2 then scast (le_word bs :: u16) else scast (le_word bs :: u32))"

text \<open>Instructions with a memory operand: those with the extension byte exist in 64-bit mode only, and only they name registers 8 to 15.\<close>

definition instr_valid :: "vm_cpu_mode \<Rightarrow> bool \<Rightarrow> instr \<Rightarrow> bool" where
  "instr_valid cpu_mode cs_d i \<longleftrightarrow> cpu_mode \<noteq> CPU_MODE_REAL \<and> set (i_prefixes i) \<subseteq> legacy_prefixes \<and> opcode_of (i_op i) (i_desc i)
     \<and> op_flags (i_desc i) AND VIE_OP_F_NO_MODRM = 0 \<and> op_flags (i_desc i) AND VIE_OP_F_MOFFSET = 0 \<and> op_flags (i_desc i) AND VIE_OP_F_NO_GLA_VERIFICATION = 0
     \<and> i_reg i < 16 \<and> operand_valid (i_operand i) \<and> length (i_imm i) = imm_length (i_desc i) (operand_size cpu_mode cs_d i)
     \<and> (case operand_code (i_operand i) of (x, b, _) \<Rightarrow> if i_rex i then cpu_mode = CPU_MODE_64BIT else \<not> i_w i \<and> i_reg i < 8 \<and> \<not> x \<and> \<not> b)"

lemma sizes_read:
  assumes "opsize_override vie = (0x66 \<in> set (i_prefixes i))" "addrsize_override vie = (0x67 \<in> set (i_prefixes i))" "rex_w vie = i_w i"
    "cpu_mode = CPU_MODE_64BIT \<or> \<not> i_w i"
  shows "opsize (set_sizes cpu_mode cs_d vie) = operand_size cpu_mode cs_d i" "addrsize (set_sizes cpu_mode cs_d vie) = address_size cpu_mode cs_d i"
    "rest (set_sizes cpu_mode cs_d vie) = rest vie" "start_part (set_sizes cpu_mode cs_d vie) = start_part vie" "rex_part (set_sizes cpu_mode cs_d vie) = rex_part vie"
    "num_processed (set_sizes cpu_mode cs_d vie) = num_processed vie"
  using assms by (auto simp: set_sizes_def operand_size_def address_size_def rest_def start_part_def rex_part_def blank_def Let_def)

definition begins :: "vie \<Rightarrow> bool" where
  "begins vie \<longleftrightarrow> num_processed vie = 0 \<and> blank vie \<and> rex_part vie = (False, False, False, False) \<and> \<not> opsize_override vie \<and> \<not> addrsize_override vie"

lemma header_read:
  assumes "instr_valid cpu_mode cs_d i" "operand_code (i_operand i) = (x, b, m, rm, tail)" "begins vie" "rest vie = encode i @ ys"
  shows "\<exists>vie'. decode_prefixes cpu_mode cs_d vie = Accept vie' \<and> start_part vie' = start_part vie
    \<and> rest vie' = i_op i @ word_of_nat (64 * m + 8 * (i_reg i mod 8) + rm) # tail @ i_imm i @ ys
    \<and> num_processed vie' = length (i_prefixes i) + (if i_rex i then 1 else 0) \<and> rex_part vie' = (i_w i, 8 \<le> i_reg i, x, b)
    \<and> opsize vie' = operand_size cpu_mode cs_d i \<and> addrsize vie' = address_size cpu_mode cs_d i"
proof -
  have v: "set (i_prefixes i) \<subseteq> legacy_prefixes" "opcode_of (i_op i) (i_desc i)"
    "if i_rex i then cpu_mode = CPU_MODE_64BIT else \<not> i_w i \<and> i_reg i < 8 \<and> \<not> x \<and> \<not> b" using assms(1,2) by (auto simp: instr_valid_def)
  obtain o1 os where o1: "i_op i = o1 # os" "o1 \<notin> legacy_prefixes" "\<not> (0x40 \<le> o1 \<and> o1 \<le> 0x4F)" using opcode_first[OF v(2)] by blast
  let ?rest = "i_op i @ word_of_nat (64 * m + 8 * (i_reg i mod 8) + rm) # tail @ i_imm i @ ys"
  let ?rex = "rex_byte (i_w i) (8 \<le> i_reg i) x b"
  let ?y = "if i_rex i then ?rex else o1" and ?xs = "if i_rex i then ?rest else tl ?rest"
  have y: "?y \<notin> legacy_prefixes" "rest vie = i_prefixes i @ ?y # ?xs" using o1 rex_byte_not_legacy assms(2,4) by (auto simp: encode_def)
  obtain w where w: "prefix_loop vie = Accept (?y, w)" "rest w = ?y # ?xs" "num_processed w = length (i_prefixes i)" "start_part w = start_part vie"
    "rex_part w = (False, False, False, False)" "opsize_override w = (0x66 \<in> set (i_prefixes i))" "addrsize_override w = (0x67 \<in> set (i_prefixes i))"
    using prefixes_read[OF v(1) y] assms(3) unfolding begins_def by auto
  have "\<exists>u. rex_prefix cpu_mode ?y w = u \<and> rest u = ?rest \<and> num_processed u = length (i_prefixes i) + (if i_rex i then 1 else 0) \<and> start_part u = start_part vie
      \<and> rex_part u = (i_w i, 8 \<le> i_reg i, x, b) \<and> opsize_override u = (0x66 \<in> set (i_prefixes i)) \<and> addrsize_override u = (0x67 \<in> set (i_prefixes i))"
  proof (cases "i_rex i")
    case True
    then show ?thesis using rex_read[of w "i_w i" "8 \<le> i_reg i" x b ?rest] w v(3) by auto
  next
    case False
    then have "rex_prefix cpu_mode ?y w = w" using o1(3) by (auto simp: rex_prefix_def)
    then show ?thesis using False w v(3) o1(1) by auto
  qed
  then obtain u where u: "rex_prefix cpu_mode ?y w = u" "rest u = ?rest" "num_processed u = length (i_prefixes i) + (if i_rex i then 1 else 0)" "start_part u = start_part vie"
    "rex_part u = (i_w i, 8 \<le> i_reg i, x, b)" "opsize_override u = (0x66 \<in> set (i_prefixes i))" "addrsize_override u = (0x67 \<in> set (i_prefixes i))" by blast
  have p: "rex_w u = i_w i" "cpu_mode = CPU_MODE_64BIT \<or> \<not> i_w i" using u(5) v(3) by (auto simp: rex_part_def split: if_splits)
  show ?thesis unfolding decode_prefixes_def w(1) using sizes_read[OF u(6,7) p] u by simp
qed

lemma imm_read:
  assumes "rest vie = bs @ ys" "length bs = imm_length (vie_op vie) (opsize vie)" "imm_bytes vie = 0" "immediate vie = 0"
  shows "\<exists>vie'. decode_immediate vie = Accept vie' \<and> rest vie' = ys \<and> num_processed vie' = num_processed vie + length bs \<and> header_part vie' = header_part vie
    \<and> vie_reg vie' = vie_reg vie \<and> operand_part vie' = operand_part vie \<and> immediate vie' = imm_value bs"
proof -
  define vie1 where "vie1 = (if op_flags (vie_op vie) AND VIE_OP_F_IMM \<noteq> 0 then vie\<lparr>imm_bytes := if opsize vie = 4 \<or> opsize vie = 8 then 4 else 2\<rparr>
    else if op_flags (vie_op vie) AND VIE_OP_F_IMM8 \<noteq> 0 then vie\<lparr>imm_bytes := 1\<rparr> else vie)"
  have v: "imm_bytes vie1 = length bs" "rest vie1 = bs @ ys" "num_processed vie1 = num_processed vie" "header_part vie1 = header_part vie" "vie_reg vie1 = vie_reg vie"
    "operand_part vie1 = operand_part vie" "immediate vie1 = 0"
    using assms by (simp_all add: vie1_def imm_length_def rest_def header_part_def operand_part_def)
  have n: "length bs = 0 \<or> length bs = 1 \<or> length bs = 2 \<or> length bs = 4" using assms(2) by (simp add: imm_length_def)
  let ?w = "vie1\<lparr>num_processed := num_processed vie1 + length bs\<rparr>"
  have t: "take_bytes (length bs) vie1 = Accept (bs, ?w)" "rest ?w = ys" using rest_take[OF v(2)] by simp_all
  have d: "decode_immediate vie = (if length bs = 0 then Accept vie1 else Accept (?w\<lparr>immediate := imm_value bs\<rparr>))"
    unfolding decode_immediate_def vie1_def[symmetric] Let_def v(1) t(1) using n by (auto simp: imm_value_def)
  show ?thesis
  proof (cases "length bs = 0")
    case True
    then show ?thesis using d v by (simp add: imm_value_def)
  next
    case False
    then show ?thesis using d v t(2) by (simp add: rest_def header_part_def operand_part_def)
  qed
qed

text \<open>The address the decoder compares with: \<open>n\<close> is what it takes for the length of the instruction.\<close>

definition effective :: "vm \<Rightarrow> int \<Rightarrow> nat \<Rightarrow> nat \<Rightarrow> vm_reg_name \<times> vm_reg_name \<times> u8 \<times> u64 \<Rightarrow> u64" where
  "effective v c n asize a = (case a of (base, index, scale, d) \<Rightarrow>
     ((if base = VM_REG_LAST then 0 else cpu_regs (vm_vcpu v (nat c)) base) + (if base = VM_REG_GUEST_RIP then word_of_nat n else 0)
       + ucast scale * (if index = VM_REG_LAST then 0 else cpu_regs (vm_vcpu v (nat c)) index) + d) AND size2mask asize)"

lemma verify_gla_effective:
  assumes "\<not> bad_vcpuid c"
  shows "verify_gla v c gla vie \<longleftrightarrow> gla = VIE_INVALID_GLA \<or> gla = effective v c (num_valid vie) (addrsize vie) (operand_part vie)"
  using assms by (auto simp: verify_gla_def effective_def operand_part_def vm_get_register_def)

lemma init_begins: "vie_init bs = Some vie \<Longrightarrow> begins vie \<and> rest vie = bs \<and> num_valid vie = length bs"
  by (auto simp: vie_init_def bzero_vie_def begins_def blank_def rex_part_def rest_def Let_def split: if_splits)

lemma decode_fields:
  assumes "instr_valid cpu_mode cs_d i" "begins vie" "rest vie = encode i @ ys"
  shows "\<exists>v2 v3 v4. continue (decode_prefixes cpu_mode cs_d vie) decode_opcode = Accept v2 \<and> decode_operand cpu_mode v2 = Accept v3 \<and> decode_immediate v3 = Accept v4
    \<and> num_processed v4 = length (encode i) \<and> header_part v4 = (inst vie, num_valid vie, operand_size cpu_mode cs_d i, address_size cpu_mode cs_d i, i_desc i)
    \<and> vie_reg v4 = word_of_nat (i_reg i) \<and> operand_part v4 = operand_meaning cpu_mode (i_operand i) \<and> immediate v4 = imm_value (i_imm i)"
proof -
  obtain x b m rm tail where c: "operand_code (i_operand i) = (x, b, m, rm, tail)" by (cases "operand_code (i_operand i)") auto
  have val: "cpu_mode \<noteq> CPU_MODE_REAL" "opcode_of (i_op i) (i_desc i)" "op_flags (i_desc i) AND VIE_OP_F_NO_MODRM = 0" "op_flags (i_desc i) AND VIE_OP_F_MOFFSET = 0"
    "op_flags (i_desc i) AND VIE_OP_F_NO_GLA_VERIFICATION = 0" "i_reg i < 16" "operand_valid (i_operand i)" "length (i_imm i) = imm_length (i_desc i) (operand_size cpu_mode cs_d i)"
    using assms(1) by (simp_all add: instr_valid_def)
  obtain v1 where v1: "decode_prefixes cpu_mode cs_d vie = Accept v1" "start_part v1 = start_part vie" "rest v1 = i_op i @ word_of_nat (64 * m + 8 * (i_reg i mod 8) + rm) # tail @ i_imm i @ ys"
    "num_processed v1 = length (i_prefixes i) + (if i_rex i then 1 else 0)" "rex_part v1 = (i_w i, 8 \<le> i_reg i, x, b)" "opsize v1 = operand_size cpu_mode cs_d i"
    "addrsize v1 = address_size cpu_mode cs_d i" using header_read[OF assms(1) c assms(2,3)] by blast
  obtain v2 where v2: "decode_opcode v1 = Accept v2" "rest v2 = word_of_nat (64 * m + 8 * (i_reg i mod 8) + rm) # tail @ i_imm i @ ys"
    "num_processed v2 = num_processed v1 + length (i_op i)" "start_part v2 = start_part v1" "rex_part v2 = rex_part v1" "opsize v2 = opsize v1" "addrsize v2 = addrsize v1" "vie_op v2 = i_desc i"
    using opcode_read[OF val(2) v1(3)] by blast
  have b2: "blank v2" "rex_r v2 = (8 \<le> i_reg i)" "rex_x v2 = x" "rex_b v2 = b" "op_flags (vie_op v2) AND VIE_OP_F_NO_MODRM = 0" "inst v2 = inst vie" "num_valid v2 = num_valid vie"
    using v1(2,5) v2(4,5,8) assms(2) val(3) by (auto simp: start_part_def rex_part_def begins_def)
  obtain v3 where v3: "decode_operand cpu_mode v2 = Accept v3" "operand_decoded cpu_mode (i_reg i) (i_operand i) v2 (i_imm i @ ys) (1 + length tail) v3"
    using operand_roundtrip[OF val(7) c val(6) b2(1-4) val(1) b2(5) v2(2)] by blast
  have h3: "header_part v3 = (inst vie, num_valid vie, operand_size cpu_mode cs_d i, address_size cpu_mode cs_d i, i_desc i)"
    using v3(2) v2(6-8) v1(6,7) b2(6,7) by (auto simp: operand_decoded_def header_part_def)
  obtain v4 where v4: "decode_immediate v3 = Accept v4" "num_processed v4 = num_processed v3 + length (i_imm i)" "header_part v4 = header_part v3" "vie_reg v4 = vie_reg v3"
    "operand_part v4 = operand_part v3" "immediate v4 = imm_value (i_imm i)"
    using imm_read[of v3 "i_imm i" ys] v3(2) val(8) h3 by (auto simp: operand_decoded_def header_part_def)
  have len: "num_processed v4 = length (encode i)" using v1(4) v2(3) v3(2) v4(2) c by (simp add: operand_decoded_def encode_def)
  then show ?thesis using v1(1) v2(1) v3 v4 h3 by (auto simp: operand_decoded_def)
qed

lemma continue_assoc: "continue (continue r f) g = continue r (\<lambda>x. continue (f x) g)"
  by (cases r) simp_all

lemma decode_encode:
  assumes "instr_valid cpu_mode cs_d i" "vie_init (encode i @ ys) = Some vie" "\<not> bad_vcpuid c"
  shows "\<exists>vie'. vmm_decode_instruction v c gla cpu_mode cs_d vie =
      (if gla = VIE_INVALID_GLA \<or> gla = effective v c (length (encode i @ ys)) (address_size cpu_mode cs_d i) (operand_meaning cpu_mode (i_operand i)) then Accept vie' else Reject)
    \<and> num_processed vie' = length (encode i) \<and> vie_op vie' = i_desc i \<and> opsize vie' = operand_size cpu_mode cs_d i \<and> addrsize vie' = address_size cpu_mode cs_d i
    \<and> vie_reg vie' = word_of_nat (i_reg i) \<and> operand_part vie' = operand_meaning cpu_mode (i_operand i) \<and> immediate vie' = imm_value (i_imm i)"
proof -
  have init: "begins vie" "rest vie = encode i @ ys" "num_valid vie = length (encode i @ ys)" using init_begins[OF assms(2)] by simp_all
  obtain v2 v3 v4 where v: "continue (decode_prefixes cpu_mode cs_d vie) decode_opcode = Accept v2" "decode_operand cpu_mode v2 = Accept v3" "decode_immediate v3 = Accept v4"
    "num_processed v4 = length (encode i)" "header_part v4 = (inst vie, num_valid vie, operand_size cpu_mode cs_d i, address_size cpu_mode cs_d i, i_desc i)"
    "vie_reg v4 = word_of_nat (i_reg i)" "operand_part v4 = operand_meaning cpu_mode (i_operand i)" "immediate v4 = imm_value (i_imm i)"
    using decode_fields[OF assms(1) init(1,2)] by blast
  have h: "vie_op v4 = i_desc i" "opsize v4 = operand_size cpu_mode cs_d i" "addrsize v4 = address_size cpu_mode cs_d i" "num_valid v4 = length (encode i @ ys)"
    using v(5) init(3) by (auto simp: header_part_def)
  have pos: "verify_inst_length v4" using v(4) by (simp add: verify_inst_length_def encode_def split: prod.splits)
  have "vmm_decode_instruction v c gla cpu_mode cs_d vie =
      continue (continue (continue (continue (decode_prefixes cpu_mode cs_d vie) decode_opcode) (decode_operand cpu_mode)) decode_immediate) (\<lambda>vie. continue (decode_moffset vie) (\<lambda>vie.
      if \<not> verify_inst_length vie then Reject else if op_flags (vie_op vie) AND VIE_OP_F_NO_GLA_VERIFICATION = 0 \<and> \<not> verify_gla v c gla vie then Reject
      else Accept (vie\<lparr>decoded := True\<rparr>)))" unfolding vmm_decode_instruction_def decode_operand_def continue_assoc ..
  also have "\<dots> = (if \<not> verify_gla v c gla v4 then Reject else Accept (v4\<lparr>decoded := True\<rparr>))"
    using v(1-3) pos h(1) assms(1) by (simp add: decode_moffset_def instr_valid_def)
  finally show ?thesis unfolding verify_gla_effective[OF assms(3)] h v(7) using v(4,6,7,8) h by (auto simp: operand_part_def)
qed


text \<open>\<^verbatim>\<open>mov %r9d, 0x10(%rbx,%r12,4)\<close>, and \<^verbatim>\<open>mov 0x100(%rip), %eax\<close>.\<close>

definition sample_store :: instr where
  "sample_store = \<lparr>i_prefixes = [], i_rex = True, i_w = False, i_op = [0x89], i_desc = op_entry one_byte_opcodes 0x89, i_reg = 9,
     i_operand = Scaled (Some 3) (Some (12, 2)) (Disp8 0x10), i_imm = []\<rparr>"

definition sample_load :: instr where
  "sample_load = \<lparr>i_prefixes = [], i_rex = False, i_w = False, i_op = [0x8B], i_desc = op_entry one_byte_opcodes 0x8B, i_reg = 0,
     i_operand = Relative 0x100, i_imm = []\<rparr>"

lemma samples_valid: "instr_valid CPU_MODE_64BIT False sample_store" "instr_valid CPU_MODE_64BIT False sample_load"
  by (simp_all add: instr_valid_def sample_store_def sample_load_def opcode_of_def op_entry_def one_byte_opcodes_def op_flag imm_length_def index_fields_def)

lemma samples_code: "encode sample_store = [0x46, 0x89, 0x4C, 0xA3, 0x10]" "encode sample_load = [0x8B, 0x05, 0x00, 0x01, 0x00, 0x00]"
  by (simp_all add: encode_def sample_store_def sample_load_def index_fields_def rex_byte_def le_bytes_def upt_rec)


lemma masked_differ:
  fixes a :: u64
  assumes "n < k" "k \<le> 15" "w = 4 \<or> w = 8"
  shows "(a + word_of_nat n) AND size2mask w \<noteq> (a + word_of_nat k) AND size2mask w"
proof
  assume e: "(a + word_of_nat n) AND size2mask w = (a + word_of_nat k) AND size2mask w"
  have m: "size2mask w AND mask 32 = mask 32" using assms(3) by (auto simp: size2mask_def mask_eq_exp_minus_1)
  have "take_bit 32 x = (x AND size2mask w) AND mask 32" for x :: u64 by (simp only: and.assoc m take_bit_eq_mask)
  then have t: "take_bit 32 (a + word_of_nat n) = take_bit 32 (a + word_of_nat k)" using e by simp
  have u: "unat (take_bit 32 (a + word_of_nat j)) = (unat a + j) mod 2 ^ 32" if "j \<le> 15" for j
    using that by (simp add: unsigned_take_bit_eq take_bit_eq_mod unat_word_ariths unat_of_nat mod_mod_cancel)
  have "(unat a + k) mod 2 ^ 32 = (unat a + n) mod 2 ^ 32" using u[of n] u[of k] t assms(1,2) by simp
  then have "2 ^ 32 dvd (unat a + k) - (unat a + n)" by (rule mod_eq_dvd_iff_nat[THEN iffD1, rotated]) (use assms(1) in simp)
  then show False using assms(1,2) by (auto dest: dvd_imp_le)
qed

text \<open>
  C22 (error). When more bytes than the instruction were fetched, as for every fault on memory, an operand relative to the next
  instruction is refused although the address that faulted is right: the decoder adds the number of bytes fetched to the instruction pointer,
  not the length of the instruction.
\<close>

theorem rip_relative_refused:
  assumes "instr_valid CPU_MODE_64BIT cs_d i" "i_operand i = Relative d" "vie_init (encode i @ ys) = Some vie" "\<not> bad_vcpuid c" "ys \<noteq> []"
    "gla = effective v c (length (encode i)) (address_size CPU_MODE_64BIT cs_d i) (operand_meaning CPU_MODE_64BIT (i_operand i))" "gla \<noteq> VIE_INVALID_GLA"
  shows "vmm_decode_instruction v c gla CPU_MODE_64BIT cs_d vie = Reject"
proof -
  let ?rip = "cpu_regs (vm_vcpu v (nat c)) VM_REG_GUEST_RIP"
  have e: "effective v c n w (operand_meaning CPU_MODE_64BIT (i_operand i)) = (?rip + scast d + word_of_nat n) AND size2mask w" for n w
    by (simp add: assms(2) effective_def ac_simps)
  have "length (encode i @ ys) \<le> 15" using assms(3) by (auto simp: vie_init_def VIE_INST_SIZE_def split: if_splits)
  moreover have "length (encode i) < length (encode i @ ys)" using assms(5) by simp
  moreover have "address_size CPU_MODE_64BIT cs_d i = 4 \<or> address_size CPU_MODE_64BIT cs_d i = 8" by (simp add: address_size_def)
  ultimately have "gla \<noteq> effective v c (length (encode i @ ys)) (address_size CPU_MODE_64BIT cs_d i) (operand_meaning CPU_MODE_64BIT (i_operand i))"
    unfolding assms(6) e using masked_differ by blast
  then show ?thesis using decode_encode[OF assms(1,3,4), of v gla] assms(7) by auto
qed

theorem rip_relative_refused_witness:
  "\<exists>vie. vie_init (encode sample_load @ replicate 9 0x90) = Some vie \<and> vmm_decode_instruction sample_vm 0 0x106 CPU_MODE_64BIT False vie = Reject"
proof -
  obtain vie where i: "vie_init (encode sample_load @ replicate 9 0x90) = Some vie" unfolding samples_code by (simp add: vie_init_def VIE_INST_SIZE_def Let_def)
  have c: "\<not> bad_vcpuid 0" by (simp add: bad_vcpuid_def VM_MAXCPU_def)
  have o: "i_operand sample_load = Relative 0x100" by (simp add: sample_load_def)
  have g: "0x106 = effective sample_vm 0 (length (encode sample_load)) (address_size CPU_MODE_64BIT False sample_load) (operand_meaning CPU_MODE_64BIT (i_operand sample_load))"
    unfolding samples_code o by (simp add: effective_def address_size_def sample_load_def size2mask_def sample_vm_def sample_vcpu_def)
  show ?thesis using i rip_relative_refused[OF samples_valid(2) o i c _ g] by (simp add: VIE_INVALID_GLA_def)
qed

end
