(* ===== verification/Vie_emul.thy ===== *)
theory Vie_emul
  imports Vie
begin

text \<open>
  Emulating a decoded instruction that accesses a memory-mapped device, from \<^verbatim>\<open>src/src/lib/vmm/vmm_instruction_emul.c\<close>
  (\<^verbatim>\<open>vmm_emulate_instruction\<close> and what it calls). The callbacks \<^verbatim>\<open>memread\<close> and \<^verbatim>\<open>memwrite\<close> are parameters over the state of the
  devices, as in the source; what they do to virtual CPUs is part of that state. An error of a callback is its value, an abort or a failed assertion is the value \<open>None\<close>.
\<close>

section \<open>Constants\<close>

definition PSL_C :: u64 where "PSL_C = 0x1"
definition PSL_PF :: u64 where "PSL_PF = 0x4"
definition PSL_AF :: u64 where "PSL_AF = 0x10"
definition PSL_Z :: u64 where "PSL_Z = 0x40"
definition PSL_N :: u64 where "PSL_N = 0x80"
definition PSL_D :: u64 where "PSL_D = 0x400"
definition PSL_V :: u64 where "PSL_V = 0x800"
definition PSL_AC :: u64 where "PSL_AC = 0x40000"
definition CR0_AM :: u64 where "CR0_AM = 0x40000"
definition RFLAGS_STATUS_BITS :: u64 where "RFLAGS_STATUS_BITS = PSL_C OR PSL_PF OR PSL_AF OR PSL_Z OR PSL_N OR PSL_V"

lemmas psl = PSL_C_def PSL_PF_def PSL_AF_def PSL_Z_def PSL_N_def PSL_D_def PSL_V_def PSL_AC_def CR0_AM_def

definition SEG_DESC_TYPE :: "u32 \<Rightarrow> u32" where "SEG_DESC_TYPE access = access AND 0x1f"
definition SEG_DESC_PRESENT :: "u32 \<Rightarrow> bool" where "SEG_DESC_PRESENT access \<longleftrightarrow> access AND 0x80 \<noteq> 0"
definition SEG_DESC_DEF32 :: "u32 \<Rightarrow> bool" where "SEG_DESC_DEF32 access \<longleftrightarrow> access AND 0x4000 \<noteq> 0"
definition SEG_DESC_UNUSABLE :: "u32 \<Rightarrow> bool" where "SEG_DESC_UNUSABLE access \<longleftrightarrow> access AND 0x10000 \<noteq> 0"

section \<open>Registers and flags\<close>

definition vie_read_register :: "vm \<Rightarrow> int \<Rightarrow> vm_reg_name \<Rightarrow> u64 option" where
  "vie_read_register v c r = vm_get_register v c r"

definition vie_calc_bytereg :: "vie \<Rightarrow> vm_reg_name \<times> bool" where
  "vie_calc_bytereg vie =
     (if \<not> rex_present vie \<and> vie_reg vie AND 0x4 \<noteq> 0 then (gpr_map ! unat (vie_reg vie AND 0x3), True)
      else (gpr_map ! unat (vie_reg vie), False))"

definition vie_read_bytereg :: "vm \<Rightarrow> int \<Rightarrow> vie \<Rightarrow> u8 option" where
  "vie_read_bytereg v c vie =
     (let (r, lhbr) = vie_calc_bytereg vie
      in map_option (\<lambda>val. if lhbr then ucast (drop_bit 8 val) else ucast val) (vm_get_register v c r))"

definition vie_write_bytereg :: "int \<Rightarrow> vie \<Rightarrow> u8 \<Rightarrow> vm \<Rightarrow> errno \<times> vm" where
  "vie_write_bytereg c vie byte v =
     (let (r, lhbr) = vie_calc_bytereg vie
      in case vm_get_register v c r of
           None \<Rightarrow> (EINVAL, v)
         | Some origval \<Rightarrow>
             let val = (if lhbr then push_bit 8 (ucast byte) else ucast byte); m = (if lhbr then push_bit 8 0xff else 0xff)
             in vm_set_register c r (val OR (origval AND NOT m)) v)"

definition vie_update_register :: "int \<Rightarrow> vm_reg_name \<Rightarrow> u64 \<Rightarrow> nat \<Rightarrow> vm \<Rightarrow> errno \<times> vm" where
  "vie_update_register c r val n v =
     (if n = 1 \<or> n = 2
      then case vie_read_register v c r of
             None \<Rightarrow> (EINVAL, v)
           | Some origval \<Rightarrow> vm_set_register c r ((val AND size2mask n) OR (origval AND NOT (size2mask n))) v
      else if n = 4 then vm_set_register c r (val AND 0xffffffff) v
      else if n = 8 then vm_set_register c r val v
      else (EINVAL, v))"

text \<open>The status flags of a subtraction at a width of \<open>8 n\<close> bits, as the instruction \<^verbatim>\<open>sub\<close> in the inline assembly sets them.\<close>

definition sub_flags :: "'w::len word \<Rightarrow> 'w word \<Rightarrow> u64" where
  "sub_flags x y =
     (let r = x - y; top = LENGTH('w) - 1
      in (if x < y then PSL_C else 0) OR (if even (length (filter (bit r) [0..<8])) then PSL_PF else 0)
         OR (if bit (x XOR y XOR r) 4 then PSL_AF else 0) OR (if r = 0 then PSL_Z else 0) OR (if bit r top then PSL_N else 0)
         OR (if bit ((x XOR y) AND (x XOR r)) top then PSL_V else 0))"

definition getcc :: "nat \<Rightarrow> u64 \<Rightarrow> u64 \<Rightarrow> u64 option" where
  "getcc n x y =
     (if n = 1 then Some (sub_flags (ucast x :: u8) (ucast y))
      else if n = 2 then Some (sub_flags (ucast x :: u16) (ucast y))
      else if n = 4 then Some (sub_flags (ucast x :: u32) (ucast y))
      else if n = 8 then Some (sub_flags x y)
      else None)"

section \<open>Addresses\<close>

text \<open>A size that is not 1, 2, 4 or 8 fails the assertion.\<close>

definition vie_size2mask :: "nat \<Rightarrow> u64 option" where
  "vie_size2mask n = (if n \<in> {1, 2, 4, 8} then Some (size2mask n) else None)"

definition vie_alignment_check :: "int \<Rightarrow> nat \<Rightarrow> u64 \<Rightarrow> u64 \<Rightarrow> u64 \<Rightarrow> bool option" where
  "vie_alignment_check cpl n cr0 rf gla =
     (if n \<notin> {1, 2, 4, 8} \<or> \<not> (0 \<le> cpl \<and> cpl \<le> 3) then None
      else if cpl \<noteq> 3 \<or> cr0 AND CR0_AM = 0 \<or> rf AND PSL_AC = 0 then Some False
      else Some (gla AND word_of_nat (n - 1) \<noteq> 0))"

fun limit_check :: "u64 \<Rightarrow> u64 \<Rightarrow> u64 \<Rightarrow> u64 \<Rightarrow> nat \<Rightarrow> bool" where
  "limit_check m low high off 0 = True"
| "limit_check m low high off (Suc n) =
     (let o1 = off AND m in if o1 < low \<or> o1 > high then False else limit_check m low high (o1 + 1) n)"

text \<open>\<open>None\<close>: a failed assertion. \<open>Some None\<close>: the result \<open>-1\<close>. The sum of the limit and one is a 32-bit sum.\<close>

definition vie_calculate_gla :: "vm_cpu_mode \<Rightarrow> vm_reg_name \<Rightarrow> seg_desc \<Rightarrow> u64 \<Rightarrow> nat \<Rightarrow> nat \<Rightarrow> u32 \<Rightarrow> u64 option option" where
  "vie_calculate_gla cpu_mode seg desc off n asize prot =
     (if seg \<notin> {VM_REG_GUEST_ES, VM_REG_GUEST_CS, VM_REG_GUEST_SS, VM_REG_GUEST_DS, VM_REG_GUEST_FS, VM_REG_GUEST_GS} then None
      else if n \<notin> {1, 2, 4, 8} \<or> prot AND NOT (XHYVE_PROT_READ OR XHYVE_PROT_WRITE) \<noteq> 0 then None
      else
        let long = (cpu_mode = CPU_MODE_64BIT);
            segbase = (if long \<and> seg \<noteq> VM_REG_GUEST_FS \<and> seg \<noteq> VM_REG_GUEST_GS then 0 else sd_base desc);
            gla = (segbase + (off AND size2mask asize)) AND size2mask (if long then 8 else 4);
            ty = SEG_DESC_TYPE (sd_access desc);
            down = (ty AND 0xC = 0x4);
            low = (if down then ucast (sd_limit desc + 1) else 0);
            high = (if down then (if SEG_DESC_DEF32 (sd_access desc) then 0xffffffff else 0xffff) else ucast (sd_limit desc))
        in if long then (if asize = 4 \<or> asize = 8 then Some (Some gla) else None)
           else if asize \<noteq> 2 \<and> asize \<noteq> 4 then None
           else if SEG_DESC_UNUSABLE (sd_access desc) then Some None
           else if \<not> SEG_DESC_PRESENT (sd_access desc) \<or> \<not> (16 \<le> ty \<and> ty \<le> 31) then None
           else if prot AND XHYVE_PROT_READ \<noteq> 0 \<and> ty AND 0xA = 0x8 then Some None
           else if prot AND XHYVE_PROT_WRITE \<noteq> 0 \<and> (ty AND 0x8 \<noteq> 0 \<or> ty AND 0xA = 0) then Some None
           else if \<not> limit_check (size2mask asize) low high off n then Some None
           else Some (Some gla))"

text \<open>A linear address, or \<open>Inl\<close> the machine after a fault was injected.\<close>

definition inject_seg_fault :: "int \<Rightarrow> vm_reg_name \<Rightarrow> vm \<Rightarrow> vm option" where
  "inject_seg_fault c seg v = (if seg = VM_REG_GUEST_SS then vm_inject_ss c 0 v else vm_inject_gp c v)"

definition get_gla :: "int \<Rightarrow> vm_guest_paging \<Rightarrow> nat \<Rightarrow> nat \<Rightarrow> u32 \<Rightarrow> vm_reg_name \<Rightarrow> vm_reg_name \<Rightarrow> vm \<Rightarrow> (vm + u64) option" where
  "get_gla c paging osize asize prot seg gpr v =
     (case (vie_read_register v c VM_REG_GUEST_CR0, vie_read_register v c VM_REG_GUEST_RFLAGS, vm_get_seg_desc v c seg, vie_read_register v c gpr) of
        (Some cr0, Some rflags, Some desc, Some val) \<Rightarrow>
          (case vie_calculate_gla (pg_cpu_mode paging) seg desc val osize asize prot of
             None \<Rightarrow> None
           | Some None \<Rightarrow> map_option Inl (inject_seg_fault c seg v)
           | Some (Some gla) \<Rightarrow>
               if vie_canonical_check (pg_cpu_mode paging) gla then map_option Inl (inject_seg_fault c seg v)
               else case vie_alignment_check (pg_cpl paging) osize cr0 rflags gla of
                      None \<Rightarrow> None
                    | Some True \<Rightarrow> map_option Inl (vm_inject_ac c 0 v)
                    | Some False \<Rightarrow> Some (Inr gla))
      | _ \<Rightarrow> None)"

section \<open>Moves and arithmetic\<close>

type_synonym 'd memread = "u64 \<Rightarrow> nat \<Rightarrow> 'd \<Rightarrow> errno \<times> u64 \<times> 'd"
type_synonym 'd memwrite = "u64 \<Rightarrow> u64 \<Rightarrow> nat \<Rightarrow> 'd \<Rightarrow> errno \<times> 'd"
type_synonym 'd emulation = "(errno \<times> vm \<times> 'd) option"

definition emulate_mov :: "int \<Rightarrow> u64 \<Rightarrow> vie \<Rightarrow> 'd memread \<Rightarrow> 'd memwrite \<Rightarrow> vm \<Rightarrow> 'd \<Rightarrow> errno \<times> vm \<times> 'd" where
  "emulate_mov c gpa vie memread memwrite v d =
     (let n = opsize vie; b = op_byte (vie_op vie);
          from_reg = (\<lambda>r. case vie_read_register v c r of
                            None \<Rightarrow> (EINVAL, v, d)
                          | Some val \<Rightarrow> let (e, d1) = memwrite gpa (val AND size2mask n) n d in (e, v, d1));
          to_reg = (\<lambda>r. let (e, val, d1) = memread gpa n d
                        in if e \<noteq> OK then (e, v, d1) else let (e, v1) = vie_update_register c r val n v in (e, v1, d1))
      in if b = 0x88
         then case vie_read_bytereg v c vie of
                None \<Rightarrow> (EINVAL, v, d)
              | Some byte \<Rightarrow> let (e, d1) = memwrite gpa (ucast byte) 1 d in (e, v, d1)
         else if b = 0x89 then from_reg (gpr_map ! unat (vie_reg vie))
         else if b = 0x8A
         then let (e, val, d1) = memread gpa 1 d
              in if e \<noteq> OK then (e, v, d1) else let (e, v1) = vie_write_bytereg c vie (ucast val) v in (e, v1, d1)
         else if b = 0x8B then to_reg (gpr_map ! unat (vie_reg vie))
         else if b = 0xA1 then to_reg VM_REG_GUEST_RAX
         else if b = 0xA3 then from_reg VM_REG_GUEST_RAX
         else if b = 0xC6 then let (e, d1) = memwrite gpa (immediate vie) 1 d in (e, v, d1)
         else if b = 0xC7 then let (e, d1) = memwrite gpa (immediate vie AND size2mask n) n d in (e, v, d1)
         else (EINVAL, v, d))"

definition emulate_movx :: "int \<Rightarrow> u64 \<Rightarrow> vie \<Rightarrow> 'd memread \<Rightarrow> vm \<Rightarrow> 'd \<Rightarrow> errno \<times> vm \<times> 'd" where
  "emulate_movx c gpa vie memread v d =
     (let b = op_byte (vie_op vie);
          extend = (\<lambda>n f. let (e, val, d1) = memread gpa n d
                          in if e \<noteq> OK then (e, v, d1)
                             else let (e, v1) = vie_update_register c (gpr_map ! unat (vie_reg vie)) (f val) (opsize vie) v in (e, v1, d1))
      in if b = 0xB6 then extend 1 (\<lambda>val. ucast (ucast val :: u8))
         else if b = 0xB7 then extend 2 (\<lambda>val. ucast (ucast val :: u16))
         else if b = 0xBE then extend 1 (\<lambda>val. scast (ucast val :: u8))
         else (EINVAL, v, d))"

text \<open>The end of the instructions that set flags: the flags in \<open>m\<close> are taken from \<open>flags\<close>, the other status flags are cleared.\<close>

definition set_status :: "int \<Rightarrow> u64 \<Rightarrow> u64 \<Rightarrow> vm \<Rightarrow> errno \<times> vm" where
  "set_status c m flags v =
     (case vie_read_register v c VM_REG_GUEST_RFLAGS of
        None \<Rightarrow> (EINVAL, v)
      | Some rflags \<Rightarrow> vie_update_register c VM_REG_GUEST_RFLAGS ((rflags AND NOT RFLAGS_STATUS_BITS) OR (flags AND m)) 8 v)"

definition finish_logic :: "int \<Rightarrow> vie \<Rightarrow> u64 \<Rightarrow> vm \<Rightarrow> 'd \<Rightarrow> 'd emulation" where
  "finish_logic c vie r v d = map_option (\<lambda>f. let (e, v1) = set_status c (PSL_PF OR PSL_Z OR PSL_N) f v in (e, v1, d)) (getcc (opsize vie) r 0)"

definition logic_immediate :: "(u64 \<Rightarrow> u64 \<Rightarrow> u64) \<Rightarrow> int \<Rightarrow> u64 \<Rightarrow> vie \<Rightarrow> 'd memread \<Rightarrow> 'd memwrite \<Rightarrow> vm \<Rightarrow> 'd \<Rightarrow> 'd emulation" where
  "logic_immediate f c gpa vie memread memwrite v d =
     (let (e, val1, d1) = memread gpa (opsize vie) d
      in if e \<noteq> OK then Some (e, v, d1)
         else
           let r = f val1 (immediate vie); (e, d2) = memwrite gpa r (opsize vie) d1
           in if e \<noteq> OK then Some (e, v, d2) else finish_logic c vie r v d2)"

definition emulate_and :: "int \<Rightarrow> u64 \<Rightarrow> vie \<Rightarrow> 'd memread \<Rightarrow> 'd memwrite \<Rightarrow> vm \<Rightarrow> 'd \<Rightarrow> 'd emulation" where
  "emulate_and c gpa vie memread memwrite v d =
     (let b = op_byte (vie_op vie)
      in if b = 0x23
         then let r = gpr_map ! unat (vie_reg vie)
              in case vie_read_register v c r of
                   None \<Rightarrow> Some (EINVAL, v, d)
                 | Some val1 \<Rightarrow>
                     let (e, val2, d1) = memread gpa (opsize vie) d
                     in if e \<noteq> OK then Some (e, v, d1)
                        else
                          let (e, v1) = vie_update_register c r (val1 AND val2) (opsize vie) v
                          in if e \<noteq> OK then Some (e, v1, d1) else finish_logic c vie (val1 AND val2) v1 d1
         else if b = 0x81 \<or> b = 0x83 then logic_immediate (AND) c gpa vie memread memwrite v d
         else Some (EINVAL, v, d))"

definition emulate_or :: "int \<Rightarrow> u64 \<Rightarrow> vie \<Rightarrow> 'd memread \<Rightarrow> 'd memwrite \<Rightarrow> vm \<Rightarrow> 'd \<Rightarrow> 'd emulation" where
  "emulate_or c gpa vie memread memwrite v d =
     (if op_byte (vie_op vie) = 0x81 \<or> op_byte (vie_op vie) = 0x83 then logic_immediate (OR) c gpa vie memread memwrite v d else Some (EINVAL, v, d))"

definition finish_compare :: "int \<Rightarrow> nat \<Rightarrow> u64 \<Rightarrow> u64 \<Rightarrow> vm \<Rightarrow> 'd \<Rightarrow> 'd emulation" where
  "finish_compare c n x y v d = map_option (\<lambda>f. let (e, v1) = set_status c RFLAGS_STATUS_BITS f v in (e, v1, d)) (getcc n x y)"

definition emulate_cmp :: "int \<Rightarrow> u64 \<Rightarrow> vie \<Rightarrow> 'd memread \<Rightarrow> vm \<Rightarrow> 'd \<Rightarrow> 'd emulation" where
  "emulate_cmp c gpa vie memread v d =
     (let b = op_byte (vie_op vie)
      in if b = 0x3B
         then case vie_read_register v c (gpr_map ! unat (vie_reg vie)) of
                None \<Rightarrow> Some (EINVAL, v, d)
              | Some op1 \<Rightarrow>
                  let (e, op2, d1) = memread gpa (opsize vie) d
                  in if e \<noteq> OK then Some (e, v, d1) else finish_compare c (opsize vie) op1 op2 v d1
         else if b = 0x80 \<or> b = 0x81 \<or> b = 0x83
         then let n = (if b = 0x80 then 1 else opsize vie); (e, op1, d1) = memread gpa n d
              in if e \<noteq> OK then Some (e, v, d1) else finish_compare c n op1 (immediate vie) v d1
         else Some (EINVAL, v, d))"

definition emulate_sub :: "int \<Rightarrow> u64 \<Rightarrow> vie \<Rightarrow> 'd memread \<Rightarrow> vm \<Rightarrow> 'd \<Rightarrow> 'd emulation" where
  "emulate_sub c gpa vie memread v d =
     (if op_byte (vie_op vie) = 0x2B
      then let r = gpr_map ! unat (vie_reg vie)
           in case vie_read_register v c r of
                None \<Rightarrow> Some (EINVAL, v, d)
              | Some val1 \<Rightarrow>
                  let (e, val2, d1) = memread gpa (opsize vie) d
                  in if e \<noteq> OK then Some (e, v, d1)
                     else
                       let (e, v1) = vie_update_register c r (val1 - val2) (opsize vie) v
                       in if e \<noteq> OK then Some (e, v1, d1) else finish_compare c (opsize vie) val1 val2 v1 d1
      else Some (EINVAL, v, d))"

definition emulate_group1 :: "int \<Rightarrow> u64 \<Rightarrow> vie \<Rightarrow> 'd memread \<Rightarrow> 'd memwrite \<Rightarrow> vm \<Rightarrow> 'd \<Rightarrow> 'd emulation" where
  "emulate_group1 c gpa vie memread memwrite v d =
     (if vie_reg vie AND 7 = 1 then emulate_or c gpa vie memread memwrite v d
      else if vie_reg vie AND 7 = 4 then emulate_and c gpa vie memread memwrite v d
      else if vie_reg vie AND 7 = 7 then emulate_cmp c gpa vie memread v d
      else Some (EINVAL, v, d))"

text \<open>\<^verbatim>\<open>bitmask\<close> and \<^verbatim>\<open>bitoff\<close> are non-negative and below 64.\<close>

definition emulate_bittest :: "int \<Rightarrow> u64 \<Rightarrow> vie \<Rightarrow> 'd memread \<Rightarrow> vm \<Rightarrow> 'd \<Rightarrow> 'd emulation" where
  "emulate_bittest c gpa vie memread v d =
     (if vie_reg vie AND 7 \<noteq> 4 then Some (EINVAL, v, d)
      else case vie_read_register v c VM_REG_GUEST_RFLAGS of
             None \<Rightarrow> None
           | Some rflags \<Rightarrow>
               let (e, val, d1) = memread gpa (opsize vie) d
               in if e \<noteq> OK then Some (e, v, d1)
                  else
                    let bitoff = unat (immediate vie AND word_of_nat (opsize vie * 8 - 1));
                        rflags1 = (if val AND push_bit bitoff 1 \<noteq> 0 then rflags OR PSL_C else rflags AND NOT PSL_C);
                        (e, v1) = vie_update_register c VM_REG_GUEST_RFLAGS rflags1 8 v
                    in if e \<noteq> OK then None else Some (OK, v1, d1))"

section \<open>Strings and the stack\<close>

definition repeated :: "vie \<Rightarrow> bool" where
  "repeated vie \<longleftrightarrow> repz_present vie \<or> repnz_present vie"

text \<open>Moving an index register by \<open>n\<close> in the direction of the flag.\<close>

definition move_index :: "int \<Rightarrow> vie \<Rightarrow> nat \<Rightarrow> vm_reg_name \<Rightarrow> vm \<Rightarrow> vm option" where
  "move_index c vie n r v =
     (case (vie_read_register v c r, vie_read_register v c VM_REG_GUEST_RFLAGS) of
        (Some x, Some rflags) \<Rightarrow>
          let (e, v1) = vie_update_register c r (if rflags AND PSL_D \<noteq> 0 then x - word_of_nat n else x + word_of_nat n) (addrsize vie) v
          in if e \<noteq> OK then None else Some v1
      | _ \<Rightarrow> None)"

definition count_down :: "int \<Rightarrow> vie \<Rightarrow> u64 \<Rightarrow> vm \<Rightarrow> vm option" where
  "count_down c vie rcx v =
     (if repeated vie
      then
        let (e, v1) = vie_update_register c VM_REG_GUEST_RCX (rcx - 1) (addrsize vie) v
        in if e \<noteq> OK then None
           else if (rcx - 1) AND size2mask (addrsize vie) \<noteq> 0 then map_option snd (vm_restart_instruction c v1) else Some v1
      else Some v)"

definition emulate_stos :: "int \<Rightarrow> u64 \<Rightarrow> vie \<Rightarrow> 'd memwrite \<Rightarrow> vm \<Rightarrow> 'd \<Rightarrow> 'd emulation" where
  "emulate_stos c gpa vie memwrite v d =
     (let n = (if op_byte (vie_op vie) = 0xAA then 1 else opsize vie)
      in case (if repeated vie then vie_read_register v c VM_REG_GUEST_RCX else Some 0, vie_size2mask (addrsize vie)) of
           (Some rcx, Some m) \<Rightarrow>
             if repeated vie \<and> rcx AND m = 0 then Some (OK, v, d)
             else case vie_read_register v c VM_REG_GUEST_RAX of
                    None \<Rightarrow> None
                  | Some val \<Rightarrow>
                      let (e, d1) = memwrite gpa val n d
                      in if e \<noteq> OK then Some (e, v, d1)
                         else case move_index c vie n VM_REG_GUEST_RDI v of
                                None \<Rightarrow> None
                              | Some v1 \<Rightarrow> map_option (\<lambda>v2. (OK, v2, d1)) (count_down c vie rcx v1)
         | _ \<Rightarrow> None)"

text \<open>The assertion at the end of \<^verbatim>\<open>emulate_movs\<close>.\<close>

definition movs_done :: "errno \<Rightarrow> vm \<Rightarrow> 'd \<Rightarrow> 'd emulation" where
  "movs_done e v d = (if e = OK \<or> e = EFAULT then Some (e, v, d) else None)"

definition movs_step :: "int \<Rightarrow> vie \<Rightarrow> nat \<Rightarrow> u64 \<Rightarrow> vm \<Rightarrow> 'd \<Rightarrow> 'd emulation" where
  "movs_step c vie n rcx v d =
     (case move_index c vie n VM_REG_GUEST_RSI v of
        None \<Rightarrow> None
      | Some v1 \<Rightarrow>
          (case move_index c vie n VM_REG_GUEST_RDI v1 of
             None \<Rightarrow> None
           | Some v2 \<Rightarrow> map_option (\<lambda>v3. (OK, v3, d)) (count_down c vie rcx v2)))"

definition movs_from_mmio :: "int \<Rightarrow> u64 \<Rightarrow> vie \<Rightarrow> vm_guest_paging \<Rightarrow> nat \<Rightarrow> u64 \<Rightarrow> u64 \<Rightarrow> 'd memread \<Rightarrow> 'd memwrite \<Rightarrow> vm \<Rightarrow> 'd \<Rightarrow> 'd emulation" where
  "movs_from_mmio c gpa vie paging n rcx srcaddr memread memwrite v d =
     (case get_gla c paging n (addrsize vie) XHYVE_PROT_WRITE VM_REG_GUEST_ES VM_REG_GUEST_RDI v of
        None \<Rightarrow> None
      | Some (Inl v1) \<Rightarrow> Some (OK, v1, d)
      | Some (Inr dstaddr) \<Rightarrow>
          (case vm_copy_setup c paging dstaddr n XHYVE_PROT_WRITE 2 v of
             None \<Rightarrow> None
           | Some (error, fault, copyinfo, v1) \<Rightarrow>
               if error = OK
               then if fault then Some (OK, v1, d)
                    else
                      let (e, val, d1) = memread gpa n d
                      in if e \<noteq> OK then movs_done e v1 d1
                         else (case vm_copyout (le_bytes n val) copyinfo n v1 of None \<Rightarrow> None | Some v2 \<Rightarrow> movs_step c vie n rcx v2 d1)
               else case vm_gla2gpa c paging srcaddr XHYVE_PROT_READ v1 of
                      None \<Rightarrow> None
                    | Some (e, fault, srcgpa, v2) \<Rightarrow>
                        if e \<noteq> OK \<or> fault then movs_done e v2 d
                        else (case vm_gla2gpa c paging dstaddr XHYVE_PROT_WRITE v2 of
                                None \<Rightarrow> None
                              | Some (e, fault, dstgpa, v3) \<Rightarrow>
                                  if e \<noteq> OK \<or> fault then movs_done e v3 d
                                  else
                                    let (e, val, d1) = memread (the srcgpa) n d
                                    in if e \<noteq> OK then movs_done e v3 d1
                                       else
                                         let (e, d2) = memwrite (the dstgpa) val n d1
                                         in if e \<noteq> OK then movs_done e v3 d2 else movs_step c vie n rcx v3 d2)))"

definition emulate_movs :: "int \<Rightarrow> u64 \<Rightarrow> vie \<Rightarrow> vm_guest_paging \<Rightarrow> 'd memread \<Rightarrow> 'd memwrite \<Rightarrow> vm \<Rightarrow> 'd \<Rightarrow> 'd emulation" where
  "emulate_movs c gpa vie paging memread memwrite v d =
     (let n = (if op_byte (vie_op vie) = 0xA4 then 1 else opsize vie);
          seg = (if seg_override vie then segment_register vie else VM_REG_GUEST_DS)
      in case (if repeated vie then vie_read_register v c VM_REG_GUEST_RCX else Some 0, vie_size2mask (addrsize vie)) of
           (Some rcx, Some m) \<Rightarrow>
             if repeated vie \<and> rcx AND m = 0 then Some (OK, v, d)
             else case get_gla c paging n (addrsize vie) XHYVE_PROT_READ seg VM_REG_GUEST_RSI v of
                    None \<Rightarrow> None
                  | Some (Inl v1) \<Rightarrow> Some (OK, v1, d)
                  | Some (Inr srcaddr) \<Rightarrow>
                      (case vm_copy_setup c paging srcaddr n XHYVE_PROT_READ 2 v of
                         None \<Rightarrow> None
                       | Some (error, fault, copyinfo, v1) \<Rightarrow>
                           if error = OK
                           then if fault then Some (OK, v1, d)
                                else (case vm_copyin v1 copyinfo n of
                                        None \<Rightarrow> None
                                      | Some bs \<Rightarrow>
                                          let (e, d1) = memwrite gpa (le_word bs) n d
                                          in if e \<noteq> OK then movs_done e v1 d1 else movs_step c vie n rcx v1 d1)
                           else movs_from_mmio c gpa vie paging n rcx srcaddr memread memwrite v1 d)
         | _ \<Rightarrow> None)"

text \<open>The descriptor of the stack segment is read in protected and compatibility mode only; in 64-bit mode it is not used, and real mode would use an
  uninitialised one, which is the value \<open>None\<close>.\<close>

definition stack_attributes :: "vm \<Rightarrow> int \<Rightarrow> vie \<Rightarrow> vm_guest_paging \<Rightarrow> (seg_desc \<times> nat \<times> nat) option" where
  "stack_attributes v c vie paging =
     (case pg_cpu_mode paging of
        CPU_MODE_REAL \<Rightarrow> None
      | CPU_MODE_64BIT \<Rightarrow> Some (\<lparr>sd_base = 0, sd_limit = 0, sd_access = 0\<rparr>, 8, if opsize_override vie then 2 else 8)
      | _ \<Rightarrow> map_option (\<lambda>desc. (desc, if SEG_DESC_DEF32 (sd_access desc) then 4 else 2, opsize vie)) (vm_get_seg_desc v c VM_REG_GUEST_SS))"

definition update_rsp :: "int \<Rightarrow> u64 \<Rightarrow> nat \<Rightarrow> vm \<Rightarrow> 'd \<Rightarrow> 'd emulation" where
  "update_rsp c rsp stackaddrsize v d = (let (e, v1) = vie_update_register c VM_REG_GUEST_RSP rsp stackaddrsize v in if e \<noteq> OK then None else Some (OK, v1, d))"

definition emulate_stack_op :: "int \<Rightarrow> u64 \<Rightarrow> vie \<Rightarrow> vm_guest_paging \<Rightarrow> 'd memread \<Rightarrow> 'd memwrite \<Rightarrow> vm \<Rightarrow> 'd \<Rightarrow> 'd emulation" where
  "emulate_stack_op c mmio_gpa vie paging memread memwrite v d =
     (let pushop = (op_type (vie_op vie) = VIE_OP_TYPE_PUSH); prot = (if pushop then XHYVE_PROT_WRITE else XHYVE_PROT_READ);
          inject = (\<lambda>r. map_option (\<lambda>v1. (OK, v1, d)) r)
      in case (stack_attributes v c vie paging, vie_read_register v c VM_REG_GUEST_CR0, vie_read_register v c VM_REG_GUEST_RFLAGS,
               vie_read_register v c VM_REG_GUEST_RSP) of
           (Some (ss_desc, stackaddrsize, n), Some cr0, Some rflags, Some rsp0) \<Rightarrow>
             let rsp = (if pushop then rsp0 - word_of_nat n else rsp0)
             in (case vie_calculate_gla (pg_cpu_mode paging) VM_REG_GUEST_SS ss_desc rsp n stackaddrsize prot of
                   None \<Rightarrow> None
                 | Some None \<Rightarrow> inject (vm_inject_ss c 0 v)
                 | Some (Some stack_gla) \<Rightarrow>
                     if vie_canonical_check (pg_cpu_mode paging) stack_gla then inject (vm_inject_ss c 0 v)
                     else case vie_alignment_check (pg_cpl paging) n cr0 rflags stack_gla of
                            None \<Rightarrow> None
                          | Some True \<Rightarrow> inject (vm_inject_ac c 0 v)
                          | Some False \<Rightarrow>
                              (case vm_copy_setup c paging stack_gla n prot 2 v of
                                 None \<Rightarrow> None
                               | Some (error, fault, copyinfo, v1) \<Rightarrow>
                                   if error \<noteq> OK \<or> fault then Some (error, v1, d)
                                   else if pushop
                                   then let (e, val, d1) = memread mmio_gpa n d
                                        in if e \<noteq> OK then Some (e, v1, d1)
                                           else (case vm_copyout (le_bytes n val) copyinfo n v1 of
                                                   None \<Rightarrow> None
                                                 | Some v2 \<Rightarrow> update_rsp c rsp stackaddrsize v2 d1)
                                   else (case vm_copyin v1 copyinfo n of
                                           None \<Rightarrow> None
                                         | Some bs \<Rightarrow>
                                             let (e, d1) = memwrite mmio_gpa (le_word bs) n d
                                             in if e \<noteq> OK then Some (e, v1, d1)
                                                else update_rsp c (rsp + word_of_nat n) stackaddrsize v1 d1)))
         | _ \<Rightarrow> None)"

definition emulate_push :: "int \<Rightarrow> u64 \<Rightarrow> vie \<Rightarrow> vm_guest_paging \<Rightarrow> 'd memread \<Rightarrow> 'd memwrite \<Rightarrow> vm \<Rightarrow> 'd \<Rightarrow> 'd emulation" where
  "emulate_push c mmio_gpa vie paging memread memwrite v d =
     (if vie_reg vie AND 7 \<noteq> 6 then Some (EINVAL, v, d) else emulate_stack_op c mmio_gpa vie paging memread memwrite v d)"

definition emulate_pop :: "int \<Rightarrow> u64 \<Rightarrow> vie \<Rightarrow> vm_guest_paging \<Rightarrow> 'd memread \<Rightarrow> 'd memwrite \<Rightarrow> vm \<Rightarrow> 'd \<Rightarrow> 'd emulation" where
  "emulate_pop c mmio_gpa vie paging memread memwrite v d =
     (if vie_reg vie AND 7 \<noteq> 0 then Some (EINVAL, v, d) else emulate_stack_op c mmio_gpa vie paging memread memwrite v d)"

definition vmm_emulate_instruction :: "int \<Rightarrow> u64 \<Rightarrow> vie \<Rightarrow> vm_guest_paging \<Rightarrow> 'd memread \<Rightarrow> 'd memwrite \<Rightarrow> vm \<Rightarrow> 'd \<Rightarrow> 'd emulation" where
  "vmm_emulate_instruction c gpa vie paging memread memwrite v d =
     (if \<not> decoded vie then Some (EINVAL, v, d)
      else case op_type (vie_op vie) of
             VIE_OP_TYPE_GROUP1 \<Rightarrow> emulate_group1 c gpa vie memread memwrite v d
           | VIE_OP_TYPE_POP \<Rightarrow> emulate_pop c gpa vie paging memread memwrite v d
           | VIE_OP_TYPE_PUSH \<Rightarrow> emulate_push c gpa vie paging memread memwrite v d
           | VIE_OP_TYPE_CMP \<Rightarrow> emulate_cmp c gpa vie memread v d
           | VIE_OP_TYPE_MOV \<Rightarrow> Some (emulate_mov c gpa vie memread memwrite v d)
           | VIE_OP_TYPE_MOVSX \<Rightarrow> Some (emulate_movx c gpa vie memread v d)
           | VIE_OP_TYPE_MOVZX \<Rightarrow> Some (emulate_movx c gpa vie memread v d)
           | VIE_OP_TYPE_MOVS \<Rightarrow> emulate_movs c gpa vie paging memread memwrite v d
           | VIE_OP_TYPE_STOS \<Rightarrow> emulate_stos c gpa vie memwrite v d
           | VIE_OP_TYPE_AND \<Rightarrow> emulate_and c gpa vie memread memwrite v d
           | VIE_OP_TYPE_OR \<Rightarrow> emulate_or c gpa vie memread memwrite v d
           | VIE_OP_TYPE_SUB \<Rightarrow> emulate_sub c gpa vie memread v d
           | VIE_OP_TYPE_BITTEST \<Rightarrow> emulate_bittest c gpa vie memread v d
           | _ \<Rightarrow> Some (EINVAL, v, d))"

section \<open>Comparisons\<close>

text \<open>The flags of a subtraction compare the operands, unsigned and signed.\<close>

lemma bit_top: "bit x (LENGTH('w) - 1) \<longleftrightarrow> 2 ^ (LENGTH('w) - 1) \<le> uint x" for x :: "'w::len word"
proof -
  obtain N where N: "LENGTH('w) = Suc N" by (cases "LENGTH('w)") simp_all
  have "bit x N \<longleftrightarrow> bit (uint x) N" using N by (simp add: bit_uint_iff)
  also have "\<dots> \<longleftrightarrow> odd (uint x div 2 ^ N)" by (simp add: bit_iff_odd)
  also have "\<dots> \<longleftrightarrow> 2 ^ N \<le> uint x"
  proof -
    have b: "0 \<le> uint x" "uint x < 2 * 2 ^ N" using uint_bounded[of x] N by simp_all
    show ?thesis
    proof (cases "2 ^ N \<le> uint x")
      case True
      then have "uint x div 2 ^ N = 1" using b by (intro int_div_pos_eq[where r = "uint x - 2 ^ N"]) simp_all
      then show ?thesis using True by simp
    next
      case False
      then show ?thesis using b by simp
    qed
  qed
  finally show ?thesis by (simp add: N)
qed

lemma sint_top: "sint x = (if bit x (LENGTH('w) - 1) then uint x - 2 ^ LENGTH('w) else uint x)" for x :: "'w::len word"
proof -
  obtain N where N: "LENGTH('w) = Suc N" by (cases "LENGTH('w)") simp_all
  have "sint x = signed_take_bit N (uint x)" by (simp add: sint_uint N)
  also have "\<dots> = take_bit (Suc N) (uint x) - 2 ^ Suc N * of_bool (bit (uint x) N)" by (rule signed_take_bit_eq_take_bit_minus)
  also have "take_bit (Suc N) (uint x) = uint x" using take_bit_word_eq_self[of "Suc N" x] N by (metis order_refl unsigned_take_bit_eq)
  finally show ?thesis using N by (simp add: bit_uint_iff)
qed

lemma signed_cases:
  fixes a b p q :: int
  assumes "0 \<le> a" "a < 2 * p" "0 \<le> b" "b < 2 * p" "q = (if b \<le> a then a - b else a - b + 2 * p)"
  shows "((p \<le> q) \<noteq> (((p \<le> a) \<noteq> (p \<le> b)) \<and> ((p \<le> a) \<noteq> (p \<le> q)))) \<longleftrightarrow> (if p \<le> a then a - 2 * p else a) < (if p \<le> b then b - 2 * p else b)"
  using assms by (auto split: if_splits)

lemma signed_less:
  fixes x y :: "'w::len word"
  defines "r \<equiv> x - y" and "hi \<equiv> LENGTH('w) - 1"
  shows "(bit r hi \<noteq> bit ((x XOR y) AND (x XOR r)) hi) \<longleftrightarrow> sint x < sint y"
proof -
  obtain N where N: "LENGTH('w) = Suc N" by (cases "LENGTH('w)") simp_all
  have b: "0 \<le> uint x" "uint x < 2 * 2 ^ N" "0 \<le> uint y" "uint y < 2 * 2 ^ N" using uint_bounded[of x] uint_bounded[of y] N by simp_all
  have r: "uint r = (if uint y \<le> uint x then uint x - uint y else uint x - uint y + 2 * 2 ^ N)"
    using b by (simp add: r_def uint_sub_if' N)
  have t: "bit x hi \<longleftrightarrow> 2 ^ N \<le> uint x" "bit y hi \<longleftrightarrow> 2 ^ N \<le> uint y" "bit r hi \<longleftrightarrow> 2 ^ N \<le> uint r"
    using bit_top[of x] bit_top[of y] bit_top[of r] by (simp_all add: hi_def N)
  have s: "sint x = (if bit x hi then uint x - 2 * 2 ^ N else uint x)" "sint y = (if bit y hi then uint y - 2 * 2 ^ N else uint y)"
    using sint_top[of x] sint_top[of y] by (simp_all add: hi_def N)
  show ?thesis using signed_cases[OF b r] by (simp add: s bit_and_iff bit_xor_iff t)
qed

lemma sub_flags_bits:
  fixes x y :: "'w::len word"
  shows "(sub_flags x y AND PSL_C \<noteq> 0) = (x < y)" "(sub_flags x y AND PSL_Z \<noteq> 0) = (x = y)"
    "((sub_flags x y AND PSL_N \<noteq> 0) \<noteq> (sub_flags x y AND PSL_V \<noteq> 0)) = (sint x < sint y)"
    "sub_flags x y AND NOT RFLAGS_STATUS_BITS = 0"
proof -
  have "(sub_flags x y AND PSL_N \<noteq> 0) = bit (x - y) (LENGTH('w) - 1)" "(sub_flags x y AND PSL_V \<noteq> 0) = bit ((x XOR y) AND (x XOR (x - y))) (LENGTH('w) - 1)"
    unfolding sub_flags_def Let_def by (simp_all add: psl bit.conj_disj_distrib2)
  then show "((sub_flags x y AND PSL_N \<noteq> 0) \<noteq> (sub_flags x y AND PSL_V \<noteq> 0)) = (sint x < sint y)" using signed_less[of x y] by simp
  show "(sub_flags x y AND PSL_C \<noteq> 0) = (x < y)" "(sub_flags x y AND PSL_Z \<noteq> 0) = (x = y)" "sub_flags x y AND NOT RFLAGS_STATUS_BITS = 0"
    unfolding sub_flags_def Let_def by (simp_all add: psl RFLAGS_STATUS_BITS_def bit.conj_disj_distrib2)
qed

lemma cast_compare:
  fixes x y :: u64
  shows "(ucast x = (ucast y :: 'w::len word)) = (take_bit LENGTH('w) (uint x) = take_bit LENGTH('w) (uint y))"
    "(ucast x < (ucast y :: 'w word)) = (take_bit LENGTH('w) (uint x) < take_bit LENGTH('w) (uint y))" "sint (ucast x :: 'w word) = signed_take_bit (LENGTH('w) - 1) (uint x)"
proof -
  show "(ucast x = (ucast y :: 'w word)) = (take_bit LENGTH('w) (uint x) = take_bit LENGTH('w) (uint y))"
    "(ucast x < (ucast y :: 'w word)) = (take_bit LENGTH('w) (uint x) < take_bit LENGTH('w) (uint y))" by (simp_all add: word_uint_eq_iff word_less_def unsigned_ucast_eq)
  obtain N where "LENGTH('w) = Suc N" by (cases "LENGTH('w)") simp_all
  then show "sint (ucast x :: 'w word) = signed_take_bit (LENGTH('w) - 1) (uint x)" by (simp add: sint_uint unsigned_ucast_eq signed_take_bit_take_bit)
qed

lemma getcc_exact:
  assumes "n \<in> {1, 2, 4, 8}"
  shows "\<exists>f. getcc n x y = Some f \<and> (f AND PSL_C \<noteq> 0) = (take_bit (8 * n) (uint x) < take_bit (8 * n) (uint y))
    \<and> (f AND PSL_Z \<noteq> 0) = (take_bit (8 * n) (uint x) = take_bit (8 * n) (uint y))
    \<and> ((f AND PSL_N \<noteq> 0) \<noteq> (f AND PSL_V \<noteq> 0)) = (signed_take_bit (8 * n - 1) (uint x) < signed_take_bit (8 * n - 1) (uint y))
    \<and> f AND NOT RFLAGS_STATUS_BITS = 0"
proof -
  have 8: "take_bit 64 (uint z) = uint z" for z :: u64 using uint_bounded[of z] by (simp add: take_bit_int_eq_self)
  consider "n = 1" | "n = 2" | "n = 4" | "n = 8" using assms by auto
  then show ?thesis
  proof cases
    case 1
    then show ?thesis using sub_flags_bits[of "ucast x :: u8" "ucast y"] unfolding cast_compare by (simp add: getcc_def)
  next
    case 2
    then show ?thesis using sub_flags_bits[of "ucast x :: u16" "ucast y"] unfolding cast_compare by (simp add: getcc_def)
  next
    case 3
    then show ?thesis using sub_flags_bits[of "ucast x :: u32" "ucast y"] unfolding cast_compare by (simp add: getcc_def)
  next
    case 4
    then show ?thesis using sub_flags_bits[of x y] by (simp add: getcc_def word_uint_eq_iff[of x y] word_less_def[of x y] sint_uint 8)
  qed
qed

definition creg :: "int \<Rightarrow> vm_reg_name \<Rightarrow> vm \<Rightarrow> u64" where
  "creg c r v = cpu_regs (vm_vcpu v (nat c)) r"

definition set_creg :: "int \<Rightarrow> vm_reg_name \<Rightarrow> u64 \<Rightarrow> vm \<Rightarrow> vm" where
  "set_creg c r x v = upd_vcpu (nat c) (\<lambda>p. p\<lparr>cpu_regs := (cpu_regs p)(r := x)\<rparr>) v"

lemma creg_set [simp]: "creg c r' (set_creg c r x v) = (if r' = r then x else creg c r' v)"
  by (simp add: creg_def set_creg_def upd_vcpu_def)

lemma read_creg: "\<not> bad_vcpuid c \<Longrightarrow> r \<noteq> VM_REG_LAST \<Longrightarrow> vie_read_register v c r = Some (creg c r v)"
  by (simp add: vie_read_register_def vm_get_register_def creg_def)

lemma update_creg:
  assumes "\<not> bad_vcpuid c" "r \<noteq> VM_REG_LAST" "r \<noteq> VM_REG_GUEST_RIP" "n \<in> {2, 4, 8}"
  shows "\<exists>x. vie_update_register c r val n v = (OK, set_creg c r x v) \<and> x AND size2mask n = val AND size2mask n \<and> (n = 8 \<longrightarrow> x = val)"
proof -
  have "(val AND 0xffff OR orig AND NOT 0xffff) AND 0xffff = val AND 0xffff" for orig :: u64
    by (simp add: bit.conj_disj_distrib2 and.assoc)
  then show ?thesis using assms by (auto simp: vie_update_register_def read_creg vm_set_register_def set_creg_def size2mask_def and.assoc)
qed

text \<open>
  C20 (functional). Comparing a register with device memory sets the carry flag for unsigned less, the zero flag for equal, and sign unlike overflow
  for signed less, at the width of the operands; other flags, other registers and memory stay as they are.
\<close>

theorem cmp_exact:
  assumes "\<not> bad_vcpuid c" "opsize vie \<in> {2, 4, 8}" "op_byte (vie_op vie) = 0x3B" "unat (vie_reg vie) < length gpr_map" "memread gpa (opsize vie) d = (OK, y, d1)"
    "x = creg c (gpr_map ! unat (vie_reg vie)) v" "w = 8 * opsize vie"
  shows "\<exists>f. emulate_cmp c gpa vie memread v d = Some (OK, set_creg c VM_REG_GUEST_RFLAGS f v, d1)
    \<and> (f AND PSL_C \<noteq> 0) = (take_bit w (uint x) < take_bit w (uint y)) \<and> (f AND PSL_Z \<noteq> 0) = (take_bit w (uint x) = take_bit w (uint y))
    \<and> ((f AND PSL_N \<noteq> 0) \<noteq> (f AND PSL_V \<noteq> 0)) = (signed_take_bit (w - 1) (uint x) < signed_take_bit (w - 1) (uint y))
    \<and> f AND NOT RFLAGS_STATUS_BITS = creg c VM_REG_GUEST_RFLAGS v AND NOT RFLAGS_STATUS_BITS"
proof -
  have "gpr_map ! unat (vie_reg vie) \<noteq> VM_REG_LAST" using gpr_not_last[of "unat (vie_reg vie)"] assms(4) by (simp add: gpr_map_def)
  then have r: "vie_read_register v c (gpr_map ! unat (vie_reg vie)) = Some x" using read_creg[OF assms(1)] assms(6) by simp
  obtain f where f: "getcc (opsize vie) x y = Some f" "(f AND PSL_C \<noteq> 0) = (take_bit w (uint x) < take_bit w (uint y))"
    "(f AND PSL_Z \<noteq> 0) = (take_bit w (uint x) = take_bit w (uint y))"
    "((f AND PSL_N \<noteq> 0) \<noteq> (f AND PSL_V \<noteq> 0)) = (signed_take_bit (w - 1) (uint x) < signed_take_bit (w - 1) (uint y))" "f AND NOT RFLAGS_STATUS_BITS = 0"
    using getcc_exact[of "opsize vie" x y] assms(2,7) by auto
  let ?old = "creg c VM_REG_GUEST_RFLAGS v"
  let ?f = "(?old AND NOT RFLAGS_STATUS_BITS) OR (f AND RFLAGS_STATUS_BITS)"
  have s: "set_status c RFLAGS_STATUS_BITS f v = (OK, set_creg c VM_REG_GUEST_RFLAGS ?f v)"
    using update_creg[OF assms(1), of VM_REG_GUEST_RFLAGS 8 ?f v] by (auto simp: set_status_def read_creg[OF assms(1)])
  have k: "?f AND b = f AND b" if "b AND RFLAGS_STATUS_BITS = b" for b
  proof -
    have "bit b i \<Longrightarrow> bit RFLAGS_STATUS_BITS i" for i using that by (metis bit_and_iff)
    then show ?thesis by (intro bit_word_eqI) (auto simp: bit_and_iff bit_or_iff bit_not_iff)
  qed
  have "?f AND NOT RFLAGS_STATUS_BITS = ?old AND NOT RFLAGS_STATUS_BITS" using f(5) by (simp add: bit.conj_disj_distrib2 and.assoc)
  moreover have "?f AND PSL_C = f AND PSL_C" "?f AND PSL_Z = f AND PSL_Z" "?f AND PSL_N = f AND PSL_N" "?f AND PSL_V = f AND PSL_V"
    by (rule k; simp add: psl RFLAGS_STATUS_BITS_def)+
  ultimately show ?thesis using r assms(3,5) f s by (intro exI[of _ ?f]) (simp add: emulate_cmp_def finish_compare_def)
qed

theorem cmp_exact_witness:
  "\<exists>f. emulate_cmp 0 0xfee00020 (bzero_vie\<lparr>opsize := 4, vie_op := op_entry one_byte_opcodes 0x3B\<rparr>) (\<lambda>g n d. (OK, 0x7fffffff, d)) (set_creg 0 VM_REG_GUEST_RAX 0x80000000 sample_vm) () =
     Some (OK, set_creg 0 VM_REG_GUEST_RFLAGS f (set_creg 0 VM_REG_GUEST_RAX 0x80000000 sample_vm), ()) \<and> f AND PSL_C = 0 \<and> f AND PSL_Z = 0 \<and> (f AND PSL_N \<noteq> 0) \<noteq> (f AND PSL_V \<noteq> 0)"
proof -
  let ?vie = "bzero_vie\<lparr>opsize := 4, vie_op := op_entry one_byte_opcodes 0x3B\<rparr>" and ?v = "set_creg 0 VM_REG_GUEST_RAX 0x80000000 sample_vm"
  have "\<not> bad_vcpuid 0" by (simp add: bad_vcpuid_def VM_MAXCPU_def)
  moreover have "opsize ?vie \<in> {2, 4, 8}" "op_byte (vie_op ?vie) = 0x3B" "unat (vie_reg ?vie) < length gpr_map" "0x80000000 = creg 0 (gpr_map ! unat (vie_reg ?vie)) ?v" "32 = 8 * opsize ?vie"
    by (simp_all add: op_entry_def one_byte_opcodes_def bzero_vie_def gpr_map_def)
  moreover have "(\<lambda>g n d. (OK, 0x7fffffff, d)) (0xfee00020 :: u64) (opsize ?vie) () = (OK, 0x7fffffff, ())" by simp
  ultimately have "\<exists>f. emulate_cmp 0 0xfee00020 ?vie (\<lambda>g n d. (OK, 0x7fffffff, d)) ?v () = Some (OK, set_creg 0 VM_REG_GUEST_RFLAGS f ?v, ())
    \<and> (f AND PSL_C \<noteq> 0) = (take_bit 32 (uint (0x80000000 :: u64)) < take_bit 32 (uint (0x7fffffff :: u64)))
    \<and> (f AND PSL_Z \<noteq> 0) = (take_bit 32 (uint (0x80000000 :: u64)) = take_bit 32 (uint (0x7fffffff :: u64)))
    \<and> ((f AND PSL_N \<noteq> 0) \<noteq> (f AND PSL_V \<noteq> 0)) = (signed_take_bit (32 - 1) (uint (0x80000000 :: u64)) < signed_take_bit (32 - 1) (uint (0x7fffffff :: u64)))
    \<and> f AND NOT RFLAGS_STATUS_BITS = creg 0 VM_REG_GUEST_RFLAGS ?v AND NOT RFLAGS_STATUS_BITS"
    by (intro cmp_exact[where memread = "\<lambda>g n d. (OK, 0x7fffffff, d)"])
  then show ?thesis by (elim exE conjE) (intro exI conjI, assumption, simp_all add: signed_take_bit_eq_take_bit_minus)
qed

section \<open>Repeated stores\<close>

lemma size2mask_mask: "n \<in> {1, 2, 4, 8} \<Longrightarrow> size2mask n = mask (8 * n)"
  by (auto simp: size2mask_def mask_eq_exp_minus_1)

lemma take_add: "w \<le> 64 \<Longrightarrow> take_bit w (take_bit w a + b) = take_bit w (a + b)" for a b :: u64
proof -
  assume w: "w \<le> 64"
  have d: "(2 :: nat) ^ w dvd 2 ^ 64" using w by (rule le_imp_power_dvd)
  have "unat (take_bit w (take_bit w a + b)) = unat (take_bit w (a + b))"
    using d by (simp only: unsigned_take_bit_eq unat_word_ariths) (simp add: take_bit_eq_mod mod_mod_cancel mod_add_left_eq)
  then show ?thesis by (simp only: word_unat_eq_iff)
qed

lemma masked_add:
  assumes "n \<in> {2, 4, 8}" "x AND size2mask n = y AND size2mask n"
  shows "(x + z) AND size2mask n = (y + z) AND size2mask n"
proof -
  have m: "size2mask n = mask (8 * n)" "8 * n \<le> 64" using assms(1) size2mask_mask[of n] by auto
  have t: "take_bit (8 * n) x = take_bit (8 * n) y" using assms(2) by (simp add: m take_bit_eq_mask)
  have "take_bit (8 * n) (x + z) = take_bit (8 * n) (y + z)" using take_add[OF m(2), of x z] take_add[OF m(2), of y z] t by simp
  then show ?thesis by (simp add: m take_bit_eq_mask)
qed

text \<open>The virtual CPU has stopped at the instruction; what stays the same while the instruction is repeated.\<close>

definition stopped :: "int \<Rightarrow> vm \<Rightarrow> bool" where
  "stopped c v \<longleftrightarrow> \<not> bad_vcpuid c \<and> cpu_state (vm_vcpu v (nat c)) = VCPU_FROZEN"

definition other_regs :: "int \<Rightarrow> vm \<Rightarrow> vm_reg_name \<Rightarrow> u64" where
  "other_regs c v r = (if r \<in> {VM_REG_GUEST_RCX, VM_REG_GUEST_RDI} then 0 else creg c r v)"

definition next_rip :: "int \<Rightarrow> vm \<Rightarrow> u64" where
  "next_rip c v = nextrip (vm_vcpu v (nat c))"

lemma set_creg_keeps [simp]:
  "stopped c (set_creg c r x v) = stopped c v" "next_rip c (set_creg c r x v) = next_rip c v"
  "r \<in> {VM_REG_GUEST_RCX, VM_REG_GUEST_RDI} \<Longrightarrow> other_regs c (set_creg c r x v) = other_regs c v"
  by (auto simp: stopped_def next_rip_def other_regs_def set_creg_def upd_vcpu_def creg_def fun_eq_iff)

lemma move_index_exact:
  assumes "stopped c v" "addrsize vie \<in> {2, 4, 8}" "step = (if creg c VM_REG_GUEST_RFLAGS v AND PSL_D \<noteq> 0 then - word_of_nat n else word_of_nat n)"
  shows "\<exists>x. move_index c vie n VM_REG_GUEST_RDI v = Some (set_creg c VM_REG_GUEST_RDI x v)
    \<and> x AND size2mask (addrsize vie) = (creg c VM_REG_GUEST_RDI v + step) AND size2mask (addrsize vie)"
proof -
  have b: "\<not> bad_vcpuid c" using assms(1) by (simp add: stopped_def)
  obtain x where x: "vie_update_register c VM_REG_GUEST_RDI (creg c VM_REG_GUEST_RDI v + step) (addrsize vie) v = (OK, set_creg c VM_REG_GUEST_RDI x v)"
    "x AND size2mask (addrsize vie) = (creg c VM_REG_GUEST_RDI v + step) AND size2mask (addrsize vie)"
    using update_creg[OF b _ _ assms(2), of VM_REG_GUEST_RDI "creg c VM_REG_GUEST_RDI v + step" v] by auto
  then show ?thesis by (intro exI[of _ x]) (simp add: move_index_def read_creg[OF b] assms(3) split: if_splits)
qed

lemma count_down_exact:
  assumes "stopped c v" "addrsize vie \<in> {2, 4, 8}" "repeated vie" "m = size2mask (addrsize vie)"
  shows "\<exists>v'. count_down c vie rcx v = Some v' \<and> stopped c v' \<and> other_regs c v' = other_regs c v \<and> creg c VM_REG_GUEST_RDI v' = creg c VM_REG_GUEST_RDI v
    \<and> creg c VM_REG_GUEST_RCX v' AND m = (rcx - 1) AND m \<and> next_rip c v' = (if (rcx - 1) AND m \<noteq> 0 then creg c VM_REG_GUEST_RIP v else next_rip c v)"
proof -
  have b: "\<not> bad_vcpuid c" using assms(1) by (simp add: stopped_def)
  obtain x where x: "vie_update_register c VM_REG_GUEST_RCX (rcx - 1) (addrsize vie) v = (OK, set_creg c VM_REG_GUEST_RCX x v)" "x AND m = (rcx - 1) AND m"
    using update_creg[OF b _ _ assms(2), of VM_REG_GUEST_RCX "rcx - 1" v] assms(4) by auto
  let ?v = "set_creg c VM_REG_GUEST_RCX x v"
  have st: "stopped c ?v" using assms(1) by simp
  have r: "vm_restart_instruction c ?v = Some (OK, upd_vcpu (nat c) (\<lambda>p. p\<lparr>nextrip := creg c VM_REG_GUEST_RIP v\<rparr>) ?v)"
    using st b by (simp add: vm_restart_instruction_def stopped_def vm_get_register_def creg_def set_creg_def upd_vcpu_def)
  have k: "stopped c (upd_vcpu (nat c) (\<lambda>p. p\<lparr>nextrip := y\<rparr>) w) = stopped c w" "other_regs c (upd_vcpu (nat c) (\<lambda>p. p\<lparr>nextrip := y\<rparr>) w) = other_regs c w"
    "creg c q (upd_vcpu (nat c) (\<lambda>p. p\<lparr>nextrip := y\<rparr>) w) = creg c q w" "next_rip c (upd_vcpu (nat c) (\<lambda>p. p\<lparr>nextrip := y\<rparr>) w) = y" for y w q
    by (auto simp: stopped_def other_regs_def creg_def next_rip_def upd_vcpu_def fun_eq_iff)
  show ?thesis using x st r assms(3) unfolding assms(4) by (simp add: count_down_def k)
qed

definition stos_size :: "vie \<Rightarrow> nat" where
  "stos_size vie = (if op_byte (vie_op vie) = 0xAA then 1 else opsize vie)"

definition direction :: "int \<Rightarrow> nat \<Rightarrow> vm \<Rightarrow> u64" where
  "direction c n v = (if creg c VM_REG_GUEST_RFLAGS v AND PSL_D \<noteq> 0 then - word_of_nat n else word_of_nat n)"

lemma other_creg: "other_regs c v' = other_regs c v \<Longrightarrow> r \<notin> {VM_REG_GUEST_RCX, VM_REG_GUEST_RDI} \<Longrightarrow> creg c r v' = creg c r v"
  by (metis other_regs_def)

lemma stos_step:
  assumes "stopped c v" "addrsize vie \<in> {2, 4, 8}" "repeated vie" "m = size2mask (addrsize vie)" "creg c VM_REG_GUEST_RCX v AND m \<noteq> 0"
    "memwrite gpa (creg c VM_REG_GUEST_RAX v) (stos_size vie) d = (OK, d1)"
  shows "\<exists>v'. emulate_stos c gpa vie memwrite v d = Some (OK, v', d1) \<and> stopped c v' \<and> other_regs c v' = other_regs c v
    \<and> creg c VM_REG_GUEST_RDI v' AND m = (creg c VM_REG_GUEST_RDI v + direction c (stos_size vie) v) AND m \<and> creg c VM_REG_GUEST_RCX v' AND m = (creg c VM_REG_GUEST_RCX v - 1) AND m
    \<and> next_rip c v' = (if (creg c VM_REG_GUEST_RCX v - 1) AND m \<noteq> 0 then creg c VM_REG_GUEST_RIP v else next_rip c v)"
proof -
  have b: "\<not> bad_vcpuid c" using assms(1) by (simp add: stopped_def)
  obtain x where x: "move_index c vie (stos_size vie) VM_REG_GUEST_RDI v = Some (set_creg c VM_REG_GUEST_RDI x v)"
    "x AND m = (creg c VM_REG_GUEST_RDI v + direction c (stos_size vie) v) AND m"
    using move_index_exact[OF assms(1,2) direction_def] assms(4) by blast
  let ?v = "set_creg c VM_REG_GUEST_RDI x v"
  have st: "stopped c ?v" using assms(1) by simp
  obtain v' where v': "count_down c vie (creg c VM_REG_GUEST_RCX v) ?v = Some v'" "stopped c v'" "other_regs c v' = other_regs c ?v" "creg c VM_REG_GUEST_RDI v' = x"
    "creg c VM_REG_GUEST_RCX v' AND m = (creg c VM_REG_GUEST_RCX v - 1) AND m"
    "next_rip c v' = (if (creg c VM_REG_GUEST_RCX v - 1) AND m \<noteq> 0 then creg c VM_REG_GUEST_RIP v else next_rip c v)"
    using count_down_exact[OF st assms(2-4), of "creg c VM_REG_GUEST_RCX v"] by auto
  have m: "vie_size2mask (addrsize vie) = Some m" using assms(2,4) by (auto simp: vie_size2mask_def)
  have "emulate_stos c gpa vie memwrite v d = Some (OK, v', d1)"
    using assms(3,5,6) x(1) v'(1) m unfolding emulate_stos_def stos_size_def[symmetric] by (simp add: read_creg[OF b])
  then show ?thesis using v' x(2) by auto
qed

text \<open>
  The loop of the guest: each time round the instruction exits again, the next instruction pointer is set past it, and the emulation runs at the address
  \<open>tr\<close> gives for the destination index; the loop ends when the instruction pointer moves on.
\<close>

definition arrive :: "int \<Rightarrow> nat \<Rightarrow> vm \<Rightarrow> vm" where
  "arrive c len v = upd_vcpu (nat c) (\<lambda>p. p\<lparr>nextrip := cpu_regs p VM_REG_GUEST_RIP + word_of_nat len\<rparr>) v"

fun stos_loop :: "int \<Rightarrow> nat \<Rightarrow> vie \<Rightarrow> 'd memwrite \<Rightarrow> (u64 \<Rightarrow> u64) \<Rightarrow> nat \<Rightarrow> vm \<Rightarrow> 'd \<Rightarrow> (vm \<times> 'd) option" where
  "stos_loop c len vie memwrite tr 0 v d = None"
| "stos_loop c len vie memwrite tr (Suc fuel) v d =
     (case emulate_stos c (tr (creg c VM_REG_GUEST_RDI v AND size2mask (addrsize vie))) vie memwrite (arrive c len v) d of
        Some (OK, v1, d1) \<Rightarrow> if next_rip c v1 = creg c VM_REG_GUEST_RIP v1 then stos_loop c len vie memwrite tr fuel v1 d1 else Some (v1, d1)
      | _ \<Rightarrow> None)"

fun stores :: "'d memwrite \<Rightarrow> (u64 \<Rightarrow> u64) \<Rightarrow> u64 \<Rightarrow> u64 \<Rightarrow> nat \<Rightarrow> u64 \<Rightarrow> u64 \<Rightarrow> nat \<Rightarrow> 'd \<Rightarrow> 'd" where
  "stores memwrite tr m step n x rdi 0 d = d"
| "stores memwrite tr m step n x rdi (Suc k) d = stores memwrite tr m step n x (rdi + step) k (snd (memwrite (tr (rdi AND m)) x n d))"

lemma arrive_keeps [simp]:
  "stopped c (arrive c len v) = stopped c v" "creg c r (arrive c len v) = creg c r v" "other_regs c (arrive c len v) = other_regs c v"
  "next_rip c (arrive c len v) = creg c VM_REG_GUEST_RIP v + word_of_nat len" "direction c n (arrive c len v) = direction c n v"
  by (auto simp: arrive_def stopped_def creg_def other_regs_def next_rip_def direction_def upd_vcpu_def fun_eq_iff)

lemma stores_cong:
  assumes "n \<in> {2, 4, 8}"
  shows "x AND size2mask n = y AND size2mask n \<Longrightarrow> stores w tr (size2mask n) step k val x j d = stores w tr (size2mask n) step k val y j d"
proof (induction j arbitrary: x y d)
  case (Suc j)
  show ?case unfolding stores.simps Suc.prems by (rule Suc.IH[OF masked_add[OF assms Suc.prems]])
qed simp

lemma count_minus:
  assumes "n \<in> {2, 4, 8}" "x AND size2mask n = word_of_nat (Suc k)" "Suc k < 2 ^ (8 * n)"
  shows "(x - 1) AND size2mask n = word_of_nat k"
proof -
  have m: "size2mask n = mask (8 * n)" "8 * n \<le> 64" using assms(1) size2mask_mask[of n] by auto
  have "(2 :: nat) ^ (8 * n) \<le> 2 ^ 64" using m(2) by (intro power_increasing) simp_all
  then have k: "unat (word_of_nat j :: u64) = j" if "j \<le> Suc k" for j using that assms(3) by (simp add: unat_of_nat)
  have self: "word_of_nat j AND size2mask n = word_of_nat j" if "j \<le> Suc k" for j
  proof -
    have "take_bit (8 * n) (unat (word_of_nat j :: u64)) = unat (word_of_nat j :: u64)" using k[OF that] that assms(3) by (simp add: take_bit_nat_eq_self)
    then have "take_bit (8 * n) (word_of_nat j :: u64) = word_of_nat j" by (metis unsigned_take_bit_eq word_unat_eq_iff)
    then show ?thesis by (simp add: m take_bit_eq_mask)
  qed
  have "(x + - 1) AND size2mask n = (word_of_nat (Suc k) + - 1) AND size2mask n" using masked_add[OF assms(1), of x "word_of_nat (Suc k)" "- 1"] assms(2) self[of "Suc k"] by simp
  then show ?thesis using self[of k] by simp
qed

lemma count_zero: "n \<in> {2, 4, 8} \<Longrightarrow> k < 2 ^ (8 * n) \<Longrightarrow> (word_of_nat k = (0 :: u64)) = (k = 0)"
proof -
  assume n: "n \<in> {2, 4, 8}" "k < 2 ^ (8 * n)"
  from n(1) have "(2 :: nat) ^ (8 * n) \<le> 2 ^ 64" by (intro power_increasing) auto
  then have "k < 2 ^ LENGTH(64)" using n(2) by simp
  then have "\<not> 2 ^ LENGTH(64) dvd k" if "k \<noteq> 0" using that nat_dvd_not_less by blast
  then show ?thesis unfolding word_of_nat_eq_0_iff by (cases "k = 0") simp_all
qed

lemma stos_loop_exact:
  assumes "addrsize vie \<in> {2, 4, 8}" "repeated vie" "m = size2mask (addrsize vie)" "\<And>g x n d. fst (memwrite g x n d) = OK" "(word_of_nat len :: u64) \<noteq> 0"
  shows "stopped c v \<Longrightarrow> creg c VM_REG_GUEST_RCX v AND m = word_of_nat k \<Longrightarrow> k < 2 ^ (8 * addrsize vie) \<Longrightarrow> k \<le> fuel \<Longrightarrow> 0 < fuel \<Longrightarrow>
    \<exists>v'. stos_loop c len vie memwrite tr fuel v d =
        Some (v', stores memwrite tr m (direction c (stos_size vie) v) (stos_size vie) (creg c VM_REG_GUEST_RAX v) (creg c VM_REG_GUEST_RDI v) k d)
      \<and> creg c VM_REG_GUEST_RCX v' AND m = 0 \<and> creg c VM_REG_GUEST_RDI v' AND m = (creg c VM_REG_GUEST_RDI v + word_of_nat k * direction c (stos_size vie) v) AND m
      \<and> other_regs c v' = other_regs c v \<and> next_rip c v' = creg c VM_REG_GUEST_RIP v + word_of_nat len"
proof (induction k arbitrary: fuel v d)
  case 0
  obtain f where f: "fuel = Suc f" using 0(5) by (cases fuel) auto
  have m: "vie_size2mask (addrsize vie) = Some m" "\<not> bad_vcpuid c" using assms(1,3) 0(1) by (auto simp: vie_size2mask_def stopped_def)
  have "emulate_stos c (tr (creg c VM_REG_GUEST_RDI v AND m)) vie memwrite (arrive c len v) d = Some (OK, arrive c len v, d)"
    using 0(2) assms(2) m by (simp add: emulate_stos_def read_creg[OF m(2)])
  then show ?case using 0(2) assms(5) by (simp add: f assms(3)[symmetric])
next
  case (Suc k)
  let ?n = "stos_size vie" and ?x = "creg c VM_REG_GUEST_RAX v" and ?rdi = "creg c VM_REG_GUEST_RDI v"
  let ?step = "direction c ?n v"
  obtain f where f: "fuel = Suc f" using Suc.prems(5) by (cases fuel) auto
  have nz: "creg c VM_REG_GUEST_RCX (arrive c len v) AND m \<noteq> 0" using Suc.prems(2) count_zero[OF assms(1) Suc.prems(3)] by simp
  define d1 where "d1 = snd (memwrite (tr (?rdi AND m)) ?x ?n d)"
  have w: "memwrite (tr (?rdi AND m)) (creg c VM_REG_GUEST_RAX (arrive c len v)) ?n d = (OK, d1)" using assms(4)[of "tr (?rdi AND m)" ?x ?n d] by (simp add: d1_def prod_eq_iff)
  have st: "stopped c (arrive c len v)" using Suc.prems(1) by simp
  have c1: "(creg c VM_REG_GUEST_RCX v - 1) AND m = word_of_nat k" using count_minus[OF assms(1), of _ k] Suc.prems(2,3) assms(3) by simp
  obtain v1 where v1: "emulate_stos c (tr (?rdi AND m)) vie memwrite (arrive c len v) d = Some (OK, v1, d1)" "stopped c v1" "other_regs c v1 = other_regs c v"
    "creg c VM_REG_GUEST_RDI v1 AND m = (?rdi + ?step) AND m" "creg c VM_REG_GUEST_RCX v1 AND m = word_of_nat k"
    "next_rip c v1 = (if k \<noteq> 0 then creg c VM_REG_GUEST_RIP v else creg c VM_REG_GUEST_RIP v + word_of_nat len)"
    using stos_step[of c "arrive c len v" vie m memwrite "tr (?rdi AND m)" d d1, OF st assms(1-3) nz w] c1 count_zero[OF assms(1), of k] Suc.prems(3) by auto
  have o: "creg c VM_REG_GUEST_RIP v1 = creg c VM_REG_GUEST_RIP v" "creg c VM_REG_GUEST_RAX v1 = ?x" "direction c ?n v1 = ?step"
    using other_creg[OF v1(3)] by (simp_all add: direction_def)
  have loop: "stos_loop c len vie memwrite tr fuel v d = (if k \<noteq> 0 then stos_loop c len vie memwrite tr f v1 d1 else Some (v1, d1))"
    using v1(1,6) o(1) assms(5) by (simp add: f assms(3)[symmetric])
  have e: "stores memwrite tr m ?step ?n ?x (creg c VM_REG_GUEST_RDI v1) k d1 = stores memwrite tr m ?step ?n ?x ?rdi (Suc k) d"
    using stores_cong[OF assms(1), of "creg c VM_REG_GUEST_RDI v1" "?rdi + ?step" memwrite tr ?step ?n ?x k d1] v1(4) by (simp add: assms(3) d1_def)
  have r: "(creg c VM_REG_GUEST_RDI v1 + word_of_nat k * ?step) AND m = (?rdi + word_of_nat (Suc k) * ?step) AND m"
    using masked_add[OF assms(1), of "creg c VM_REG_GUEST_RDI v1" "?rdi + ?step" "word_of_nat k * ?step"] v1(4) by (simp add: assms(3) algebra_simps)
  show ?case
  proof (cases "k = 0")
    case True
    then show ?thesis using loop v1 e r by simp
  next
    case False
    then have "0 < f" "k \<le> f" using Suc.prems(4) f by simp_all
    then show ?thesis using Suc.IH[OF v1(2,5) _ _ , of f d1] False loop e r v1(3) o Suc.prems(3) by simp
  qed
qed



end
