(* ===== verification/Uart.thy ===== *)
theory Uart
  imports Libc
begin

text \<open>
  The 16550 serial port of \<^verbatim>\<open>src/src/lib/uart_emul.c\<close>. The terminal behind the port is a queue of bytes
  not yet read and a list of bytes written; the event source that watches it is a flag. Calls of
  \<^verbatim>\<open>intr_assert\<close> and \<^verbatim>\<open>intr_deassert\<close> are appended to \<open>line\<close>. Opening a back end
  (\<^verbatim>\<open>uart_set_backend\<close>, \<^verbatim>\<open>uart_tty_backend\<close>, \<^verbatim>\<open>uart_mapring\<close>) is a sequence of system calls and is left
  out: a port starts with whatever back end it was given.
\<close>

section \<open>Registers\<close>

definition COM1_BASE :: int where "COM1_BASE = 0x3F8"
definition COM1_IRQ :: int where "COM1_IRQ = 4"
definition COM2_BASE :: int where "COM2_BASE = 0x2F8"
definition COM2_IRQ :: int where "COM2_IRQ = 3"
definition DEFAULT_RCLK :: u32 where "DEFAULT_RCLK = 1843200"
definition DEFAULT_BAUD :: u32 where "DEFAULT_BAUD = 9600"
definition FCR_RX_MASK :: u8 where "FCR_RX_MASK = 0xC0"
definition MCR_OUT1 :: u8 where "MCR_OUT1 = 0x04"
definition MCR_OUT2 :: u8 where "MCR_OUT2 = 0x08"
definition MSR_DELTA_MASK :: u8 where "MSR_DELTA_MASK = 0x0f"
definition FIFOSZ :: nat where "FIFOSZ = 16"
definition REG_DATA :: int where "REG_DATA = 0"
definition REG_IER :: int where "REG_IER = 1"
definition REG_IIR :: int where "REG_IIR = 2"
definition REG_FCR :: int where "REG_FCR = 2"
definition REG_LCR :: int where "REG_LCR = 3"
definition REG_MCR :: int where "REG_MCR = 4"
definition REG_LSR :: int where "REG_LSR = 5"
definition REG_MSR :: int where "REG_MSR = 6"
definition REG_SCR :: int where "REG_SCR = 7"
definition REG_DLL :: int where "REG_DLL = 0"
definition REG_DLH :: int where "REG_DLH = 1"
definition IER_ERXRDY :: u8 where "IER_ERXRDY = 0x1"
definition IER_ETXRDY :: u8 where "IER_ETXRDY = 0x2"
definition IER_ERLS :: u8 where "IER_ERLS = 0x4"
definition IER_EMSC :: u8 where "IER_EMSC = 0x8"
definition IIR_RXTOUT :: u8 where "IIR_RXTOUT = 0xc"
definition IIR_RLS :: u8 where "IIR_RLS = 0x6"
definition IIR_TXRDY :: u8 where "IIR_TXRDY = 0x2"
definition IIR_NOPEND :: u8 where "IIR_NOPEND = 0x1"
definition IIR_MLSC :: u8 where "IIR_MLSC = 0x0"
definition IIR_FIFO_MASK :: u8 where "IIR_FIFO_MASK = 0xc0"
definition LCR_DLAB :: u8 where "LCR_DLAB = 0x80"
definition MCR_LOOPBACK :: u8 where "MCR_LOOPBACK = 0x10"
definition MCR_RTS :: u8 where "MCR_RTS = 0x02"
definition MCR_DTR :: u8 where "MCR_DTR = 0x01"
definition LSR_TEMT :: u8 where "LSR_TEMT = 0x40"
definition LSR_THRE :: u8 where "LSR_THRE = 0x20"
definition LSR_OE :: u8 where "LSR_OE = 0x02"
definition LSR_RXRDY :: u8 where "LSR_RXRDY = 0x01"
definition MSR_DCD :: u8 where "MSR_DCD = 0x80"
definition MSR_RI :: u8 where "MSR_RI = 0x40"
definition MSR_DSR :: u8 where "MSR_DSR = 0x20"
definition MSR_CTS :: u8 where "MSR_CTS = 0x10"
definition MSR_DDCD :: u8 where "MSR_DDCD = 0x08"
definition MSR_TERI :: u8 where "MSR_TERI = 0x04"
definition MSR_DDSR :: u8 where "MSR_DDSR = 0x02"
definition MSR_DCTS :: u8 where "MSR_DCTS = 0x01"
definition FCR_ENABLE :: u8 where "FCR_ENABLE = 0x01"
definition FCR_RCV_RST :: u8 where "FCR_RCV_RST = 0x02"
definition FCR_DMA :: u8 where "FCR_DMA = 0x08"

lemmas uart_regs =
  REG_DATA_def REG_IER_def REG_IIR_def REG_FCR_def REG_LCR_def REG_MCR_def REG_LSR_def REG_MSR_def
  REG_SCR_def REG_DLL_def REG_DLH_def

lemmas uart_bits =
  FCR_RX_MASK_def MCR_OUT1_def MCR_OUT2_def MSR_DELTA_MASK_def IER_ERXRDY_def IER_ETXRDY_def IER_ERLS_def
  IER_EMSC_def IIR_RXTOUT_def IIR_RLS_def IIR_TXRDY_def IIR_NOPEND_def IIR_MLSC_def IIR_FIFO_MASK_def
  LCR_DLAB_def MCR_LOOPBACK_def MCR_RTS_def MCR_DTR_def LSR_TEMT_def LSR_THRE_def LSR_OE_def LSR_RXRDY_def
  MSR_DCD_def MSR_RI_def MSR_DSR_def MSR_CTS_def MSR_DDCD_def MSR_TERI_def MSR_DDSR_def MSR_DCTS_def
  FCR_ENABLE_def FCR_RCV_RST_def FCR_DMA_def

section \<open>State\<close>

record fifo =
  buf :: "nat \<Rightarrow> u8"
  rindex :: nat
  windex :: nat
  num :: nat
  fsize :: nat

record ttyfd =
  opened :: bool
  tty_in :: "u8 list"
  tty_out :: "u8 list"

text \<open>\<open>ring = None\<close> is the null pointer.\<close>

record ringlog =
  ring :: "(nat \<Rightarrow> u8) option"
  ring_next :: nat
  ring_length :: nat

record uart_softc =
  ier :: u8
  lcr :: u8
  mcr :: u8
  lsr :: u8
  msr :: u8
  fcr :: u8
  scr :: u8
  dll :: u8
  dlh :: u8
  rxfifo :: fifo
  mev :: bool
  tty :: ttyfd
  conlog :: ringlog
  asl :: bool
  asl_out :: "u8 list"
  thre_int_pending :: bool
  line :: "bool list"

section \<open>Terminal\<close>

definition ttyread :: "uart_softc \<Rightarrow> u8 option \<times> uart_softc" where
  "ttyread sc =
     (case tty_in (tty sc) of
        [] \<Rightarrow> (None, sc)
      | rb # rest \<Rightarrow> (Some rb, sc\<lparr>tty := (tty sc)\<lparr>tty_in := rest\<rparr>\<rparr>))"

definition ttywrite :: "u8 \<Rightarrow> uart_softc \<Rightarrow> uart_softc" where
  "ttywrite wb sc = sc\<lparr>tty := (tty sc)\<lparr>tty_out := tty_out (tty sc) @ [wb]\<rparr>\<rparr>"

definition ringwrite :: "u8 \<Rightarrow> ringlog \<Rightarrow> ringlog" where
  "ringwrite wb l =
     (case ring l of
        None \<Rightarrow> l
      | Some r \<Rightarrow> l\<lparr>ring := Some (r(ring_next l := wb)),
                     ring_next := (ring_next l + 1) mod ring_length l\<rparr>)"

text \<open>The flush loop of \<^verbatim>\<open>rxfifo_reset\<close>: reads of 32 bytes until one comes back short.\<close>

fun flush_tty :: "u8 list \<Rightarrow> u8 list" where
  "flush_tty input = (if length input < 32 then [] else flush_tty (drop 32 input))"

declare flush_tty.simps [simp del]

section \<open>Receive FIFO\<close>

definition rxfifo_reset :: "nat \<Rightarrow> uart_softc \<Rightarrow> uart_softc" where
  "rxfifo_reset sz sc =
     (let sc1 = sc\<lparr>rxfifo := \<lparr>buf = (\<lambda>_. 0), rindex = 0, windex = 0, num = 0, fsize = sz\<rparr>\<rparr> in
      if opened (tty sc1)
      then sc1\<lparr>tty := (tty sc1)\<lparr>tty_in := flush_tty (tty_in (tty sc1))\<rparr>, mev := True\<rparr>
      else sc1)"

definition rxfifo_available :: "uart_softc \<Rightarrow> bool" where
  "rxfifo_available sc \<longleftrightarrow> num (rxfifo sc) < fsize (rxfifo sc)"

definition fifo_put :: "u8 \<Rightarrow> fifo \<Rightarrow> fifo" where
  "fifo_put ch f = f\<lparr>buf := (buf f)(windex f := ch), windex := (windex f + 1) mod fsize f, num := num f + 1\<rparr>"

definition fifo_get :: "fifo \<Rightarrow> u8 \<times> fifo" where
  "fifo_get f = (buf f (rindex f), f\<lparr>rindex := (rindex f + 1) mod fsize f, num := num f - 1\<rparr>)"

text \<open>The result is whether the character was taken, 0 in the code.\<close>

definition rxfifo_putchar :: "u8 \<Rightarrow> uart_softc \<Rightarrow> bool \<times> uart_softc" where
  "rxfifo_putchar ch sc =
     (if num (rxfifo sc) < fsize (rxfifo sc)
      then
        let sc1 = sc\<lparr>rxfifo := fifo_put ch (rxfifo sc)\<rparr>
        in (True, if \<not> rxfifo_available sc1 \<and> opened (tty sc1) then sc1\<lparr>mev := False\<rparr> else sc1)
      else (False, sc))"

text \<open>\<open>None\<close> is the return value -1.\<close>

definition rxfifo_getchar :: "uart_softc \<Rightarrow> u8 option \<times> uart_softc" where
  "rxfifo_getchar sc =
     (if 0 < num (rxfifo sc)
      then
        let wasfull = (\<not> rxfifo_available sc);
            (c, f) = fifo_get (rxfifo sc);
            sc1 = sc\<lparr>rxfifo := f\<rparr>
        in (Some c, if wasfull \<and> opened (tty sc1) then sc1\<lparr>mev := True\<rparr> else sc1)
      else (None, sc))"

definition rxfifo_numchars :: "uart_softc \<Rightarrow> nat" where
  "rxfifo_numchars sc = num (rxfifo sc)"

section \<open>Interrupts\<close>

definition uart_intr_reason :: "uart_softc \<Rightarrow> u8" where
  "uart_intr_reason sc =
     (if lsr sc AND LSR_OE \<noteq> 0 \<and> ier sc AND IER_ERLS \<noteq> 0 then IIR_RLS
      else if rxfifo_numchars sc > 0 \<and> ier sc AND IER_ERXRDY \<noteq> 0 then IIR_RXTOUT
      else if thre_int_pending sc \<and> ier sc AND IER_ETXRDY \<noteq> 0 then IIR_TXRDY
      else if msr sc AND MSR_DELTA_MASK \<noteq> 0 \<and> ier sc AND IER_EMSC \<noteq> 0 then IIR_MLSC
      else IIR_NOPEND)"

text \<open>The divisor is a \<^verbatim>\<open>uint16_t\<close> that is promoted to a signed 32-bit integer before the shift.\<close>

definition uart_reset :: "uart_softc \<Rightarrow> uart_softc" where
  "uart_reset sc =
     (let divisor = ucast (DEFAULT_RCLK div DEFAULT_BAUD div 16) :: u16
      in rxfifo_reset 1 (sc\<lparr>dll := ucast divisor, dlh := ucast (drop_bit 16 (ucast divisor :: u32))\<rparr>))"

definition uart_toggle_intr :: "uart_softc \<Rightarrow> uart_softc" where
  "uart_toggle_intr sc = sc\<lparr>line := line sc @ [uart_intr_reason sc \<noteq> IIR_NOPEND]\<rparr>"

lemma ttyread_shrinks: "ttyread sc = (Some ch, sc1) \<Longrightarrow> length (tty_in (tty sc1)) < length (tty_in (tty sc))"
  by (auto simp: ttyread_def split: list.splits)

lemma putchar_tty [simp]: "tty (snd (rxfifo_putchar ch sc)) = tty sc"
  by (simp add: rxfifo_putchar_def Let_def)

text \<open>The loop of \<^verbatim>\<open>uart_drain\<close>: every turn takes a byte out of the terminal.\<close>

function drain_loop :: "uart_softc \<Rightarrow> uart_softc" where
  "drain_loop sc =
     (if rxfifo_available sc
      then (case ttyread sc of
              (None, sc1) \<Rightarrow> sc1
            | (Some ch, sc1) \<Rightarrow> drain_loop (snd (rxfifo_putchar ch sc1)))
      else sc)"
  by pat_completeness auto
termination drain_loop
  by (relation "measure (\<lambda>sc. length (tty_in (tty sc)))") (auto dest: ttyread_shrinks [OF sym])

declare drain_loop.simps [simp del]

definition uart_drain :: "uart_softc \<Rightarrow> uart_softc" where
  "uart_drain sc =
     (if mcr sc AND MCR_LOOPBACK \<noteq> 0 then snd (ttyread sc)
      else uart_toggle_intr (drain_loop sc))"

section \<open>Register access\<close>

definition uart_write_mcr :: "u8 \<Rightarrow> uart_softc \<Rightarrow> uart_softc" where
  "uart_write_mcr val sc =
     (let m = val AND 0x1F;
          m0 = (if m AND MCR_LOOPBACK \<noteq> 0
                then (if m AND MCR_RTS \<noteq> 0 then MSR_CTS else 0) OR (if m AND MCR_DTR \<noteq> 0 then MSR_DSR else 0)
                     OR (if m AND MCR_OUT1 \<noteq> 0 then MSR_RI else 0) OR (if m AND MCR_OUT2 \<noteq> 0 then MSR_DCD else 0)
                else 0);
          s0 = msr sc;
          s1 = (if (m0 AND MSR_CTS) XOR (s0 AND MSR_CTS) \<noteq> 0 then s0 OR MSR_DCTS else s0);
          s2 = (if (m0 AND MSR_DSR) XOR (s1 AND MSR_DSR) \<noteq> 0 then s1 OR MSR_DDSR else s1);
          s3 = (if (m0 AND MSR_DCD) XOR (s2 AND MSR_DCD) \<noteq> 0 then s2 OR MSR_DDCD else s2);
          s4 = (if s3 AND MSR_RI \<noteq> 0 \<and> m0 AND MSR_RI = 0 then s3 OR MSR_TERI else s3)
      in sc\<lparr>mcr := m, msr := (s4 AND MSR_DELTA_MASK) OR m0\<rparr>)"

definition uart_write_fcr :: "u8 \<Rightarrow> uart_softc \<Rightarrow> uart_softc" where
  "uart_write_fcr val sc =
     (let sc1 = (if (fcr sc AND FCR_ENABLE) XOR (val AND FCR_ENABLE) \<noteq> 0
                 then rxfifo_reset (if val AND FCR_ENABLE \<noteq> 0 then FIFOSZ else 1) sc else sc)
      in if val AND FCR_ENABLE = 0 then sc1\<lparr>fcr := 0\<rparr>
         else
           let sc2 = (if val AND FCR_RCV_RST \<noteq> 0 then rxfifo_reset FIFOSZ sc1 else sc1)
           in sc2\<lparr>fcr := val AND (FCR_ENABLE OR FCR_DMA OR FCR_RX_MASK)\<rparr>)"

definition uart_write_data :: "u8 \<Rightarrow> uart_softc \<Rightarrow> uart_softc" where
  "uart_write_data val sc =
     (let sc1 =
        (if mcr sc AND MCR_LOOPBACK \<noteq> 0
         then (case rxfifo_putchar val sc of
                 (True, sc1) \<Rightarrow> sc1
               | (False, sc1) \<Rightarrow> sc1\<lparr>lsr := lsr sc1 OR LSR_OE\<rparr>)
         else if opened (tty sc)
         then
           let sc1 = ttywrite val sc;
               sc2 = (if ring (conlog sc1) \<noteq> None then sc1\<lparr>conlog := ringwrite val (conlog sc1)\<rparr> else sc1)
           in (if asl sc2 then sc2\<lparr>asl_out := asl_out sc2 @ [val]\<rparr> else sc2)
         else sc)
      in sc1\<lparr>thre_int_pending := True\<rparr>)"

definition uart_write :: "int \<Rightarrow> u8 \<Rightarrow> uart_softc \<Rightarrow> uart_softc" where
  "uart_write offset val sc =
     uart_toggle_intr
       (if lcr sc AND LCR_DLAB \<noteq> 0 \<and> offset = REG_DLL then sc\<lparr>dll := val\<rparr>
        else if lcr sc AND LCR_DLAB \<noteq> 0 \<and> offset = REG_DLH then sc\<lparr>dlh := val\<rparr>
        else if offset = REG_DATA then uart_write_data val sc
        else if offset = REG_IER then sc\<lparr>ier := val AND 0x0F\<rparr>
        else if offset = REG_FCR then uart_write_fcr val sc
        else if offset = REG_LCR then sc\<lparr>lcr := val\<rparr>
        else if offset = REG_MCR then uart_write_mcr val sc
        else if offset = REG_LSR then sc
        else if offset = REG_MSR then sc
        else if offset = REG_SCR then sc\<lparr>scr := val\<rparr>
        else sc)"

definition uart_read :: "int \<Rightarrow> uart_softc \<Rightarrow> u8 \<times> uart_softc" where
  "uart_read offset sc =
     (let (v, sc1) =
        (if lcr sc AND LCR_DLAB \<noteq> 0 \<and> offset = REG_DLL then (dll sc, sc)
         else if lcr sc AND LCR_DLAB \<noteq> 0 \<and> offset = REG_DLH then (dlh sc, sc)
         else if offset = REG_DATA
         then (case rxfifo_getchar sc of (Some c, sc1) \<Rightarrow> (c, sc1) | (None, sc1) \<Rightarrow> (- 1, sc1))
         else if offset = REG_IER then (ier sc, sc)
         else if offset = REG_IIR
         then
           let iir = (if fcr sc AND FCR_ENABLE \<noteq> 0 then IIR_FIFO_MASK else 0);
               reason = uart_intr_reason sc
           in (iir OR reason, if reason = IIR_TXRDY then sc\<lparr>thre_int_pending := False\<rparr> else sc)
         else if offset = REG_LCR then (lcr sc, sc)
         else if offset = REG_MCR then (mcr sc, sc)
         else if offset = REG_LSR
         then
           let l1 = lsr sc OR (LSR_TEMT OR LSR_THRE);
               l2 = (if rxfifo_numchars sc > 0 then l1 OR LSR_RXRDY else l1 AND NOT LSR_RXRDY)
           in (l2, sc\<lparr>lsr := l2 AND NOT LSR_OE\<rparr>)
         else if offset = REG_MSR then (msr sc, sc\<lparr>msr := msr sc AND NOT MSR_DELTA_MASK\<rparr>)
         else if offset = REG_SCR then (scr sc, sc)
         else (0xFF, sc))
      in (v, uart_toggle_intr sc1))"

section \<open>Allocation of the legacy ports\<close>

record lres =
  baseaddr :: int
  irq :: int
  inuse :: bool

definition uart_lres :: "lres list" where
  "uart_lres = [\<lparr>baseaddr = COM1_BASE, irq = COM1_IRQ, inuse = False\<rparr>,
                \<lparr>baseaddr = COM2_BASE, irq = COM2_IRQ, inuse = False\<rparr>]"

definition uart_legacy_alloc :: "int \<Rightarrow> lres list \<Rightarrow> (int \<times> int) option \<times> lres list" where
  "uart_legacy_alloc which tab =
     (if which < 0 \<or> nat which \<ge> length tab \<or> inuse (tab ! nat which) then (None, tab)
      else (Some (baseaddr (tab ! nat which), irq (tab ! nat which)),
            tab[nat which := (tab ! nat which)\<lparr>inuse := True\<rparr>]))"

text \<open>\<open>zero_softc\<close> is what \<^verbatim>\<open>calloc\<close> returns.\<close>

definition zero_softc :: uart_softc where
  "zero_softc = \<lparr>ier = 0, lcr = 0, mcr = 0, lsr = 0, msr = 0, fcr = 0, scr = 0, dll = 0, dlh = 0,
     rxfifo = \<lparr>buf = (\<lambda>_. 0), rindex = 0, windex = 0, num = 0, fsize = 0\<rparr>, mev = False,
     tty = \<lparr>opened = False, tty_in = [], tty_out = []\<rparr>, conlog = \<lparr>ring = None, ring_next = 0, ring_length = 0\<rparr>,
     asl = False, asl_out = [], thre_int_pending = False, line = []\<rparr>"

definition uart_init :: uart_softc where
  "uart_init = uart_reset zero_softc"

definition uart_opentty :: "uart_softc \<Rightarrow> uart_softc" where
  "uart_opentty sc = sc\<lparr>mev := True\<rparr>"

text \<open>
  What a successful \<^verbatim>\<open>uart_set_backend\<close> leaves behind: a terminal, a console ring or none, and the
  system log or not. A terminal that was opened is watched.
\<close>

definition with_backend :: "ttyfd \<Rightarrow> ringlog \<Rightarrow> bool \<Rightarrow> uart_softc \<Rightarrow> uart_softc" where
  "with_backend t l a sc =
     (let sc1 = sc\<lparr>tty := t, conlog := l, asl := a\<rparr> in if opened t then uart_opentty sc1 else sc1)"

text \<open>What can happen to a port: the guest's accesses, input arriving, and the event loop's call.\<close>

datatype uart_op =
  Write int u8
| Read int
| Arrive "u8 list"
| Drain

fun uart_step :: "uart_op \<Rightarrow> uart_softc \<Rightarrow> uart_softc" where
  "uart_step (Write off v) sc = uart_write off v sc"
| "uart_step (Read off) sc = snd (uart_read off sc)"
| "uart_step (Arrive bs) sc = sc\<lparr>tty := (tty sc)\<lparr>tty_in := tty_in (tty sc) @ bs\<rparr>\<rparr>"
| "uart_step Drain sc = (if opened (tty sc) \<and> mev sc then uart_drain sc else sc)"

section \<open>Bounded queues\<close>

primrec get_n :: "('q \<Rightarrow> 'a \<times> 'q) \<Rightarrow> nat \<Rightarrow> 'q \<Rightarrow> 'a list \<times> 'q" where
  "get_n get 0 q = ([], q)"
| "get_n get (Suc n) q = (let (x, q1) = get q; (xs, q2) = get_n get n q1 in (x # xs, q2))"

text \<open>The contract of a first-in first-out queue of bounded capacity.\<close>

locale bounded_queue =
  fixes invar :: "'q \<Rightarrow> bool"
    and cap :: "'q \<Rightarrow> nat"
    and items :: "'q \<Rightarrow> 'a list"
    and put :: "'a \<Rightarrow> 'q \<Rightarrow> 'q"
    and get :: "'q \<Rightarrow> 'a \<times> 'q"
  assumes put_invar: "\<lbrakk>invar q; length (items q) < cap q\<rbrakk> \<Longrightarrow> invar (put x q)"
    and put_items: "\<lbrakk>invar q; length (items q) < cap q\<rbrakk> \<Longrightarrow> items (put x q) = items q @ [x]"
    and put_cap: "\<lbrakk>invar q; length (items q) < cap q\<rbrakk> \<Longrightarrow> cap (put x q) = cap q"
    and get_invar: "\<lbrakk>invar q; items q = x # xs\<rbrakk> \<Longrightarrow> invar (snd (get q))"
    and get_items: "\<lbrakk>invar q; items q = x # xs\<rbrakk> \<Longrightarrow> fst (get q) = x \<and> items (snd (get q)) = xs"
begin

lemma put_all:
  "\<lbrakk>invar q; length (items q) + length xs \<le> cap q\<rbrakk> \<Longrightarrow>
   invar (fold put xs q) \<and> items (fold put xs q) = items q @ xs"
  by (induction xs arbitrary: q) (simp_all add: put_invar put_items put_cap)

lemma get_all:
  "\<lbrakk>invar q; n \<le> length (items q)\<rbrakk> \<Longrightarrow>
   fst (get_n get n q) = take n (items q) \<and> items (snd (get_n get n q)) = drop n (items q)"
proof (induction n arbitrary: q)
  case (Suc n)
  then obtain x xs where q: "items q = x # xs" by (cases "items q") auto
  show ?case
    using Suc.IH [OF get_invar [OF Suc.prems(1) q]] get_items [OF Suc.prems(1) q] Suc.prems(2) q
    by (auto simp: Let_def split: prod.splits)
qed simp

lemma put_get_all:
  assumes "invar q" "items q = []" "length xs \<le> cap q"
  shows "fst (get_n get (length xs) (fold put xs q)) = xs"
    and "items (snd (get_n get (length xs) (fold put xs q))) = []"
  using put_all [of q xs] get_all [of "fold put xs q" "length xs"] assms by simp_all

end

section \<open>The ring buffer is a bounded queue\<close>

definition fifo_items :: "fifo \<Rightarrow> u8 list" where
  "fifo_items f = map (\<lambda>i. buf f ((rindex f + i) mod fsize f)) [0..<num f]"

definition fifo_ok :: "fifo \<Rightarrow> bool" where
  "fifo_ok f \<longleftrightarrow> 0 < fsize f \<and> fsize f \<le> FIFOSZ \<and> num f \<le> fsize f \<and> rindex f < fsize f
     \<and> windex f = (rindex f + num f) mod fsize f"

lemma length_fifo_items [simp]: "length (fifo_items f) = num f"
  by (simp add: fifo_items_def)

lemma mod_add_inj:
  fixes r i n k :: nat
  assumes "i < k" "k < n" shows "(r + i) mod n \<noteq> (r + k) mod n"
proof
  assume "(r + i) mod n = (r + k) mod n"
  with assms have "n dvd k - i" using mod_eq_dvd_iff_nat [of "r + i" "r + k" n] by simp
  with assms show False by (auto dest: dvd_imp_le)
qed

lemma fifo_put_ok: "\<lbrakk>fifo_ok f; num f < fsize f\<rbrakk> \<Longrightarrow> fifo_ok (fifo_put ch f)"
  by (simp add: fifo_ok_def fifo_put_def mod_Suc_eq)

lemma fifo_put_items:
  assumes "fifo_ok f" "num f < fsize f"
  shows "fifo_items (fifo_put ch f) = fifo_items f @ [ch]"
proof -
  have "(rindex f + i) mod fsize f \<noteq> windex f" if "i < num f" for i
    using mod_add_inj [OF that assms(2)] assms(1) by (simp add: fifo_ok_def)
  then show ?thesis using assms by (simp add: fifo_items_def fifo_put_def fifo_ok_def)
qed

lemma fifo_get_ok: "\<lbrakk>fifo_ok f; 0 < num f\<rbrakk> \<Longrightarrow> fifo_ok (snd (fifo_get f))"
  by (cases "num f") (auto simp: fifo_ok_def fifo_get_def mod_simps)

lemma fifo_get_items:
  assumes "fifo_ok f" "fifo_items f = x # xs"
  shows "fst (fifo_get f) = x" "fifo_items (snd (fifo_get f)) = xs"
proof -
  from assms(2) obtain n where n: "num f = Suc n" by (cases "num f") (auto simp: fifo_items_def)
  have "fifo_items f = buf f (rindex f) # map (\<lambda>i. buf f ((rindex f + Suc i) mod fsize f)) [0..<n]"
    using assms(1) by (simp add: fifo_items_def n fifo_ok_def upt_conv_Cons map_Suc_upt [symmetric] del: upt_Suc)
  with assms(2) show "fst (fifo_get f) = x" "fifo_items (snd (fifo_get f)) = xs"
    by (auto simp: fifo_get_def fifo_items_def n mod_simps)
qed

interpretation ringq: bounded_queue fifo_ok fsize fifo_items fifo_put fifo_get
proof (unfold_locales, goal_cases)
  case (4 q x xs)
  then have "0 < num q" by (metis length_fifo_items length_Cons zero_less_Suc)
  with 4 show ?case by (simp add: fifo_get_ok)
qed (simp_all add: fifo_put_ok fifo_put_items fifo_get_items, simp add: fifo_put_def)

abbreviation rx :: "uart_softc \<Rightarrow> u8 list" where "rx sc \<equiv> fifo_items (rxfifo sc)"

abbreviation depth :: "uart_softc \<Rightarrow> nat" where "depth sc \<equiv> fsize (rxfifo sc)"

lemma getchar_rx:
  assumes "fifo_ok (rxfifo sc)"
  shows "rxfifo_getchar sc =
    (case rx sc of
       [] \<Rightarrow> (None, sc)
     | x # xs \<Rightarrow> (Some x, sc\<lparr>rxfifo := snd (fifo_get (rxfifo sc)),
         mev := (if num (rxfifo sc) = depth sc \<and> opened (tty sc) then True else mev sc)\<rparr>))"
proof (cases "rx sc")
  case Nil
  then have "num (rxfifo sc) = 0" by (metis length_fifo_items list.size(3))
  with Nil show ?thesis by (simp add: rxfifo_getchar_def)
next
  case (Cons x xs)
  then have "0 < num (rxfifo sc)" by (metis length_fifo_items length_Cons zero_less_Suc)
  moreover have "\<not> num (rxfifo sc) < depth sc \<longleftrightarrow> num (rxfifo sc) = depth sc"
    using assms by (auto simp: fifo_ok_def)
  ultimately show ?thesis
    using fifo_get_items(1) [OF assms Cons] Cons
    by (auto simp: rxfifo_getchar_def Let_def rxfifo_available_def split: prod.splits)
qed

lemma putchar_rx:
  assumes "fifo_ok (rxfifo sc)"
  shows "rxfifo_putchar ch sc =
    (if length (rx sc) < depth sc
     then (True, sc\<lparr>rxfifo := fifo_put ch (rxfifo sc),
             mev := (if num (rxfifo sc) + 1 = depth sc \<and> opened (tty sc) then False else mev sc)\<rparr>)
     else (False, sc))"
  using assms by (auto simp: rxfifo_putchar_def Let_def rxfifo_available_def fifo_put_def fifo_ok_def)

section \<open>Invariant of a port\<close>

text \<open>The watch on the terminal is off exactly while the FIFO is full.\<close>

definition watch_ok :: "uart_softc \<Rightarrow> bool" where
  "watch_ok sc \<longleftrightarrow> (opened (tty sc) \<longrightarrow> mev sc = (length (rx sc) < depth sc))"

definition line_ok :: "uart_softc \<Rightarrow> bool" where
  "line_ok sc \<longleftrightarrow> (line sc \<noteq> [] \<longrightarrow> last (line sc) = (uart_intr_reason sc \<noteq> IIR_NOPEND))"

definition regs_ok :: "uart_softc \<Rightarrow> bool" where
  "regs_ok sc \<longleftrightarrow> ier sc < 16 \<and> mcr sc < 32 \<and> depth sc = (if fcr sc AND FCR_ENABLE \<noteq> 0 then FIFOSZ else 1)"

definition uart_inv :: "uart_softc \<Rightarrow> bool" where
  "uart_inv sc \<longleftrightarrow> fifo_ok (rxfifo sc) \<and> watch_ok sc \<and> regs_ok sc"

lemma flush_tty_empty [simp]: "flush_tty input = []"
  by (induction input rule: flush_tty.induct) (subst flush_tty.simps, simp)

lemma toggle_inv [simp]: "uart_inv (uart_toggle_intr sc) = uart_inv sc"
  by (simp add: uart_inv_def uart_toggle_intr_def watch_ok_def regs_ok_def)

lemma toggle_line [simp]: "line_ok (uart_toggle_intr sc)"
  by (simp add: line_ok_def uart_toggle_intr_def uart_intr_reason_def rxfifo_numchars_def)

lemma reset_fields:
  "fifo_ok (rxfifo (rxfifo_reset sz sc)) \<longleftrightarrow> 0 < sz \<and> sz \<le> FIFOSZ"
  "watch_ok (rxfifo_reset sz sc) \<longleftrightarrow> (opened (tty sc) \<longrightarrow> 0 < sz)"
  "depth (rxfifo_reset sz sc) = sz" "ier (rxfifo_reset sz sc) = ier sc" "mcr (rxfifo_reset sz sc) = mcr sc"
  "fcr (rxfifo_reset sz sc) = fcr sc"
  by (auto simp: rxfifo_reset_def Let_def fifo_ok_def watch_ok_def)

lemma putchar_inv: "uart_inv sc \<Longrightarrow> uart_inv (snd (rxfifo_putchar ch sc))"
  by (auto simp: uart_inv_def putchar_rx fifo_put_ok watch_ok_def regs_ok_def fifo_put_items)
     (simp_all add: fifo_put_def fifo_ok_def)

lemma getchar_inv: "uart_inv sc \<Longrightarrow> uart_inv (snd (rxfifo_getchar sc))"
proof (cases "rx sc")
  case (Cons x xs)
  assume inv: "uart_inv sc"
  then have ok: "fifo_ok (rxfifo sc)" by (simp add: uart_inv_def)
  have len: "num (rxfifo sc) = Suc (length xs)" by (metis Cons length_Cons length_fifo_items)
  have dep: "fsize (snd (fifo_get f)) = fsize f" "num (snd (fifo_get f)) = num f - 1" for f
    by (simp_all add: fifo_get_def)
  show ?thesis
    using inv ok fifo_get_ok [OF ok] len dep
    by (auto simp: getchar_rx Cons uart_inv_def watch_ok_def regs_ok_def fifo_ok_def)
qed (simp add: uart_inv_def getchar_rx)

lemma and_mask_bounds: "(v :: u8) AND 0xF < 16" "(v :: u8) AND 0x1F < 32"
  using word_and_le1 [of v "0xF"] word_and_le1 [of v "0x1F"] by (auto simp: word_le_nat_alt word_less_nat_alt)

lemma fcr_enable_kept: "(v AND (FCR_ENABLE OR FCR_DMA OR FCR_RX_MASK)) AND FCR_ENABLE = v AND FCR_ENABLE"
  by (simp add: uart_bits and.assoc)

lemma xor_eq_zero: "(v :: u8) XOR w = 0 \<longleftrightarrow> v = w"
proof
  assume "v XOR w = 0"
  then have "bit v i = bit w i" for i by (metis bit_0_eq bit_xor_iff bot_apply bot_bool_def)
  then show "v = w" by (rule bit_eqI)
qed simp

lemma write_fcr_inv: "uart_inv sc \<Longrightarrow> uart_inv (uart_write_fcr v sc)"
proof -
  assume inv: "uart_inv sc"
  have upd: "fifo_ok (rxfifo (s\<lparr>fcr := w\<rparr>)) = fifo_ok (rxfifo s)" "watch_ok (s\<lparr>fcr := w\<rparr>) = watch_ok s" for s w
    by (simp_all add: watch_ok_def)
  show ?thesis
    using inv
    by (auto simp: uart_write_fcr_def Let_def uart_inv_def upd regs_ok_def reset_fields fcr_enable_kept xor_eq_zero FIFOSZ_def)
qed

lemma write_data_inv: "uart_inv sc \<Longrightarrow> uart_inv (uart_write_data v sc)"
proof -
  assume inv: "uart_inv sc"
  have upd: "uart_inv (s\<lparr>lsr := l\<rparr>) = uart_inv s" "uart_inv (s\<lparr>thre_int_pending := b\<rparr>) = uart_inv s"
    "uart_inv (s\<lparr>conlog := c\<rparr>) = uart_inv s" "uart_inv (s\<lparr>asl_out := ao\<rparr>) = uart_inv s"
    "uart_inv (ttywrite v s) = uart_inv s" for s l b c ao
    by (simp_all add: uart_inv_def watch_ok_def regs_ok_def ttywrite_def)
  show ?thesis
    using inv putchar_inv [OF inv, of v]
    by (auto simp: uart_write_data_def Let_def upd split: prod.splits bool.splits)
qed

lemma write_mcr_inv: "uart_inv sc \<Longrightarrow> uart_inv (uart_write_mcr v sc)"
proof -
  have "uart_inv sc \<Longrightarrow> uart_inv (sc\<lparr>mcr := v AND 0x1F, msr := m\<rparr>)" for m
    using and_mask_bounds(2) [of v] by (simp add: uart_inv_def watch_ok_def regs_ok_def)
  then show "uart_inv sc \<Longrightarrow> uart_inv (uart_write_mcr v sc)" unfolding uart_write_mcr_def Let_def .
qed

lemma write_inv: "uart_inv sc \<Longrightarrow> uart_inv (uart_write off v sc)"
proof -
  assume inv: "uart_inv sc"
  have upd: "uart_inv (sc\<lparr>dll := v\<rparr>)" "uart_inv (sc\<lparr>dlh := v\<rparr>)" "uart_inv (sc\<lparr>lcr := v\<rparr>)" "uart_inv (sc\<lparr>scr := v\<rparr>)"
    "uart_inv (sc\<lparr>ier := v AND 0x0F\<rparr>)"
    using inv and_mask_bounds(1) [of v] by (simp_all add: uart_inv_def watch_ok_def regs_ok_def)
  show ?thesis
    unfolding uart_write_def toggle_inv
    using inv upd write_fcr_inv [OF inv, of v] write_data_inv [OF inv, of v] write_mcr_inv [OF inv, of v] by simp
qed

lemma read_inv: "uart_inv sc \<Longrightarrow> uart_inv (snd (uart_read off sc))"
proof -
  assume inv: "uart_inv sc"
  have upd: "uart_inv (sc\<lparr>lsr := l\<rparr>)" "uart_inv (sc\<lparr>thre_int_pending := b\<rparr>)" "uart_inv (sc\<lparr>msr := m\<rparr>)" for l b m
    using inv by (simp_all add: uart_inv_def watch_ok_def regs_ok_def)
  have data: "uart_inv (snd (case rxfifo_getchar sc of (Some c, s) \<Rightarrow> (c, s) | (None, s) \<Rightarrow> (- 1, s)))"
    using getchar_inv [OF inv] by (auto split: prod.splits option.splits)
  have if_inv: "uart_inv (snd (if b then x else y)) = (if b then uart_inv (snd x) else uart_inv (snd y))"
    for b :: bool and x y :: "u8 \<times> uart_softc" by simp
  show ?thesis
    unfolding uart_read_def Let_def split_beta [of "\<lambda>v s. (v, uart_toggle_intr s)"] snd_conv toggle_inv if_inv
    using inv upd data by simp
qed

lemma ttyread_inv: "uart_inv (snd (ttyread sc)) = uart_inv sc"
  by (auto simp: ttyread_def uart_inv_def watch_ok_def regs_ok_def split: list.splits)

lemma drain_loop_inv: "uart_inv sc \<Longrightarrow> uart_inv (drain_loop sc)"
proof (induction sc rule: drain_loop.induct)
  case (1 sc)
  then have "uart_inv (snd (ttyread sc))" by (simp add: ttyread_inv)
  then show ?case
    using 1 by (subst drain_loop.simps) (auto simp: putchar_inv split: prod.splits option.splits)
qed

lemma drain_inv: "uart_inv sc \<Longrightarrow> uart_inv (uart_drain sc)"
  by (simp add: uart_drain_def ttyread_inv drain_loop_inv)

lemma step_inv: "uart_inv sc \<Longrightarrow> uart_inv (uart_step op sc)"
  by (cases op) (simp_all add: write_inv read_inv drain_inv, simp_all add: uart_inv_def watch_ok_def regs_ok_def)

lemma write_line: "line_ok (uart_write off v sc)"
  unfolding uart_write_def by (rule toggle_line)

lemma read_line: "line_ok (snd (uart_read off sc))"
  unfolding uart_read_def Let_def split_def snd_conv by (rule toggle_line)

lemma input_line: "line_ok (sc\<lparr>tty := t\<rparr>) = line_ok sc"
  by (simp add: line_ok_def uart_intr_reason_def rxfifo_numchars_def)

lemma drain_line: "line_ok sc \<Longrightarrow> line_ok (uart_drain sc)"
  by (simp add: uart_drain_def ttyread_def input_line split: list.splits)

lemma step_line: "line_ok sc \<Longrightarrow> line_ok (uart_step op sc)"
  by (cases op) (simp_all add: write_line read_line drain_line input_line)

definition uart_start :: "uart_softc \<Rightarrow> bool" where
  "uart_start sc \<longleftrightarrow> (\<exists>t l a. sc = with_backend t l a uart_init)"

lemma start_inv: "uart_inv (with_backend t l a uart_init) \<and> line_ok (with_backend t l a uart_init)"
  by (simp add: with_backend_def uart_init_def uart_reset_def zero_softc_def rxfifo_reset_def Let_def uart_opentty_def
      uart_inv_def line_ok_def watch_ok_def regs_ok_def fifo_ok_def FIFOSZ_def)

interpretation uart_run: machine uart_start uart_step "\<lambda>sc. uart_inv sc \<and> line_ok sc"
  by unfold_locales (use start_inv in \<open>auto simp: uart_start_def step_inv step_line\<close>)

section \<open>The looped-back port is a bounded queue too\<close>

definition looped :: "uart_softc \<Rightarrow> bool" where
  "looped sc \<longleftrightarrow> uart_inv sc \<and> mcr sc AND MCR_LOOPBACK \<noteq> 0 \<and> lcr sc AND LCR_DLAB = 0"

lemma looped_ok: "looped sc \<Longrightarrow> fifo_ok (rxfifo sc)"
  by (simp add: looped_def uart_inv_def)

lemma toggle_fields [simp]:
  "mcr (uart_toggle_intr sc) = mcr sc" "lcr (uart_toggle_intr sc) = lcr sc"
  "rxfifo (uart_toggle_intr sc) = rxfifo sc" "tty (uart_toggle_intr sc) = tty sc"
  by (simp_all add: uart_toggle_intr_def)

lemma looped_write:
  assumes "looped sc" "length (rx sc) < depth sc"
  shows "rxfifo (uart_write REG_DATA x sc) = fifo_put x (rxfifo sc)" "looped (uart_write REG_DATA x sc)"
proof -
  have ok: "fifo_ok (rxfifo sc)" using assms(1) by (rule looped_ok)
  have *: "lcr sc AND LCR_DLAB = 0" "mcr sc AND MCR_LOOPBACK \<noteq> 0" using assms(1) by (simp_all add: looped_def)
  have "uart_inv (uart_write REG_DATA x sc)" using assms(1) by (simp add: looped_def write_inv)
  then show "rxfifo (uart_write REG_DATA x sc) = fifo_put x (rxfifo sc)" "looped (uart_write REG_DATA x sc)"
    using assms(2) * by (simp_all add: uart_write_def uart_write_data_def Let_def putchar_rx [OF ok] looped_def)
qed

lemma looped_read:
  assumes "looped sc" "rx sc = x # xs"
  shows "fst (uart_read REG_DATA sc) = x" "rxfifo (snd (uart_read REG_DATA sc)) = snd (fifo_get (rxfifo sc))"
    "looped (snd (uart_read REG_DATA sc))"
proof -
  have ok: "fifo_ok (rxfifo sc)" using assms(1) by (rule looped_ok)
  have *: "lcr sc AND LCR_DLAB = 0" "mcr sc AND MCR_LOOPBACK \<noteq> 0" using assms(1) by (simp_all add: looped_def)
  have inv: "uart_inv (snd (uart_read REG_DATA sc))" using assms(1) by (simp add: looped_def read_inv)
  show "fst (uart_read REG_DATA sc) = x" "rxfifo (snd (uart_read REG_DATA sc)) = snd (fifo_get (rxfifo sc))"
    using * by (simp_all add: uart_read_def getchar_rx [OF ok] assms(2))
  show "looped (snd (uart_read REG_DATA sc))"
    using inv * by (simp add: looped_def uart_read_def getchar_rx [OF ok] assms(2))
qed

interpretation loopq: bounded_queue looped depth rx "uart_write REG_DATA" "uart_read REG_DATA"
proof (unfold_locales, goal_cases)
  case (5 q x xs)
  then have "fifo_ok (rxfifo q)" by (simp add: looped_ok)
  with 5 show ?case by (simp add: looped_read fifo_get_items)
qed (simp_all add: looped_write looped_read looped_ok fifo_put_items, simp add: fifo_put_def)

section \<open>Draining the terminal\<close>

lemma drain_loop_moves:
  "uart_inv sc \<Longrightarrow>
   rx (drain_loop sc) @ tty_in (tty (drain_loop sc)) = rx sc @ tty_in (tty sc)
   \<and> (tty_in (tty (drain_loop sc)) = [] \<or> length (rx (drain_loop sc)) = depth (drain_loop sc))"
proof (induction sc rule: drain_loop.induct)
  case (1 sc)
  have ok: "fifo_ok (rxfifo sc)" using 1 by (simp add: uart_inv_def)
  show ?case
  proof (cases "tty_in (tty sc)")
    case Nil
    then show ?thesis by (simp add: drain_loop.simps [of sc] ttyread_def)
  next
    case (Cons c cs)
    define s1 where "s1 = sc\<lparr>tty := (tty sc)\<lparr>tty_in := cs\<rparr>\<rparr>"
    have rd: "ttyread sc = (Some c, s1)" by (simp add: ttyread_def Cons s1_def)
    show ?thesis
    proof (cases "rxfifo_available sc")
      case True
      then have room: "num (rxfifo s1) < depth s1" by (simp add: rxfifo_available_def s1_def)
      have inv: "uart_inv s1" using 1(2) ttyread_inv [of sc] rd by simp
      have ok1: "fifo_ok (rxfifo s1)" using inv by (simp add: uart_inv_def)
      have "rx (snd (rxfifo_putchar c s1)) = rx sc @ [c]"
        using room by (simp add: putchar_rx [OF ok1] fifo_put_items [OF ok1]) (simp add: s1_def)
      moreover have "tty_in (tty s1) = cs" by (simp add: s1_def)
      ultimately show ?thesis
        using 1(1) [OF True rd [symmetric] refl putchar_inv [OF inv]] by (simp add: drain_loop.simps [of sc] True rd Cons)
    next
      case False
      with ok show ?thesis by (simp add: drain_loop.simps [of sc] rxfifo_available_def fifo_ok_def)
    qed
  qed
qed

section \<open>Properties\<close>

text \<open>
  C17 (refinement). After any sequence of guest accesses and terminal events the ring buffer behind the
  receive register is a first-in first-out queue of the configured depth: \<^verbatim>\<open>rxfifo_putchar\<close> appends the
  character, or reports failure and changes nothing when the queue is full, and \<^verbatim>\<open>rxfifo_getchar\<close>
  takes the oldest character, or reports -1 and changes nothing when it is empty.
\<close>

theorem rxfifo_refines_queue:
  "let sc = fold uart_step ops (with_backend t l a uart_init)
   in fst (rxfifo_putchar ch sc) = (length (rx sc) < depth sc)
      \<and> rx (snd (rxfifo_putchar ch sc)) = (if length (rx sc) < depth sc then rx sc @ [ch] else rx sc)
      \<and> fst (rxfifo_getchar sc) = (case rx sc of [] \<Rightarrow> None | x # _ \<Rightarrow> Some x)
      \<and> rx (snd (rxfifo_getchar sc)) = tl (rx sc)"
proof -
  define sc where "sc = fold uart_step ops (with_backend t l a uart_init)"
  have "uart_inv sc" using uart_run.run_invar [of "with_backend t l a uart_init" ops] by (auto simp: sc_def uart_start_def)
  then have ok: "fifo_ok (rxfifo sc)" by (simp add: uart_inv_def)
  have "fst (rxfifo_getchar sc) = (case rx sc of [] \<Rightarrow> None | x # _ \<Rightarrow> Some x)" "rx (snd (rxfifo_getchar sc)) = tl (rx sc)"
    using fifo_get_items(2) [OF ok] by (auto simp: getchar_rx [OF ok] split: list.splits)
  then show ?thesis by (simp add: Let_def sc_def [symmetric] putchar_rx [OF ok] fifo_put_items [OF ok])
qed

text \<open>
  C35 (invariant). After any sequence of events the interrupt pin was last driven to the level that
  the pending interrupt reason asks for, the enable and modem control registers hold only their defined
  bits, the FIFO never holds more characters than its depth, which is 16 in FIFO mode and 1 otherwise, and
  an open terminal is watched exactly while there is room for a character.
\<close>

theorem uart_run_invariant:
  "let sc = fold uart_step ops (with_backend t l a uart_init)
   in (line sc = [] \<or> last (line sc) = (uart_intr_reason sc \<noteq> IIR_NOPEND))
      \<and> ier sc < 16 \<and> mcr sc < 32
      \<and> length (rx sc) \<le> depth sc \<and> depth sc = (if fcr sc AND FCR_ENABLE \<noteq> 0 then 16 else 1)
      \<and> (if opened (tty sc) then mev sc = (length (rx sc) < depth sc) else True)"
proof -
  define sc where "sc = fold uart_step ops (with_backend t l a uart_init)"
  have "uart_inv sc \<and> line_ok sc"
    using uart_run.run_invar [of "with_backend t l a uart_init" ops] by (auto simp: sc_def uart_start_def)
  then show ?thesis
    by (auto simp: Let_def sc_def [symmetric] uart_inv_def line_ok_def watch_ok_def regs_ok_def fifo_ok_def FIFOSZ_def)
qed

text \<open>
  In loopback mode, with the divisor latch closed and nothing received, up to a FIFO
  depth of bytes written to the data register are read back from it in the same order, and the FIFO is
  then empty again.
\<close>

theorem loopback_roundtrip:
  assumes "sc = fold uart_step ops (with_backend t l a uart_init)"
    and "mcr sc AND MCR_LOOPBACK \<noteq> 0" and "lcr sc AND LCR_DLAB = 0" and "rx sc = []" and "length bs \<le> depth sc"
  shows "fst (get_n (uart_read REG_DATA) (length bs) (fold (uart_write REG_DATA) bs sc)) = bs
    \<and> rx (snd (get_n (uart_read REG_DATA) (length bs) (fold (uart_write REG_DATA) bs sc))) = []"
proof -
  have "uart_inv sc"
    using uart_run.run_invar [of "with_backend t l a uart_init" ops] assms(1) by (auto simp: uart_start_def)
  then have "looped sc" using assms(2,3) by (simp add: looped_def)
  then show ?thesis using loopq.put_get_all [of sc bs] assms(4,5) by simp
qed

definition no_tty :: ttyfd where "no_tty = \<lparr>opened = False, tty_in = [], tty_out = []\<rparr>"
definition no_ring :: ringlog where "no_ring = \<lparr>ring = None, ring_next = 0, ring_length = 0\<rparr>"

definition loop_port :: uart_softc where
  "loop_port = fold uart_step [Write REG_FCR 1, Write REG_MCR 0x10] (with_backend no_tty no_ring False uart_init)"

lemmas uart_start_defs =
  no_tty_def no_ring_def with_backend_def uart_init_def uart_reset_def zero_softc_def rxfifo_reset_def uart_opentty_def
  fifo_items_def

lemma loop_port_state:
  "mcr loop_port = 0x10" "lcr loop_port = 0" "rx loop_port = []" "depth loop_port = 16"
  by (simp_all add: loop_port_def uart_start_defs Let_def uart_write_def uart_regs uart_write_fcr_def uart_write_mcr_def
      uart_toggle_intr_def uart_bits FIFOSZ_def)

theorem loopback_roundtrip_witness:
  "fst (get_n (uart_read REG_DATA) (length [7, 8, 9 :: u8]) (fold (uart_write REG_DATA) [7, 8, 9] loop_port)) = [7, 8, 9]"
  by (rule conjunct1 [OF loopback_roundtrip [OF loop_port_def]]) (simp_all add: loop_port_state uart_bits)

text \<open>
  Outside loopback mode a call of \<^verbatim>\<open>uart_drain\<close> neither loses, duplicates nor reorders
  input: the characters in the FIFO followed by those still in the terminal are the same before and after,
  and it stops only when the terminal is empty or the FIFO is full.
\<close>

theorem drain_preserves_input:
  assumes "sc = fold uart_step ops (with_backend t l a uart_init)" and "mcr sc AND MCR_LOOPBACK = 0"
  shows "rx (uart_drain sc) @ tty_in (tty (uart_drain sc)) = rx sc @ tty_in (tty sc)
    \<and> (tty_in (tty (uart_drain sc)) = [] \<or> length (rx (uart_drain sc)) = depth (uart_drain sc))"
proof -
  have "uart_inv sc"
    using uart_run.run_invar [of "with_backend t l a uart_init" ops] assms(1) by (auto simp: uart_start_def)
  from drain_loop_moves [OF this] show ?thesis using assms(2) by (simp add: uart_drain_def)
qed

definition busy_port :: uart_softc where
  "busy_port = fold uart_step [] (with_backend \<lparr>opened = True, tty_in = [65, 66], tty_out = []\<rparr> no_ring False uart_init)"

lemma busy_port_state: "mcr busy_port = 0" "rx busy_port = []" "tty_in (tty busy_port) = [65, 66]"
  by (simp_all add: busy_port_def uart_start_defs Let_def)

theorem drain_preserves_input_witness:
  "rx (uart_drain busy_port) @ tty_in (tty (uart_drain busy_port)) = [65, 66]"
  using drain_preserves_input [OF busy_port_def] by (simp add: busy_port_state)

end
