(* ===== verification/Vatpit.thy ===== *)
theory Vatpit
  imports Callout "HOL-Library.Signed_Division"
begin

text \<open>
  The 8254 interval timer of \<^verbatim>\<open>src/src/lib/vmm/io/vatpit.c\<close>. Every operation takes the uptime
  \<open>now\<close> it reads from \<^verbatim>\<open>sbinuptime\<close>; all readings within one operation are the same. The callout of a
  channel is its two flags and its target time. The pulses sent to the two interrupt controllers are
  appended to \<open>pit_irqs\<close> as the pair of pins they are sent to.
\<close>

section \<open>Registers and state\<close>

definition IO_TIMER1 :: int where "IO_TIMER1 = 0x40"
definition TIMER_CNTR0 :: int where "TIMER_CNTR0 = IO_TIMER1 + 0"
definition TIMER_CNTR1 :: int where "TIMER_CNTR1 = IO_TIMER1 + 1"
definition TIMER_CNTR2 :: int where "TIMER_CNTR2 = IO_TIMER1 + 2"
definition TIMER_MODE :: int where "TIMER_MODE = IO_TIMER1 + 3"
definition TIMER_SEL_MASK :: u8 where "TIMER_SEL_MASK = 0xc0"
definition TIMER_RW_MASK :: u8 where "TIMER_RW_MASK = 0x30"
definition TIMER_MODE_MASK :: u8 where "TIMER_MODE_MASK = 0x0f"
definition TIMER_SEL_READBACK :: u8 where "TIMER_SEL_READBACK = 0xc0"
definition TIMER_STS_OUT :: u8 where "TIMER_STS_OUT = 0x80"
definition TIMER_STS_NULLCNT :: u8 where "TIMER_STS_NULLCNT = 0x40"
definition TIMER_RB_LCTR :: u8 where "TIMER_RB_LCTR = 0x20"
definition TIMER_RB_LSTATUS :: u8 where "TIMER_RB_LSTATUS = 0x10"
definition TIMER_RB_CTR_2 :: u8 where "TIMER_RB_CTR_2 = 0x08"
definition TIMER_RB_CTR_1 :: u8 where "TIMER_RB_CTR_1 = 0x04"
definition TIMER_RB_CTR_0 :: u8 where "TIMER_RB_CTR_0 = 0x02"
definition TMR2_OUT_STS :: u32 where "TMR2_OUT_STS = 0x20"
definition TIMER_INTTC :: u8 where "TIMER_INTTC = 0x00"
definition TIMER_RATEGEN :: u8 where "TIMER_RATEGEN = 0x04"
definition TIMER_SQWAVE :: u8 where "TIMER_SQWAVE = 0x06"
definition TIMER_SWSTROBE :: u8 where "TIMER_SWSTROBE = 0x08"
definition TIMER_LATCH :: u8 where "TIMER_LATCH = 0x00"
definition TIMER_16BIT :: u8 where "TIMER_16BIT = 0x30"
definition PIT_8254_FREQ :: nat where "PIT_8254_FREQ = 1193182"

definition TIMER_DIV :: "nat \<Rightarrow> nat \<Rightarrow> nat" where
  "TIMER_DIV freq hz = (freq + hz div 2) div hz"

lemmas pit_regs = IO_TIMER1_def TIMER_CNTR0_def TIMER_CNTR1_def TIMER_CNTR2_def TIMER_MODE_def

lemmas pit_bits =
  TIMER_SEL_MASK_def TIMER_RW_MASK_def TIMER_MODE_MASK_def TIMER_SEL_READBACK_def TIMER_STS_OUT_def
  TIMER_STS_NULLCNT_def TIMER_RB_LCTR_def TIMER_RB_LSTATUS_def TIMER_RB_CTR_2_def TIMER_RB_CTR_1_def
  TIMER_RB_CTR_0_def TMR2_OUT_STS_def TIMER_INTTC_def TIMER_RATEGEN_def TIMER_SQWAVE_def TIMER_SWSTROBE_def
  TIMER_LATCH_def TIMER_16BIT_def

record channel =
  ch_mode :: u8
  initial :: u16
  now_sbt :: sbintime
  cr :: "nat \<Rightarrow> u8"
  ol :: "nat \<Rightarrow> u8"
  slatched :: bool
  status :: u8
  crbyte :: nat
  olbyte :: nat
  frbyte :: nat
  ch_active :: bool
  ch_pending :: bool
  callout_sbt :: sbintime

record vatpit =
  pit_freq :: sbintime
  channel :: "nat \<Rightarrow> channel"
  pit_irqs :: "(nat \<times> nat) list"

definition upd_channel :: "nat \<Rightarrow> (channel \<Rightarrow> channel) \<Rightarrow> vatpit \<Rightarrow> vatpit" where
  "upd_channel n f v = v\<lparr>channel := (channel v)(n := f (channel v n))\<rparr>"

section \<open>Counting\<close>

definition vatpit_get_out :: "sbintime \<Rightarrow> nat \<Rightarrow> vatpit \<Rightarrow> bool" where
  "vatpit_get_out now n v =
     (let c = channel v n
      in if ch_mode c = TIMER_INTTC
         then uint (initial c) - (now - now_sbt c) sdiv pit_freq v \<le> 0
         else False)"

text \<open>\<^verbatim>\<open>callout_reset_sbt\<close> with an absolute time: the callout is active, pending and due at \<open>callout_sbt\<close>.\<close>

definition pit_timer_start_cntr0 :: "sbintime \<Rightarrow> vatpit \<Rightarrow> vatpit" where
  "pit_timer_start_cntr0 now v =
     (let c = channel v 0
      in if initial c \<noteq> 0
         then
           let delta = uint (initial c) * pit_freq v;
               t = callout_sbt c + delta;
               t1 = (if t < now then now + delta else t)
           in upd_channel 0 (\<lambda>c. c\<lparr>callout_sbt := t1, ch_active := True, ch_pending := True\<rparr>) v
         else v)"

definition vatpit_callout_handler :: "sbintime \<Rightarrow> nat \<Rightarrow> vatpit \<Rightarrow> vatpit" where
  "vatpit_callout_handler now n v =
     (if ch_pending (channel v n) then v
      else if \<not> ch_active (channel v n) then v
      else
        let v1 = upd_channel n (\<lambda>c. c\<lparr>ch_active := False\<rparr>) v;
            v2 = (if ch_mode (channel v1 n) = TIMER_RATEGEN then pit_timer_start_cntr0 now v1 else v1)
        in v2\<lparr>pit_irqs := pit_irqs v2 @ [(0, 2)]\<rparr>)"

definition pit_update_counter :: "sbintime \<Rightarrow> sbintime \<Rightarrow> bool \<Rightarrow> channel \<Rightarrow> u16 \<times> channel" where
  "pit_update_counter now freq latch c =
     (if latch \<and> olbyte c \<noteq> 0 then (0, c)
      else
        let c1 = (if initial c = 0
                  then c\<lparr>initial := word_of_nat (TIMER_DIV PIT_8254_FREQ 100), now_sbt := now,
                         status := status c AND NOT TIMER_STS_NULLCNT\<rparr>
                  else c);
            delta_ticks = (now - now_sbt c1) sdiv freq;
            lval = word_of_int (uint (initial c1) - delta_ticks smod uint (initial c1)) :: u16
        in (lval,
            if latch
            then c1\<lparr>olbyte := 2, ol := (ol c1)(1 := ucast lval, 0 := ucast (drop_bit 8 lval))\<rparr>
            else c1))"

section \<open>Commands\<close>

definition pit_readback1 :: "sbintime \<Rightarrow> nat \<Rightarrow> u8 \<Rightarrow> vatpit \<Rightarrow> vatpit" where
  "pit_readback1 now n cmd v =
     (let v1 = (if cmd AND TIMER_RB_LCTR = 0 \<and> olbyte (channel v n) = 0
                then upd_channel n (\<lambda>c. snd (pit_update_counter now (pit_freq v) True c)) v else v)
      in if cmd AND TIMER_RB_LSTATUS = 0 \<and> \<not> slatched (channel v1 n)
         then
           let v2 = upd_channel n (\<lambda>c. c\<lparr>slatched := True\<rparr>) v1
           in if ch_mode (channel v2 n) = TIMER_INTTC \<and> vatpit_get_out now n v2
              then upd_channel n (\<lambda>c. c\<lparr>status := status c OR TIMER_STS_OUT\<rparr>) v2
              else upd_channel n (\<lambda>c. c\<lparr>status := status c AND NOT TIMER_STS_OUT\<rparr>) v2
         else v1)"

definition pit_readback :: "sbintime \<Rightarrow> u8 \<Rightarrow> vatpit \<Rightarrow> vatpit" where
  "pit_readback now cmd v =
     (let v1 = (if cmd AND TIMER_RB_CTR_0 \<noteq> 0 then pit_readback1 now 0 cmd v else v);
          v2 = (if cmd AND TIMER_RB_CTR_1 \<noteq> 0 then pit_readback1 now 1 cmd v1 else v1)
      in if cmd AND TIMER_RB_CTR_2 \<noteq> 0 then pit_readback1 now 2 cmd v2 else v2)"

text \<open>\<open>None\<close> is the return value -1, with the device unchanged.\<close>

definition vatpit_update_mode :: "sbintime \<Rightarrow> u8 \<Rightarrow> vatpit \<Rightarrow> vatpit option" where
  "vatpit_update_mode now v s =
     (let sel = v AND TIMER_SEL_MASK;
          rw = v AND TIMER_RW_MASK;
          m = v AND TIMER_MODE_MASK;
          n = unat (drop_bit 6 sel)
      in if sel = TIMER_SEL_READBACK then Some (pit_readback now v s)
         else if rw \<noteq> TIMER_LATCH \<and> rw \<noteq> TIMER_16BIT then None
         else if rw \<noteq> TIMER_LATCH \<and> m \<noteq> TIMER_INTTC \<and> m \<noteq> TIMER_RATEGEN \<and> m \<noteq> TIMER_SQWAVE \<and> m \<noteq> TIMER_SWSTROBE
         then None
         else if rw = TIMER_LATCH then Some (upd_channel n (\<lambda>c. snd (pit_update_counter now (pit_freq s) True c)) s)
         else Some (upd_channel n (\<lambda>c. c\<lparr>ch_mode := m, olbyte := 0, status := status c OR TIMER_STS_NULLCNT\<rparr>) s))"

section \<open>Port access\<close>

definition cntr_read :: "sbintime \<Rightarrow> nat \<Rightarrow> vatpit \<Rightarrow> u32 \<times> vatpit" where
  "cntr_read now n v =
     (let c = channel v n
      in if slatched c
         then (ucast (status c), upd_channel n (\<lambda>c. c\<lparr>slatched := False, status := 0\<rparr>) v)
         else if olbyte c = 0
         then
           let (tmp, c1) = pit_update_counter now (pit_freq v) False c;
               tmp1 = (if frbyte c1 \<noteq> 0 then drop_bit 8 tmp else tmp) AND 0xff
           in (ucast tmp1, upd_channel n (\<lambda>_. c1\<lparr>frbyte := frbyte c1 XOR 1\<rparr>) v)
         else (ucast (ol c (olbyte c - 1)), upd_channel n (\<lambda>c. c\<lparr>olbyte := olbyte c - 1\<rparr>) v))"

text \<open>The second byte of a count completes it.\<close>

definition cntr_load :: "sbintime \<Rightarrow> nat \<Rightarrow> vatpit \<Rightarrow> vatpit" where
  "cntr_load now n v =
     (let v1 = upd_channel n (\<lambda>c. c\<lparr>status := status c AND NOT TIMER_STS_NULLCNT, frbyte := 0, crbyte := 0,
                 initial := ucast (cr c 0) OR push_bit 8 (ucast (cr c 1)), now_sbt := now\<rparr>) v;
          v2 = (if n = 0 then pit_timer_start_cntr0 now (upd_channel 0 (\<lambda>c. c\<lparr>callout_sbt := now_sbt c\<rparr>) v1) else v1)
      in if initial (channel v2 n) = 0 then upd_channel n (\<lambda>c. c\<lparr>initial := 0xffff\<rparr>) v2 else v2)"

definition cntr_write :: "sbintime \<Rightarrow> nat \<Rightarrow> u8 \<Rightarrow> vatpit \<Rightarrow> vatpit" where
  "cntr_write now n val v =
     (let v1 = upd_channel n (\<lambda>c. c\<lparr>cr := (cr c)(crbyte c := val), crbyte := crbyte c + 1\<rparr>) v
      in if crbyte (channel v1 n) = 2 then cntr_load now n v1 else v1)"

definition vatpit_handler :: "sbintime \<Rightarrow> bool \<Rightarrow> int \<Rightarrow> int \<Rightarrow> u32 \<Rightarrow> vatpit \<Rightarrow> (u32 \<times> vatpit) option" where
  "vatpit_handler now inp prt bytes eax v =
     (if bytes \<noteq> 1 then None
      else if prt = TIMER_MODE
      then (if inp then None else map_option (Pair eax) (vatpit_update_mode now (ucast eax) v))
      else
        let n = nat (prt - TIMER_CNTR0)
        in if inp then Some (cntr_read now n v) else Some (eax, cntr_write now n (ucast eax) v))"

definition vatpit_nmisc_handler :: "sbintime \<Rightarrow> bool \<Rightarrow> u32 \<Rightarrow> vatpit \<Rightarrow> u32" where
  "vatpit_nmisc_handler now inp eax v =
     (if inp then if vatpit_get_out now 2 v then TMR2_OUT_STS else 0 else eax)"

definition vatpit_init :: vatpit where
  "vatpit_init = \<lparr>pit_freq = bttosbt (FREQ2BT (word_of_nat PIT_8254_FREQ)),
     channel = (\<lambda>_. \<lparr>ch_mode = 0, initial = 0, now_sbt = 0, cr = (\<lambda>_. 0), ol = (\<lambda>_. 0), slatched = False, status = 0,
       crbyte = 0, olbyte = 0, frbyte = 0, ch_active = False, ch_pending = False, callout_sbt = 0\<rparr>),
     pit_irqs = []\<rparr>"

section \<open>Runs\<close>

text \<open>Port accesses of the guest, and the expiry of a pending callout.\<close>

datatype pit_op =
  Access sbintime bool int int u32
| Expire sbintime nat

fun pit_step :: "pit_op \<Rightarrow> vatpit \<Rightarrow> vatpit" where
  "pit_step (Access now inp prt bytes eax) v =
     (case vatpit_handler now inp prt bytes eax v of None \<Rightarrow> v | Some (_, v1) \<Rightarrow> v1)"
| "pit_step (Expire now n) v =
     (if ch_pending (channel v n)
      then vatpit_callout_handler now n (upd_channel n (\<lambda>c. c\<lparr>ch_pending := False\<rparr>) v) else v)"

definition channel_ok :: "channel \<Rightarrow> bool" where
  "channel_ok c \<longleftrightarrow> crbyte c < 2 \<and> olbyte c \<le> 2 \<and> frbyte c \<le> 1"

definition pit_ok :: "vatpit \<Rightarrow> bool" where
  "pit_ok v \<longleftrightarrow> pit_freq v = pit_freq vatpit_init \<and> (\<forall>n. channel_ok (channel v n))"

lemma ok_upd_iff:
  "pit_ok (upd_channel n f v) \<longleftrightarrow>
   pit_freq v = pit_freq vatpit_init \<and> channel_ok (f (channel v n)) \<and> (\<forall>m. m \<noteq> n \<longrightarrow> channel_ok (channel v m))"
  by (auto simp: pit_ok_def upd_channel_def)

lemma ok_upd_channel [inv_intros]: "\<lbrakk>pit_ok v; channel_ok (f (channel v n))\<rbrakk> \<Longrightarrow> pit_ok (upd_channel n f v)"
  unfolding ok_upd_iff by (simp add: pit_ok_def)

lemma channel_upd_same [simp]: "channel (upd_channel n f v) n = f (channel v n)"
  by (simp add: upd_channel_def)

lemma freq_upd_channel [simp]: "pit_freq (upd_channel n f v) = pit_freq v"
  by (simp add: upd_channel_def)

lemma pit_okD: "pit_ok v \<Longrightarrow> channel_ok (channel v n)"
  by (simp add: pit_ok_def)

lemma ok_update_counter: "channel_ok c \<Longrightarrow> channel_ok (snd (pit_update_counter now fr latch c))"
  by (simp add: pit_update_counter_def Let_def channel_ok_def)

lemma ok_irqs [simp]: "pit_ok (v\<lparr>pit_irqs := xs\<rparr>) = pit_ok v"
  by (simp add: pit_ok_def)

lemma ok_keep:
  assumes "pit_ok v" "crbyte (f (channel v n)) = crbyte (channel v n)" "olbyte (f (channel v n)) = olbyte (channel v n)"
    "frbyte (f (channel v n)) = frbyte (channel v n)"
  shows "pit_ok (upd_channel n f v)"
  using assms pit_okD [OF assms(1), of n] by (intro ok_upd_channel) (simp_all add: channel_ok_def)

lemma ok_start: "pit_ok v \<Longrightarrow> pit_ok (pit_timer_start_cntr0 now v)"
  by (simp add: pit_timer_start_cntr0_def Let_def ok_keep)

lemma ok_callout: "pit_ok v \<Longrightarrow> pit_ok (vatpit_callout_handler now n v)"
  by (simp add: vatpit_callout_handler_def Let_def ok_keep ok_start)

lemma ok_counter: "pit_ok v \<Longrightarrow> pit_ok (upd_channel n (\<lambda>c. snd (pit_update_counter now fr latch c)) v)"
  by (intro ok_upd_channel) (simp_all add: ok_update_counter pit_okD)

lemma ok_readback1: "pit_ok v \<Longrightarrow> pit_ok (pit_readback1 now n cmd v)"
  by (simp add: pit_readback1_def Let_def ok_keep ok_counter)

lemma ok_mode: "pit_ok v \<Longrightarrow> pit_ok (upd_channel n (\<lambda>c. c\<lparr>ch_mode := m, olbyte := 0, status := st c\<rparr>) v)"
  by (intro ok_upd_channel) (auto simp: channel_ok_def dest: pit_okD [of v n])

lemma ok_update_mode: "\<lbrakk>pit_ok v; vatpit_update_mode now val v = Some v1\<rbrakk> \<Longrightarrow> pit_ok v1"
  by (auto simp: vatpit_update_mode_def Let_def pit_readback_def ok_readback1 ok_counter ok_mode split: if_splits)

lemma frbyte_xor: "(n :: nat) \<le> 1 \<Longrightarrow> n XOR 1 \<le> 1"
  by (auto simp: le_Suc_eq)

lemma ok_cntr_read: "pit_ok v \<Longrightarrow> pit_ok (snd (cntr_read now n v))"
proof -
  assume ok: "pit_ok v"
  obtain tmp c1 where c1: "pit_update_counter now (pit_freq v) False (channel v n) = (tmp, c1)" by fastforce
  then have "channel_ok c1" using ok_update_counter [OF pit_okD [OF ok, of n]] by (metis snd_conv)
  then have "channel_ok (c1\<lparr>frbyte := frbyte c1 XOR 1\<rparr>)" using frbyte_xor [of "frbyte c1"] by (simp add: channel_ok_def)
  then have 1: "pit_ok (upd_channel n (\<lambda>_. c1\<lparr>frbyte := frbyte c1 XOR 1\<rparr>) v)" using ok by (intro ok_upd_channel)
  have 2: "pit_ok (upd_channel n (\<lambda>c. c\<lparr>olbyte := olbyte c - 1\<rparr>) v)"
    using ok pit_okD [OF ok, of n] by (intro ok_upd_channel) (auto simp: channel_ok_def)
  show ?thesis unfolding cntr_read_def Let_def c1 using ok 1 2 by (simp add: ok_keep)
qed

lemma ok_cntr_load: "pit_ok (upd_channel n (\<lambda>c. c\<lparr>crbyte := 0\<rparr>) v) \<Longrightarrow> pit_ok (cntr_load now n v)"
proof -
  define v1 where "v1 = upd_channel n (\<lambda>c. c\<lparr>status := status c AND NOT TIMER_STS_NULLCNT, frbyte := 0, crbyte := 0,
                 initial := ucast (cr c 0) OR push_bit 8 (ucast (cr c 1)), now_sbt := now\<rparr>) v"
  assume "pit_ok (upd_channel n (\<lambda>c. c\<lparr>crbyte := 0\<rparr>) v)"
  then have "pit_ok v1" by (simp add: v1_def ok_upd_iff channel_ok_def)
  then show ?thesis unfolding cntr_load_def Let_def v1_def [symmetric] by (simp add: ok_keep ok_start)
qed

lemma ok_cntr_write: "pit_ok v \<Longrightarrow> pit_ok (cntr_write now n val v)"
proof -
  assume ok: "pit_ok v"
  define v1 where "v1 = upd_channel n (\<lambda>c. c\<lparr>cr := (cr c)(crbyte c := val), crbyte := crbyte c + 1\<rparr>) v"
  have "pit_ok v1" if "crbyte (channel v1 n) \<noteq> 2"
    using ok that pit_okD [OF ok, of n] unfolding v1_def by (intro ok_upd_channel) (auto simp: channel_ok_def)
  moreover have "pit_ok (upd_channel n (\<lambda>c. c\<lparr>crbyte := 0\<rparr>) v1)"
    using ok by (simp add: v1_def upd_channel_def pit_ok_def channel_ok_def)
  ultimately show ?thesis unfolding cntr_write_def Let_def v1_def [symmetric] by (simp add: ok_cntr_load)
qed

lemma ok_access:
  assumes "pit_ok v" "vatpit_handler now inp prt bytes eax v = Some (e, v1)"
  shows "pit_ok v1"
  using assms ok_cntr_read [OF assms(1), of now "nat (prt - TIMER_CNTR0)"] ok_update_mode [OF assms(1), of now]
  by (auto simp: vatpit_handler_def Let_def ok_cntr_write split: if_splits)

interpretation pit_run: machine "\<lambda>v. v = vatpit_init" pit_step pit_ok
proof (unfold_locales, goal_cases)
  case (1 v)
  then show ?case by (simp add: pit_ok_def channel_ok_def vatpit_init_def)
next
  case (2 v e)
  then show ?case by (cases e) (auto simp: ok_callout ok_keep split: option.splits dest: ok_access)
qed

section \<open>Latched counts\<close>

lemma pit_freq_pos: "0 < pit_freq vatpit_init"
  by (simp add: vatpit_init_def FREQ2BT_def bttosbt_def PIT_8254_FREQ_def)

definition pit_count :: "sbintime \<Rightarrow> sbintime \<Rightarrow> channel \<Rightarrow> int" where
  "pit_count now freq c = uint (initial c) - ((now - now_sbt c) div freq) mod uint (initial c)"

lemma sdiv_nonneg: "\<lbrakk>0 \<le> a; 0 < b\<rbrakk> \<Longrightarrow> a sdiv b = (a :: int) div b"
  by (auto simp: signed_divide_int_def zero_less_mult_iff sgn_if)

lemma smod_nonneg: "\<lbrakk>0 \<le> a; 0 < b\<rbrakk> \<Longrightarrow> a smod b = (a :: int) mod b"
  by (cases "a = 0") (simp_all add: signed_modulo_int_def sdiv_nonneg minus_div_mult_eq_mod)

lemma uint_pos: "(w :: u16) \<noteq> 0 \<Longrightarrow> 0 < uint w"
  by (simp add: less_le unsigned_eq_0_iff)

lemma pit_count_bounds:
  assumes "initial c \<noteq> 0" "now_sbt c \<le> now" "0 < freq"
  shows "0 < pit_count now freq c" "pit_count now freq c \<le> uint (initial c)"
proof -
  have "0 < uint (initial c)" using assms(1) by (rule uint_pos)
  then show "0 < pit_count now freq c" "pit_count now freq c \<le> uint (initial c)" by (simp_all add: pit_count_def)
qed

lemma update_counter_value:
  assumes "initial c \<noteq> 0" "now_sbt c \<le> now" "0 < freq" "olbyte c = 0"
  shows "pit_update_counter now freq True c =
    (word_of_int (pit_count now freq c),
     c\<lparr>olbyte := 2, ol := (ol c)(1 := word_of_int (pit_count now freq c), 0 := word_of_int (pit_count now freq c div 256))\<rparr>)"
proof -
  have b: "0 < uint (initial c)" "0 \<le> (now - now_sbt c) div freq"
    using assms by (simp_all add: uint_pos pos_imp_zdiv_nonneg_iff)
  have e: "uint (initial c) - ((now - now_sbt c) sdiv freq) smod uint (initial c) = pit_count now freq c"
    using assms b by (simp add: sdiv_nonneg smod_nonneg pit_count_def)
  have u: "uint (word_of_int (pit_count now freq c) :: u16) = pit_count now freq c"
    using pit_count_bounds [OF assms(1-3)] unsigned_less [of "initial c", where 'a = int]
    by (simp add: unsigned_of_int take_bit_int_eq_self)
  then have d: "(ucast (drop_bit 8 (word_of_int (pit_count now freq c) :: u16)) :: u8) = word_of_int (pit_count now freq c div 256)"
    unfolding ucast_eq drop_bit_eq_div uint_div by simp
  have l: "(ucast (word_of_int (pit_count now freq c) :: u16) :: u8) = word_of_int (pit_count now freq c)"
    unfolding ucast_eq u ..
  show ?thesis using assms(1,4) by (simp add: pit_update_counter_def Let_def e d l del: of_int_diff)
qed

definition latch_cmd :: "nat \<Rightarrow> u32" where "latch_cmd n = word_of_nat (64 * n)"

lemma latch_command:
  assumes "n \<le> 2"
  shows "vatpit_update_mode now (ucast (latch_cmd n)) v =
    Some (upd_channel n (\<lambda>c. snd (pit_update_counter now (pit_freq v) True c)) v)"
proof -
  consider "n = 0" | "n = 1" | "n = 2" using assms by linarith
  then show ?thesis by cases (simp_all add: latch_cmd_def vatpit_update_mode_def pit_bits Let_def)
qed

lemma counter_port: "nat (TIMER_CNTR0 + int n - TIMER_CNTR0) = n" "n \<le> 2 \<Longrightarrow> TIMER_CNTR0 + int n \<noteq> TIMER_MODE"
  by (auto simp: pit_regs)

section \<open>Properties\<close>

text \<open>
  After any sequence of port accesses and callout expiries every index into the two-byte
  count and latch buffers of every channel is in range, the free-running byte toggle is 0 or 1, and the tick
  length is positive, so the divisions by it are defined.
\<close>

theorem pit_indices_in_range:
  "let v = fold pit_step ops vatpit_init
   in crbyte (channel v n) < 2 \<and> olbyte (channel v n) \<le> 2 \<and> frbyte (channel v n) \<le> 1 \<and> 0 < pit_freq v"
  using pit_run.run_invar [of vatpit_init ops] pit_freq_pos
  by (simp add: Let_def pit_ok_def channel_ok_def)


definition pit_demo :: vatpit where
  "pit_demo = fold pit_step [Access 0 False TIMER_CNTR1 1 100, Access 0 False TIMER_CNTR1 1 0] vatpit_init"

lemma pit_demo_state:
  "initial (channel pit_demo 1) = 100" "olbyte (channel pit_demo 1) = 0" "\<not> slatched (channel pit_demo 1)"
  "now_sbt (channel pit_demo 1) = 0" "pit_freq pit_demo = pit_freq vatpit_init"
  by (simp_all add: pit_demo_def vatpit_handler_def pit_regs Let_def cntr_write_def cntr_load_def vatpit_init_def upd_channel_def)


text \<open>
  Programming channel 0 with the count 0, which stands for the longest interval, starts no
  timer: the callout is decided on before the count is replaced by 0xffff, so it is left as it was.
\<close>

theorem count_zero_not_started:
  assumes "crbyte (channel v 0) = 0"
  shows "\<exists>v1 v2. vatpit_handler t0 False TIMER_CNTR0 1 0 v = Some (0, v1)
    \<and> vatpit_handler t1 False TIMER_CNTR0 1 0 v1 = Some (0, v2)
    \<and> initial (channel v2 0) = 0xffff
    \<and> ch_active (channel v2 0) = ch_active (channel v 0) \<and> ch_pending (channel v2 0) = ch_pending (channel v 0)"
  using assms
  by (simp add: vatpit_handler_def pit_regs Let_def cntr_write_def cntr_load_def pit_timer_start_cntr0_def upd_channel_def)

theorem count_zero_not_started_witness:
  "\<exists>v1 v2. vatpit_handler 0 False TIMER_CNTR0 1 0 vatpit_init = Some (0, v1)
    \<and> vatpit_handler 1 False TIMER_CNTR0 1 0 v1 = Some (0, v2)
    \<and> initial (channel v2 0) = 0xffff \<and> \<not> ch_active (channel v2 0) \<and> \<not> ch_pending (channel v2 0)"
  using count_zero_not_started [of vatpit_init 0 1] by (auto simp: vatpit_init_def)

end
