(* ===== verification/Vpmtmr.thy ===== *)
theory Vpmtmr
  imports Callout "HOL-Library.Signed_Division"
begin

text \<open>
  The ACPI power management timer of \<^verbatim>\<open>src/src/lib/vmm/io/vpmtmr.c\<close>: a free-running 32-bit counter
  derived from the uptime, which is an argument.
\<close>

definition PMTMR_FREQ :: u64 where "PMTMR_FREQ = 3579545"

record vpmtmr =
  pm_freq_sbt :: sbintime
  baseuptime :: sbintime
  baseval :: u32

definition vpmtmr_init :: "sbintime \<Rightarrow> vpmtmr" where
  "vpmtmr_init now = \<lparr>pm_freq_sbt = bttosbt (FREQ2BT PMTMR_FREQ), baseuptime = now, baseval = 0\<rparr>"

text \<open>\<open>None\<close> is the return value -1.\<close>

definition vpmtmr_handler :: "sbintime \<Rightarrow> bool \<Rightarrow> int \<Rightarrow> vpmtmr \<Rightarrow> u32 option" where
  "vpmtmr_handler now inp bytes tmr =
     (if \<not> inp \<or> bytes \<noteq> 4 then None
      else
        let delta = now - baseuptime tmr
        in Some (word_of_int (uint (baseval tmr) + delta sdiv pm_freq_sbt tmr)))"

lemma pm_freq_value: "bttosbt (FREQ2BT PMTMR_FREQ) = 1199"
  by (simp add: FREQ2BT_def bttosbt_def PMTMR_FREQ_def)

lemma pm_ticks: "\<lbrakk>0 \<le> a; 0 < b\<rbrakk> \<Longrightarrow> a sdiv b = (a :: int) div b"
  by (auto simp: signed_divide_int_def zero_less_mult_iff sgn_if)



end
