(* ===== verification/Vrtc.thy ===== *)
theory Vrtc
  imports Callout "HOL-Library.Signed_Division" "HOL-Library.Monad_Syntax"
begin

text \<open>
  The real-time clock of \<^verbatim>\<open>src/src/lib/vmm/io/vrtc.c\<close>. The packed 128-byte \<^verbatim>\<open>struct rtcdev\<close>, which
  the code also accesses as an array of bytes, is a function from offsets to bytes, with the offsets of
  its fields as below. Each operation takes the host clocks \<open>k\<close> it reads: the uptime and the calendar
  clock (an unsigned 32-bit number of seconds and nanoseconds). The callout is its two flags, and the pulses sent on
  interrupt line 8 of both interrupt controllers are counted.
\<close>

section \<open>Registers\<close>

definition RTC_STATUSD :: nat where "RTC_STATUSD = 0x0d"
definition RTC_CENTURY :: nat where "RTC_CENTURY = 0x32"
definition RTCSA_TUP :: u8 where "RTCSA_TUP = 0x80"
definition RTCSB_24HR :: u8 where "RTCSB_24HR = 0x02"
definition RTCSB_SQWE :: u8 where "RTCSB_SQWE = 0x08"
definition RTCSB_UINTR :: u8 where "RTCSB_UINTR = 0x10"
definition RTCSB_AINTR :: u8 where "RTCSB_AINTR = 0x20"
definition RTCSB_PINTR :: u8 where "RTCSB_PINTR = 0x40"
definition RTCSB_HALT :: u8 where "RTCSB_HALT = 0x80"
definition RTCIR_UPDATE :: u8 where "RTCIR_UPDATE = 0x10"
definition RTCIR_ALARM :: u8 where "RTCIR_ALARM = 0x20"
definition RTCIR_PERIOD :: u8 where "RTCIR_PERIOD = 0x40"
definition RTCIR_INT :: u8 where "RTCIR_INT = 0x80"
definition RTCSD_PWR :: u8 where "RTCSD_PWR = 0x80"
definition RTCSB_BIN :: u8 where "RTCSB_BIN = 0x04"
definition RTCSB_ALL_INTRS :: u8 where "RTCSB_ALL_INTRS = RTCSB_UINTR OR RTCSB_AINTR OR RTCSB_PINTR"
definition VRTC_BROKEN_TIME :: int where "VRTC_BROKEN_TIME = - 1"
definition POSIX_BASE_YEAR :: int where "POSIX_BASE_YEAR = 1970"
definition FEBRUARY :: int where "FEBRUARY = 2"
definition SECDAY :: int where "SECDAY = 24 * 60 * 60"
definition EBUSY :: int where "EBUSY = 16"
definition EINVAL :: int where "EINVAL = 22"

lemmas rtc_bits =
  RTCSA_TUP_def RTCSB_24HR_def RTCSB_SQWE_def RTCSB_UINTR_def RTCSB_AINTR_def RTCSB_PINTR_def RTCSB_HALT_def
  RTCIR_UPDATE_def RTCIR_ALARM_def RTCIR_PERIOD_def RTCIR_INT_def RTCSD_PWR_def RTCSB_BIN_def RTCSB_ALL_INTRS_def

type_synonym rtcdev = "nat \<Rightarrow> u8"

record vrtc =
  rtc_active :: bool
  rtc_pending :: bool
  rtc_addr :: nat
  base_uptime :: sbintime
  base_rtctime :: int
  dev :: rtcdev
  rtc_pulses :: nat

record host =
  up :: sbintime
  wall :: u32
  wall_nsec :: int

record clocktime =
  ct_year :: int
  ct_mon :: int
  ct_day :: int
  ct_hour :: int
  ct_min :: int
  ct_sec :: int
  ct_dow :: int
  ct_nsec :: int

definition reg_a :: "vrtc \<Rightarrow> u8" where "reg_a v = dev v 10"
definition reg_b :: "vrtc \<Rightarrow> u8" where "reg_b v = dev v 11"
definition reg_c :: "vrtc \<Rightarrow> u8" where "reg_c v = dev v 12"

definition set_dev :: "nat \<Rightarrow> u8 \<Rightarrow> vrtc \<Rightarrow> vrtc" where
  "set_dev i b v = v\<lparr>dev := (dev v)(i := b)\<rparr>"

definition rtc_halted :: "vrtc \<Rightarrow> bool" where "rtc_halted v \<longleftrightarrow> reg_b v AND RTCSB_HALT \<noteq> 0"
definition aintr_enabled :: "vrtc \<Rightarrow> bool" where "aintr_enabled v \<longleftrightarrow> reg_b v AND RTCSB_AINTR \<noteq> 0"
definition pintr_enabled :: "vrtc \<Rightarrow> bool" where "pintr_enabled v \<longleftrightarrow> reg_b v AND RTCSB_PINTR \<noteq> 0"
definition uintr_enabled :: "vrtc \<Rightarrow> bool" where "uintr_enabled v \<longleftrightarrow> reg_b v AND RTCSB_UINTR \<noteq> 0"

section \<open>Calendar\<close>

definition month_days :: "int list" where
  "month_days = [31, 28, 31, 30, 31, 30, 31, 31, 30, 31, 30, 31]"

definition leapyear :: "int \<Rightarrow> int" where
  "leapyear year =
     (if year AND 3 = 0
      then if year mod 100 = 0 then if year mod 400 = 0 then 1 else 0 else 1
      else 0)"

definition days_in_year :: "int \<Rightarrow> int" where
  "days_in_year y = (if leapyear y \<noteq> 0 then 366 else 365)"

definition days_in_month :: "int \<Rightarrow> int \<Rightarrow> int" where
  "days_in_month y m = month_days ! nat (m - 1) + (if m = FEBRUARY then leapyear y else 0)"

definition day_of_week :: "int \<Rightarrow> int" where
  "day_of_week days = (days + 4) mod 7"

function sum_years :: "int \<Rightarrow> int \<Rightarrow> int \<Rightarrow> int" where
  "sum_years i year days = (if i < year then sum_years (i + 1) year (days + days_in_year i) else days)"
  by pat_completeness auto
termination sum_years by (relation "measure (\<lambda>(i, year, _). nat (year - i))") auto

function sum_months :: "int \<Rightarrow> int \<Rightarrow> int \<Rightarrow> int \<Rightarrow> int" where
  "sum_months year i mon days =
     (if i < mon then sum_months year (i + 1) mon (days + days_in_month year i) else days)"
  by pat_completeness auto
termination sum_months by (relation "measure (\<lambda>(_, i, mon, _). nat (mon - i))") auto

declare sum_years.simps [simp del] sum_months.simps [simp del]

text \<open>\<open>None\<close> is the error \<^verbatim>\<open>EINVAL\<close>; \<^verbatim>\<open>time_t\<close> has 64 bits.\<close>

definition clock_ct_to_ts :: "clocktime \<Rightarrow> (int \<times> int) option" where
  "clock_ct_to_ts ct =
     (let year = ct_year ct
      in if ct_mon ct < 1 \<or> ct_mon ct > 12 \<or> ct_day ct < 1 \<or> ct_day ct > days_in_month year (ct_mon ct)
            \<or> ct_hour ct > 23 \<or> ct_min ct > 59 \<or> ct_sec ct > 59
         then None
         else
           let days = sum_months year 1 (ct_mon ct) (sum_years POSIX_BASE_YEAR year 0) + (ct_day ct - 1)
           in Some (((days * 24 + ct_hour ct) * 60 + ct_min ct) * 60 + ct_sec ct, ct_nsec ct))"

lemma days_in_year_bounds: "365 \<le> days_in_year y" "days_in_year y \<le> 366"
  by (auto simp: days_in_year_def)

function year_loop :: "int \<Rightarrow> int \<Rightarrow> int \<times> int" where
  "year_loop year days =
     (if days_in_year year \<le> days then year_loop (year + 1) (days - days_in_year year) else (year, days))"
  by pat_completeness auto
termination year_loop
proof (relation "measure (\<lambda>(_, days). nat days)")
  fix year days
  assume "days_in_year year \<le> days"
  then show "((year + 1, days - days_in_year year), year, days) \<in> measure (\<lambda>(_, days). nat days)"
    using days_in_year_bounds(1) [of year] by simp
qed simp

text \<open>\<open>None\<close> is an access beyond the end of \<^verbatim>\<open>month_days\<close>.\<close>

function month_loop :: "int \<Rightarrow> int \<Rightarrow> int \<Rightarrow> (int \<times> int) option" where
  "month_loop year i days =
     (if i > 12 then None
      else if days_in_month year i \<le> days then month_loop year (i + 1) (days - days_in_month year i)
      else Some (i, days))"
  by pat_completeness auto
termination month_loop by (relation "measure (\<lambda>(_, i, _). nat (13 - i))") auto

declare year_loop.simps [simp del] month_loop.simps [simp del]

definition clock_ts_to_ct :: "int \<Rightarrow> int \<Rightarrow> clocktime option" where
  "clock_ts_to_ct secs nsec =
     (let days = secs div SECDAY;
          rsec = secs mod SECDAY;
          (year, days1) = year_loop POSIX_BASE_YEAR days
      in case month_loop year 1 days1 of
           None \<Rightarrow> None
         | Some (i, days2) \<Rightarrow>
             Some \<lparr>ct_year = year, ct_mon = i, ct_day = days2 + 1, ct_hour = rsec div 3600,
               ct_min = rsec mod 3600 div 60, ct_sec = rsec mod 3600 mod 60, ct_dow = day_of_week days, ct_nsec = nsec\<rparr>)"

section \<open>Time keeping\<close>

definition divider_enabled :: "u8 \<Rightarrow> bool" where
  "divider_enabled a \<longleftrightarrow> a AND 0x70 = 0x20"

definition update_enabled :: "vrtc \<Rightarrow> bool" where
  "update_enabled v =
     (if \<not> divider_enabled (reg_a v) then False
      else if rtc_halted v then False
      else if base_rtctime v = VRTC_BROKEN_TIME then False
      else True)"

text \<open>The current time and the new base uptime.\<close>

definition vrtc_curtime :: "host \<Rightarrow> vrtc \<Rightarrow> int \<times> sbintime" where
  "vrtc_curtime k v =
     (if update_enabled v
      then
        let delta = up k - base_uptime v;
            secs = delta sdiv SBT_1S
        in (base_rtctime v + secs, base_uptime v + secs * SBT_1S)
      else (base_rtctime v, base_uptime v))"

definition bin2bcd_data :: "u8 list" where
  "bin2bcd_data = [
     0x00, 0x01, 0x02, 0x03, 0x04, 0x05, 0x06, 0x07, 0x08, 0x09,
     0x10, 0x11, 0x12, 0x13, 0x14, 0x15, 0x16, 0x17, 0x18, 0x19,
     0x20, 0x21, 0x22, 0x23, 0x24, 0x25, 0x26, 0x27, 0x28, 0x29,
     0x30, 0x31, 0x32, 0x33, 0x34, 0x35, 0x36, 0x37, 0x38, 0x39,
     0x40, 0x41, 0x42, 0x43, 0x44, 0x45, 0x46, 0x47, 0x48, 0x49,
     0x50, 0x51, 0x52, 0x53, 0x54, 0x55, 0x56, 0x57, 0x58, 0x59,
     0x60, 0x61, 0x62, 0x63, 0x64, 0x65, 0x66, 0x67, 0x68, 0x69,
     0x70, 0x71, 0x72, 0x73, 0x74, 0x75, 0x76, 0x77, 0x78, 0x79,
     0x80, 0x81, 0x82, 0x83, 0x84, 0x85, 0x86, 0x87, 0x88, 0x89,
     0x90, 0x91, 0x92, 0x93, 0x94, 0x95, 0x96, 0x97, 0x98, 0x99]"

definition rtcset :: "u8 \<Rightarrow> int \<Rightarrow> u8" where
  "rtcset b val = (if b AND RTCSB_BIN \<noteq> 0 then word_of_int val else bin2bcd_data ! nat val)"

definition hour_to_rtc :: "u8 \<Rightarrow> int \<Rightarrow> u8" where
  "hour_to_rtc b h =
     (let hour = (if b AND RTCSB_24HR \<noteq> 0 then h else if h = 0 \<or> h = 12 then 12 else h mod 12);
          r = rtcset b hour
      in if b AND RTCSB_24HR = 0 \<and> h \<ge> 12 then r OR 0x80 else r)"

text \<open>The date fields are filled from the host's calendar clock; \<open>None\<close> would be a bad table access.\<close>

definition secs_to_rtc :: "host \<Rightarrow> int \<Rightarrow> bool \<Rightarrow> vrtc \<Rightarrow> vrtc option" where
  "secs_to_rtc k rtctime force_update v =
     (if rtctime < 0 then Some v
      else if rtc_halted v \<and> \<not> force_update then Some v
      else
        case clock_ts_to_ct (uint (wall k)) (wall_nsec k) of
          None \<Rightarrow> None
        | Some ct \<Rightarrow>
            let b = reg_b v
            in Some (v\<lparr>dev := (dev v)(
                 0 := rtcset b (ct_sec ct), 2 := rtcset b (ct_min ct), 4 := hour_to_rtc b (ct_hour ct),
                 6 := rtcset b (ct_dow ct + 1), 7 := rtcset b (ct_day ct), 8 := rtcset b (ct_mon ct),
                 9 := rtcset b (ct_year ct mod 100), RTC_CENTURY := rtcset b (ct_year ct div 100))\<rparr>))"

text \<open>\<open>None\<close> is the return value -1.\<close>

definition rtcget :: "u8 \<Rightarrow> u8 \<Rightarrow> int option" where
  "rtcget b val =
     (if b AND RTCSB_BIN \<noteq> 0 then Some (uint val)
      else
        let lower = val AND 0xf; upper = drop_bit 4 val AND 0xf
        in if lower > 9 \<or> upper > 9 then None else Some (uint upper * 10 + uint lower))"

definition rtc_field :: "u8 \<Rightarrow> u8 \<Rightarrow> int \<Rightarrow> int \<Rightarrow> int option" where
  "rtc_field b val lo hi =
     (case rtcget b val of None \<Rightarrow> None | Some x \<Rightarrow> if x < lo \<or> x > hi then None else Some x)"

definition rtc_to_hour :: "u8 \<Rightarrow> u8 \<Rightarrow> int option" where
  "rtc_to_hour b h =
     (if b AND RTCSB_24HR = 0
      then
        let pm = (h AND 0x80 \<noteq> 0);
            hour = (if pm then h AND NOT 0x80 else h)
        in case rtcget b hour of
             None \<Rightarrow> None
           | Some x \<Rightarrow>
               if 1 \<le> x \<and> x \<le> 12
               then let y = (if x = 12 then 0 else x) in Some (if pm then y + 12 else y)
               else None
      else rtc_field b h 0 23)"

definition rtc_to_ct :: "vrtc \<Rightarrow> clocktime option" where
  "rtc_to_ct v =
     (let b = reg_b v; d = dev v
      in do {
        s \<leftarrow> rtc_field b (d 0) 0 59;
        mi \<leftarrow> rtc_field b (d 2) 0 59;
        h \<leftarrow> rtc_to_hour b (d 4);
        dy \<leftarrow> rtc_field b (d 7) 1 31;
        mo \<leftarrow> rtc_field b (d 8) 1 12;
        year \<leftarrow> rtc_field b (d 9) 0 99;
        century \<leftarrow> rtcget b (d RTC_CENTURY);
        let y = century * 100 + year;
        if y < 1900 then None
        else Some \<lparr>ct_year = y, ct_mon = mo, ct_day = dy, ct_hour = h, ct_min = mi, ct_sec = s, ct_dow = - 1, ct_nsec = 0\<rparr>
      })"

definition rtc_to_secs :: "vrtc \<Rightarrow> int" where
  "rtc_to_secs v =
     (case rtc_to_ct v \<bind> clock_ct_to_ts of
        None \<Rightarrow> VRTC_BROKEN_TIME
      | Some (t, _) \<Rightarrow> if t < 0 then VRTC_BROKEN_TIME else t)"

section \<open>Interrupts and updates\<close>

definition vrtc_set_reg_c :: "u8 \<Rightarrow> vrtc \<Rightarrow> vrtc" where
  "vrtc_set_reg_c newval0 v =
     (let newval = newval0 AND (RTCIR_ALARM OR RTCIR_PERIOD OR RTCIR_UPDATE);
          oldirqf = reg_c v AND RTCIR_INT;
          newirqf = (if aintr_enabled v \<and> newval AND RTCIR_ALARM \<noteq> 0
                        \<or> pintr_enabled v \<and> newval AND RTCIR_PERIOD \<noteq> 0
                        \<or> uintr_enabled v \<and> newval AND RTCIR_UPDATE \<noteq> 0
                     then RTCIR_INT else 0);
          v1 = set_dev 12 (newirqf OR newval) v
      in if oldirqf = 0 \<and> newirqf \<noteq> 0 then v1\<lparr>rtc_pulses := rtc_pulses v1 + 1\<rparr> else v1)"

definition alarm_matches :: "u8 \<times> u8 \<times> u8 \<Rightarrow> vrtc \<Rightarrow> bool" where
  "alarm_matches al v \<longleftrightarrow>
     (case al of (alarm_sec, alarm_min, alarm_hour) \<Rightarrow>
        (alarm_sec \<ge> 0xC0 \<or> alarm_sec = dev v 0) \<and> (alarm_min \<ge> 0xC0 \<or> alarm_min = dev v 2)
        \<and> (alarm_hour \<ge> 0xC0 \<or> alarm_hour = dev v 4))"

definition alarm_check :: "host \<Rightarrow> u8 \<times> u8 \<times> u8 \<Rightarrow> vrtc \<Rightarrow> vrtc option" where
  "alarm_check k al v =
     (case secs_to_rtc k (base_rtctime v) False v of
        None \<Rightarrow> None
      | Some v1 \<Rightarrow> Some (if alarm_matches al v1 then vrtc_set_reg_c (reg_c v1 OR RTCIR_ALARM) v1 else v1))"

text \<open>One turn of the loop of \<^verbatim>\<open>vrtc_time_update\<close>.\<close>

definition update_turn :: "host \<Rightarrow> bool \<Rightarrow> int \<Rightarrow> u8 \<times> u8 \<times> u8 \<Rightarrow> vrtc \<Rightarrow> vrtc option" where
  "update_turn k oldvalid newtime al v =
     (let v1 = (if aintr_enabled v \<and> oldvalid then v\<lparr>base_rtctime := base_rtctime v + 1\<rparr>
                else v\<lparr>base_rtctime := newtime\<rparr>)
      in if aintr_enabled v1 then alarm_check k al v1 else Some v1)"

text \<open>\<open>None\<close> is a loop that does not end.\<close>

partial_function (option) update_loop :: "host \<Rightarrow> bool \<Rightarrow> int \<Rightarrow> u8 \<times> u8 \<times> u8 \<Rightarrow> vrtc \<Rightarrow> vrtc option" where
  "update_loop k oldvalid newtime al v =
     update_turn k oldvalid newtime al v \<bind>
     (\<lambda>v1. if base_rtctime v1 \<noteq> newtime then update_loop k oldvalid newtime al v1 else Some v1)"

definition vrtc_time_update :: "host \<Rightarrow> int \<Rightarrow> sbintime \<Rightarrow> vrtc \<Rightarrow> (int \<times> vrtc) option" where
  "vrtc_time_update k newtime newbase v =
     (let al = (dev v 1, dev v 3, dev v 5);
          oldtime = base_rtctime v;
          v1 = v\<lparr>base_uptime := newbase\<rparr>
      in if newtime = oldtime then Some (0, v1)
         else if newtime = VRTC_BROKEN_TIME then Some (0, v1\<lparr>base_rtctime := VRTC_BROKEN_TIME\<rparr>)
         else if rtc_halted v1 then Some (EBUSY, v1)
         else
           update_loop k (oldtime \<noteq> VRTC_BROKEN_TIME) newtime al v1 \<bind>
           (\<lambda>v2. Some (0, if uintr_enabled v2 then vrtc_set_reg_c (reg_c v2 OR RTCIR_UPDATE) v2 else v2)))"

definition pf :: "sbintime list" where
  "pf = [0, SBT_1S div 256, SBT_1S div 128, SBT_1S div 8192, SBT_1S div 4096, SBT_1S div 2048, SBT_1S div 1024,
     SBT_1S div 512, SBT_1S div 256, SBT_1S div 128, SBT_1S div 64, SBT_1S div 32, SBT_1S div 16, SBT_1S div 8,
     SBT_1S div 4, SBT_1S div 2]"

definition vrtc_freq :: "vrtc \<Rightarrow> sbintime" where
  "vrtc_freq v =
     (if pintr_enabled v \<and> divider_enabled (reg_a v) then pf ! unat (reg_a v AND 0xf)
      else if aintr_enabled v \<and> update_enabled v then SBT_1S
      else if uintr_enabled v \<and> update_enabled v then SBT_1S
      else 0)"

text \<open>Stopping a callout clears both flags and resetting it sets both.\<close>

definition vrtc_callout_reset :: "sbintime \<Rightarrow> vrtc \<Rightarrow> vrtc" where
  "vrtc_callout_reset freqsbt v =
     (if freqsbt = 0 then if rtc_active v then v\<lparr>rtc_active := False, rtc_pending := False\<rparr> else v
      else v\<lparr>rtc_active := True, rtc_pending := True\<rparr>)"

definition vrtc_callout_handler :: "host \<Rightarrow> vrtc \<Rightarrow> vrtc option" where
  "vrtc_callout_handler k v =
     (if rtc_pending v then Some v
      else if \<not> rtc_active v then Some v
      else do {
        let v1 = v\<lparr>rtc_active := False\<rparr>;
        let v2 = (if pintr_enabled v1 then vrtc_set_reg_c (reg_c v1 OR RTCIR_PERIOD) v1 else v1);
        v3 \<leftarrow> (if aintr_enabled v2 \<or> uintr_enabled v2
               then let (t, base) = vrtc_curtime k v2 in map_option snd (vrtc_time_update k t base v2)
               else Some v2);
        Some (vrtc_callout_reset (vrtc_freq v3) v3)
      })"

section \<open>Control registers\<close>

definition callout_adjust :: "sbintime \<Rightarrow> vrtc \<Rightarrow> vrtc" where
  "callout_adjust oldfreq v = (if vrtc_freq v \<noteq> oldfreq then vrtc_callout_reset (vrtc_freq v) v else v)"

text \<open>The change of the halt bit: an error, or the device with its new time base.\<close>

definition halt_change :: "host \<Rightarrow> u8 \<Rightarrow> vrtc \<Rightarrow> (int + vrtc) option" where
  "halt_change k newval v =
     (if newval AND RTCSB_HALT = 0
      then
        let rtctime = rtc_to_secs v
        in if rtctime = VRTC_BROKEN_TIME then Some (Inl (- 1))
           else map_option (\<lambda>(_, v1). Inr v1) (vrtc_time_update k rtctime (up k) v)
      else do {
        let (curtime, basetime) = vrtc_curtime k v;
        v1 \<leftarrow> secs_to_rtc k curtime True v;
        let v2 = set_dev 11 (reg_b v1 AND NOT RTCSB_UINTR) v1;
        map_option (\<lambda>(_, v3). Inr v3) (vrtc_time_update k VRTC_BROKEN_TIME basetime v2)
      })"

definition vrtc_set_reg_b :: "host \<Rightarrow> u8 \<Rightarrow> vrtc \<Rightarrow> (int \<times> vrtc) option" where
  "vrtc_set_reg_b k newval v = do {
     let oldval = reg_b v;
     let oldfreq = vrtc_freq v;
     let v1 = set_dev 11 newval v;
     let changed = oldval XOR newval;
     r \<leftarrow> (if changed AND RTCSB_HALT \<noteq> 0 then halt_change k newval v1 else Some (Inr v1));
     (case r of
        Inl e \<Rightarrow> Some (e, v1)
      | Inr v2 \<Rightarrow>
          let v3 = (if changed AND RTCSB_ALL_INTRS \<noteq> 0 then vrtc_set_reg_c (reg_c v2) v2 else v2)
          in Some (0, callout_adjust oldfreq v3))
   }"

definition vrtc_set_reg_a :: "host \<Rightarrow> u8 \<Rightarrow> vrtc \<Rightarrow> vrtc" where
  "vrtc_set_reg_a k newval0 v =
     (let newval = newval0 AND NOT RTCSA_TUP;
          oldval = reg_a v;
          oldfreq = vrtc_freq v;
          v1 = (if \<not> divider_enabled oldval \<and> divider_enabled newval then v\<lparr>base_uptime := up k\<rparr> else v);
          v2 = set_dev 10 newval v1
      in callout_adjust oldfreq v2)"

section \<open>Interface\<close>

definition vrtc_set_time :: "host \<Rightarrow> int \<Rightarrow> vrtc \<Rightarrow> (int \<times> vrtc) option" where
  "vrtc_set_time k secs v = vrtc_time_update k secs (up k) v"

definition vrtc_get_time :: "host \<Rightarrow> vrtc \<Rightarrow> int" where
  "vrtc_get_time k v = fst (vrtc_curtime k v)"

definition vrtc_nvram_write :: "int \<Rightarrow> u8 \<Rightarrow> vrtc \<Rightarrow> int \<times> vrtc" where
  "vrtc_nvram_write offset val v =
     (if 0 \<le> offset \<and> offset < 14 \<or> offset = int RTC_CENTURY \<or> offset < 0 \<or> offset \<ge> 128 then (EINVAL, v)
      else (0, set_dev (nat offset) val v))"

definition vrtc_nvram_read :: "host \<Rightarrow> int \<Rightarrow> vrtc \<Rightarrow> (int \<times> u8 option \<times> vrtc) option" where
  "vrtc_nvram_read k offset v =
     (if offset < 0 \<or> offset \<ge> 128 then Some (EINVAL, None, v)
      else do {
        v1 \<leftarrow> (if offset < 10 \<or> offset = int RTC_CENTURY
               then secs_to_rtc k (fst (vrtc_curtime k v)) False v else Some v);
        Some (0, Some (dev v1 (nat offset)), v1)
      })"

definition vrtc_addr_handler :: "bool \<Rightarrow> int \<Rightarrow> u32 \<Rightarrow> vrtc \<Rightarrow> int \<times> u32 \<times> vrtc" where
  "vrtc_addr_handler inp bytes val v =
     (if bytes \<noteq> 1 then (- 1, val, v)
      else if inp then (0, 0xff, v)
      else (0, val, v\<lparr>rtc_addr := unat (val AND 0x7f)\<rparr>))"

definition data_write :: "host \<Rightarrow> nat \<Rightarrow> u32 \<Rightarrow> vrtc \<Rightarrow> (int \<times> vrtc) option" where
  "data_write k offset val v = do {
     (e, v1) \<leftarrow>
       (if offset = 10 then Some (0, vrtc_set_reg_a k (ucast val) v)
        else if offset = 11 then vrtc_set_reg_b k (ucast val) v
        else if offset = 12 then Some (0, v)
        else if offset = 13 then Some (0, v)
        else if offset = 0 then Some (0, set_dev 0 (ucast (val AND 0x7f)) v)
        else Some (0, set_dev offset (ucast val) v));
     if offset = RTC_CENTURY \<and> \<not> rtc_halted v1
     then do {
       let curtime = rtc_to_secs v1;
       (e2, v2) \<leftarrow> vrtc_time_update k curtime (up k) v1;
       Some (if curtime = VRTC_BROKEN_TIME then - 1 else e2, v2)
     }
     else Some (e, v1)
   }"

definition vrtc_data_handler :: "host \<Rightarrow> bool \<Rightarrow> int \<Rightarrow> u32 \<Rightarrow> vrtc \<Rightarrow> (int \<times> u32 \<times> vrtc) option" where
  "vrtc_data_handler k inp bytes val v =
     (if bytes \<noteq> 1 then Some (- 1, val, v)
      else
        let offset = rtc_addr v
        in if offset \<ge> 128 then Some (- 1, val, v)
           else do {
             let (curtime, basetime) = vrtc_curtime k v;
             (_, v1) \<leftarrow> vrtc_time_update k curtime basetime v;
             v2 \<leftarrow> (if offset < 10 \<or> offset = RTC_CENTURY then secs_to_rtc k curtime False v1 else Some v1);
             if inp
             then Some (0, ucast (dev v2 offset), if offset = 12 then vrtc_set_reg_c 0 v2 else v2)
             else map_option (\<lambda>(e, v3). (e, val, v3)) (data_write k offset val v2)
           })"

definition vrtc_reset :: "host \<Rightarrow> vrtc \<Rightarrow> vrtc option" where
  "vrtc_reset k v =
     map_option (\<lambda>(_, v1). vrtc_set_reg_c 0 v1)
       (vrtc_set_reg_b k (reg_b v AND NOT (RTCSB_ALL_INTRS OR RTCSB_SQWE)) v)"

definition vrtc_init :: "host \<Rightarrow> vrtc option" where
  "vrtc_init k = do {
     let v = \<lparr>rtc_active = False, rtc_pending = False, rtc_addr = RTC_STATUSD, base_uptime = 0,
               base_rtctime = VRTC_BROKEN_TIME,
               dev = (\<lambda>_. 0)(10 := 0x20, 11 := RTCSB_24HR, 12 := 0, 13 := RTCSD_PWR), rtc_pulses = 0\<rparr>;
     (_, v1) \<leftarrow> vrtc_time_update k 0 (up k) v;
     secs_to_rtc k 0 False v1
   }"

section \<open>Years and months\<close>

lemma sum_years_acc: "sum_years i y d = d + sum_years i y 0"
proof (induction "nat (y - i)" arbitrary: i d)
  case 0
  then show ?case by (simp add: sum_years.simps)
next
  case (Suc n)
  then have "n = nat (y - (i + 1))" "i < y" by linarith+
  then show ?case using Suc(1) [of "i + 1"] by (metis sum_years.simps add.assoc add_0)
qed

lemma sum_years_step: "i < y \<Longrightarrow> sum_years i y 0 = days_in_year i + sum_years (i + 1) y 0"
  by (subst sum_years.simps) (simp add: sum_years_acc [of "i + 1" y "days_in_year i"])

lemma sum_years_refl [simp]: "sum_years y y d = d"
  by (subst sum_years.simps) simp

lemma sum_months_acc: "sum_months y i m d = d + sum_months y i m 0"
proof (induction "nat (m - i)" arbitrary: i d)
  case 0
  then show ?case by (simp add: sum_months.simps)
next
  case (Suc n)
  then have "n = nat (m - (i + 1))" "i < m" by linarith+
  then show ?case using Suc(1) [of "i + 1"] by (metis sum_months.simps add.assoc add_0)
qed

lemma sum_months_step: "i < m \<Longrightarrow> sum_months y i m 0 = days_in_month y i + sum_months y (i + 1) m 0"
  by (subst sum_months.simps) (simp add: sum_months_acc [of y "i + 1" m "days_in_month y i"])

lemma sum_months_refl [simp]: "sum_months y m m d = d"
  by (subst sum_months.simps) simp

lemma sum_years_lower: "i \<le> y \<Longrightarrow> 365 * (y - i) \<le> sum_years i y 0"
proof (induction "nat (y - i)" arbitrary: i)
  case (Suc n)
  then have "n = nat (y - (i + 1))" "i < y" "i + 1 \<le> y" by linarith+
  then have "365 * (y - (i + 1)) \<le> sum_years (i + 1) y 0" using Suc(1) by blast
  then show ?case using sum_years_step [OF \<open>i < y\<close>] days_in_year_bounds(1) [of i] by (simp add: algebra_simps)
qed simp

lemma leapyear_cases: "leapyear y = 0 \<or> leapyear y = 1"
  by (simp add: leapyear_def)

lemma days_in_month_bounds: "\<lbrakk>1 \<le> m; m \<le> 12\<rbrakk> \<Longrightarrow> 28 \<le> days_in_month y m" "\<lbrakk>1 \<le> m; m \<le> 12\<rbrakk> \<Longrightarrow> days_in_month y m \<le> 31"
proof -
  assume "1 \<le> m" "m \<le> 12"
  then have "month_days ! nat (m - 1) \<in> set month_days" by (intro nth_mem) (simp add: month_days_def)
  then have d: "month_days ! nat (m - 1) \<in> {28, 30, 31}" by (simp add: month_days_def insert_commute)
  show "28 \<le> days_in_month y m" using d leapyear_cases [of y] by (auto simp: days_in_month_def)
  show "days_in_month y m \<le> 31"
    using d leapyear_cases [of y] by (cases "m = 2") (auto simp: days_in_month_def FEBRUARY_def month_days_def)
qed

lemma sum_months_year: "sum_months y 1 13 0 = days_in_year y"
  using leapyear_cases [of y]
  by (auto simp: sum_months.simps days_in_month_def month_days_def FEBRUARY_def days_in_year_def)

section \<open>The loops of the conversion invert the sums\<close>

lemma year_loop_spec:
  "0 \<le> d \<Longrightarrow> year_loop i d = (y, r) \<Longrightarrow> i \<le> y \<and> 0 \<le> r \<and> r < days_in_year y \<and> sum_years i y 0 + r = d"
proof (induction i d rule: year_loop.induct)
  case (1 i d)
  show ?case
  proof (cases "days_in_year i \<le> d")
    case True
    with 1 have "i + 1 \<le> y \<and> 0 \<le> r \<and> r < days_in_year y \<and> sum_years (i + 1) y 0 + r = d - days_in_year i"
      by (simp add: year_loop.simps [of i])
    then show ?thesis using sum_years_step [of i y] by simp
  next
    case False
    with 1 show ?thesis by (simp add: year_loop.simps [of i])
  qed
qed

lemma year_loop_sum:
  "\<lbrakk>i \<le> y; 0 \<le> r; r < days_in_year y\<rbrakk> \<Longrightarrow> year_loop i (sum_years i y 0 + r) = (y, r)"
proof (induction "nat (y - i)" arbitrary: i)
  case 0
  then show ?case by (simp add: year_loop.simps)
next
  case (Suc n)
  then have i: "n = nat (y - (i + 1))" "i < y" "i + 1 \<le> y" by linarith+
  have "0 \<le> sum_years (i + 1) y 0" using sum_years_lower [OF i(3)] i(3) by (simp add: algebra_simps)
  then show ?case
    using Suc.hyps(1) [OF i(1,3)] Suc.prems sum_years_step [OF i(2)] by (subst year_loop.simps) simp
qed

lemma sum_months_nonneg: "\<lbrakk>1 \<le> i; i \<le> m; m \<le> 13\<rbrakk> \<Longrightarrow> 0 \<le> sum_months y i m 0"
proof (induction "nat (m - i)" arbitrary: i)
  case (Suc n)
  then have i: "n = nat (m - (i + 1))" "i < m" "i + 1 \<le> m" by linarith+
  then show ?case
    using Suc.hyps(1) [OF i(1)] Suc.prems sum_months_step [OF i(2)] days_in_month_bounds(1) [of i y] by simp
qed simp

lemma sum_months_split: "\<lbrakk>i \<le> m; m \<le> n\<rbrakk> \<Longrightarrow> sum_months y i m 0 + sum_months y m n 0 = sum_months y i n 0"
proof (induction "nat (m - i)" arbitrary: i)
  case (Suc k)
  then have i: "k = nat (m - (i + 1))" "i < m" "i + 1 \<le> m" by linarith+
  then show ?case
    using Suc.hyps(1) [OF i(1,3)] Suc.prems sum_months_step [OF i(2), of y] sum_months_step [of i n y] by simp
qed simp

lemma month_loop_sum:
  "\<lbrakk>1 \<le> i; i \<le> m; m \<le> 12; 0 \<le> r; r < days_in_month y m\<rbrakk> \<Longrightarrow> month_loop y i (sum_months y i m 0 + r) = Some (m, r)"
proof (induction "nat (m - i)" arbitrary: i)
  case 0
  then show ?case by (simp add: month_loop.simps)
next
  case (Suc n)
  then have i: "n = nat (m - (i + 1))" "i < m" "i + 1 \<le> m" "1 \<le> i + 1" by linarith+
  have "0 \<le> sum_months y (i + 1) m 0" using sum_months_nonneg Suc.prems i by simp
  then show ?case
    using Suc.hyps(1) [OF i(1,4,3)] Suc.prems sum_months_step [OF i(2)] by (subst month_loop.simps) simp
qed

lemma month_loop_spec:
  "\<lbrakk>1 \<le> i; i \<le> 12; 0 \<le> d; d < sum_months y i 13 0\<rbrakk> \<Longrightarrow>
   \<exists>m r. month_loop y i d = Some (m, r) \<and> i \<le> m \<and> m \<le> 12 \<and> 0 \<le> r \<and> r < days_in_month y m \<and> sum_months y i m 0 + r = d"
proof (induction "nat (12 - i)" arbitrary: i d)
  case 0
  then have "i = 12" by simp
  moreover have "sum_months y 12 13 0 = days_in_month y 12" by (simp add: sum_months.simps)
  ultimately show ?case using 0 by (simp add: month_loop.simps)
next
  case (Suc n)
  then have i: "n = nat (12 - (i + 1))" "i < 13" "1 \<le> i + 1" "i + 1 \<le> 12" by linarith+
  show ?case
  proof (cases "days_in_month y i \<le> d")
    case True
    have "0 \<le> d - days_in_month y i" "d - days_in_month y i < sum_months y (i + 1) 13 0"
      using True Suc.prems sum_months_step [OF i(2), of y] by linarith+
    from Suc.hyps(1) [OF i(1,3,4) this] obtain m r where mr: "month_loop y (i + 1) (d - days_in_month y i) = Some (m, r)"
      "i + 1 \<le> m" "m \<le> 12" "0 \<le> r" "r < days_in_month y m" "sum_months y (i + 1) m 0 + r = d - days_in_month y i" by blast
    moreover have "month_loop y i d = Some (m, r)" using mr(1) True i by (subst month_loop.simps) simp
    moreover have "sum_months y i m 0 = days_in_month y i + sum_months y (i + 1) m 0" using mr(2) by (intro sum_months_step) simp
    ultimately show ?thesis by (intro exI [of _ m] exI [of _ r]) simp
  next
    case False
    then show ?thesis using Suc.prems by (simp add: month_loop.simps [of y i])
  qed
qed

definition ct_ok :: "clocktime \<Rightarrow> bool" where
  "ct_ok ct \<longleftrightarrow> POSIX_BASE_YEAR \<le> ct_year ct \<and> 1 \<le> ct_mon ct \<and> ct_mon ct \<le> 12
     \<and> 1 \<le> ct_day ct \<and> ct_day ct \<le> days_in_month (ct_year ct) (ct_mon ct)
     \<and> 0 \<le> ct_hour ct \<and> ct_hour ct \<le> 23 \<and> 0 \<le> ct_min ct \<and> ct_min ct \<le> 59 \<and> 0 \<le> ct_sec ct \<and> ct_sec ct \<le> 59"

definition ct_days :: "clocktime \<Rightarrow> int" where
  "ct_days ct = sum_months (ct_year ct) 1 (ct_mon ct) (sum_years POSIX_BASE_YEAR (ct_year ct) 0) + (ct_day ct - 1)"

lemma split_day:
  fixes q h m s :: int
  assumes "0 \<le> h" "h \<le> 23" "0 \<le> m" "m \<le> 59" "0 \<le> s" "s \<le> 59"
  shows "(((q * 24 + h) * 60 + m) * 60 + s) div SECDAY = q" "(((q * 24 + h) * 60 + m) * 60 + s) mod SECDAY = (h * 60 + m) * 60 + s"
    "((h * 60 + m) * 60 + s) div 3600 = h" "((h * 60 + m) * 60 + s) mod 3600 div 60 = m" "((h * 60 + m) * 60 + s) mod 3600 mod 60 = s"
proof -
  have b: "0 \<le> (h * 60 + m) * 60 + s" "(h * 60 + m) * 60 + s < 86400" using assms by simp_all
  have e: "((q * 24 + h) * 60 + m) * 60 + s = ((h * 60 + m) * 60 + s) + q * 86400" by simp
  show "(((q * 24 + h) * 60 + m) * 60 + s) div SECDAY = q" "(((q * 24 + h) * 60 + m) * 60 + s) mod SECDAY = (h * 60 + m) * 60 + s"
    unfolding e SECDAY_def using b by simp_all
  have e: "(h * 60 + m) * 60 + s = (m * 60 + s) + h * 3600" by simp
  have b: "0 \<le> m * 60 + s" "m * 60 + s < 3600" using assms by simp_all
  then have m: "((h * 60 + m) * 60 + s) mod 3600 = m * 60 + s" unfolding e by simp
  show "((h * 60 + m) * 60 + s) div 3600 = h" unfolding e using b by simp
  show "((h * 60 + m) * 60 + s) mod 3600 div 60 = m" "((h * 60 + m) * 60 + s) mod 3600 mod 60 = s"
    unfolding m using assms by simp_all
qed

lemma join_day:
  fixes t :: int
  shows "(((t div SECDAY) * 24 + t mod SECDAY div 3600) * 60 + t mod SECDAY mod 3600 div 60) * 60 + t mod SECDAY mod 3600 mod 60 = t"
proof -
  have "t mod 86400 = (t mod 86400 div 3600) * 3600 + t mod 86400 mod 3600" by simp
  moreover have "t mod 86400 mod 3600 = (t mod 86400 mod 3600 div 60) * 60 + t mod 86400 mod 3600 mod 60" by (simp only: div_mult_mod_eq)
  moreover have "t = t div 86400 * 86400 + t mod 86400" by simp
  ultimately show ?thesis unfolding SECDAY_def by simp
qed

lemma ts_to_ct:
  assumes "0 \<le> t"
  shows "\<exists>ct. clock_ts_to_ct t n = Some ct \<and> ct_ok ct \<and> clock_ct_to_ts ct = Some (t, n) \<and> ct_dow ct = day_of_week (t div SECDAY)"
proof -
  obtain y d where y: "year_loop POSIX_BASE_YEAR (t div SECDAY) = (y, d)" by fastforce
  have days: "0 \<le> t div SECDAY" using assms by (simp add: SECDAY_def)
  note ys = year_loop_spec [OF days y]
  obtain m r where m: "month_loop y 1 d = Some (m, r)" "1 \<le> m" "m \<le> 12" "0 \<le> r" "r < days_in_month y m" "sum_months y 1 m 0 + r = d"
    using month_loop_spec [of 1 d y] ys by (auto simp: sum_months_year)
  define h mi s where "h = t mod SECDAY div 3600" and "mi = t mod SECDAY mod 3600 div 60" and "s = t mod SECDAY mod 3600 mod 60"
  have rng: "0 \<le> h" "h \<le> 23" "0 \<le> mi" "mi \<le> 59" "0 \<le> s" "s \<le> 59"
    using zdiv_mono1 [of "t mod 86400" 86399 3600] zdiv_mono1 [of "t mod 86400 mod 3600" 3599 60]
      pos_mod_bound [of 86400 t] pos_mod_bound [of 3600 "t mod 86400"] pos_mod_bound [of 60 "t mod 86400 mod 3600"]
    by (simp_all add: h_def mi_def s_def SECDAY_def pos_imp_zdiv_nonneg_iff)
  define ct where "ct = \<lparr>ct_year = y, ct_mon = m, ct_day = r + 1, ct_hour = h, ct_min = mi, ct_sec = s, ct_dow = day_of_week (t div SECDAY), ct_nsec = n\<rparr>"
  have "clock_ts_to_ct t n = Some ct"
    by (simp add: clock_ts_to_ct_def Let_def y m(1) ct_def h_def mi_def s_def)
  moreover have "ct_ok ct" using m rng ys by (simp add: ct_ok_def ct_def)
  moreover have "sum_months y 1 m (sum_years POSIX_BASE_YEAR y 0) + r = t div SECDAY"
    using m(6) ys sum_months_acc [of y 1 m "sum_years POSIX_BASE_YEAR y 0"] by simp
  then have "clock_ct_to_ts ct = Some (t, n)"
    using m rng join_day [of t] by (simp add: clock_ct_to_ts_def ct_def Let_def h_def [symmetric] mi_def [symmetric] s_def [symmetric])
  ultimately show ?thesis by (auto simp: ct_def)
qed

lemma ct_to_ts:
  assumes "ct_ok ct"
  shows "\<exists>t. clock_ct_to_ts ct = Some (t, ct_nsec ct) \<and> 0 \<le> t
    \<and> clock_ts_to_ct t (ct_nsec ct) = Some (ct\<lparr>ct_dow := day_of_week (ct_days ct)\<rparr>)"
proof -
  define t where "t = (((ct_days ct * 24 + ct_hour ct) * 60 + ct_min ct) * 60 + ct_sec ct)"
  let ?d = "ct_day ct - 1" and ?s = "sum_months (ct_year ct) 1 (ct_mon ct) 0"
  have ok: "POSIX_BASE_YEAR \<le> ct_year ct" "1 \<le> ct_mon ct" "ct_mon ct \<le> 12" "0 \<le> ?d" "?d < days_in_month (ct_year ct) (ct_mon ct)"
    "0 \<le> ct_hour ct" "ct_hour ct \<le> 23" "0 \<le> ct_min ct" "ct_min ct \<le> 59" "0 \<le> ct_sec ct" "ct_sec ct \<le> 59"
    using assms by (simp_all add: ct_ok_def)
  have days: "ct_days ct = sum_years POSIX_BASE_YEAR (ct_year ct) 0 + (?s + ?d)"
    using sum_months_acc [of "ct_year ct" 1 "ct_mon ct" "sum_years POSIX_BASE_YEAR (ct_year ct) 0"] by (simp add: ct_days_def)
  have s: "0 \<le> ?s" using ok by (intro sum_months_nonneg) simp_all
  have "?s + ?d < days_in_year (ct_year ct)"
  proof -
    have "sum_months (ct_year ct) (ct_mon ct) 13 0 = days_in_month (ct_year ct) (ct_mon ct) + sum_months (ct_year ct) (ct_mon ct + 1) 13 0"
      using ok by (intro sum_months_step) simp
    moreover have "0 \<le> sum_months (ct_year ct) (ct_mon ct + 1) 13 0" using ok by (intro sum_months_nonneg) simp_all
    moreover have "sum_months (ct_year ct) 1 13 0 = ?s + sum_months (ct_year ct) (ct_mon ct) 13 0"
      using ok by (intro sum_months_split [symmetric]) simp_all
    ultimately show ?thesis using ok sum_months_year [of "ct_year ct"] by linarith
  qed
  then have yl: "year_loop POSIX_BASE_YEAR (ct_days ct) = (ct_year ct, ?s + ?d)"
    unfolding days using year_loop_sum ok s by simp
  have "clock_ct_to_ts ct = Some (t, ct_nsec ct)"
    using ok by (simp add: clock_ct_to_ts_def Let_def t_def ct_days_def)
  moreover have "0 \<le> ct_days ct" using days s ok sum_years_lower [OF ok(1)] by simp
  then have "0 \<le> t" using ok by (simp add: t_def)
  moreover have t: "t div SECDAY = ct_days ct" "t mod SECDAY div 3600 = ct_hour ct"
    "t mod SECDAY mod 3600 div 60 = ct_min ct" "t mod SECDAY mod 3600 mod 60 = ct_sec ct"
    unfolding t_def split_day(1,2) [OF ok(6-11)] by (rule refl split_day(3-5) [OF ok(6-11)])+
  have "clock_ts_to_ct t (ct_nsec ct) = Some (ct\<lparr>ct_dow := day_of_week (ct_days ct)\<rparr>)"
    using month_loop_sum [of 1 "ct_mon ct" ?d "ct_year ct"] ok by (simp add: clock_ts_to_ct_def Let_def t yl)
  ultimately show ?thesis by blast
qed

section \<open>Field formats\<close>

lemma bcd_table:
  assumes "n < 100"
  shows "bin2bcd_data ! n AND 0xf \<le> 9 \<and> drop_bit 4 (bin2bcd_data ! n) AND 0xf \<le> 9
    \<and> uint (drop_bit 4 (bin2bcd_data ! n) AND 0xf) * 10 + uint (bin2bcd_data ! n AND 0xf) = int n
    \<and> (n < 80 \<longrightarrow> bin2bcd_data ! n AND 0x80 = 0)"
proof -
  have "list_all (\<lambda>n. bin2bcd_data ! n AND 0xf \<le> 9 \<and> drop_bit 4 (bin2bcd_data ! n) AND 0xf \<le> 9
    \<and> uint (drop_bit 4 (bin2bcd_data ! n) AND 0xf) * 10 + uint (bin2bcd_data ! n AND 0xf) = int n
    \<and> (n < 80 \<longrightarrow> bin2bcd_data ! n AND 0x80 = 0)) [0..<100]"
    by code_simp
  with assms show ?thesis by (simp add: list_all_iff)
qed

lemma rtcset_bin: "\<lbrakk>0 \<le> x; x < 100\<rbrakk> \<Longrightarrow> uint (word_of_int x :: u8) = x"
  by (simp add: unsigned_of_int take_bit_int_eq_self)

lemma rtcget_rtcset: "\<lbrakk>0 \<le> x; x < 100\<rbrakk> \<Longrightarrow> rtcget b (rtcset b x) = Some x"
proof -
  assume x: "0 \<le> x" "x < 100"
  then have "nat x < 100" by simp
  note t = bcd_table [OF this]
  then have "\<not> 9 < bin2bcd_data ! nat x AND 0xf" "\<not> 9 < drop_bit 4 (bin2bcd_data ! nat x) AND 0xf" by (simp_all add: not_less)
  with t rtcset_bin [OF x] x show ?thesis by (simp add: rtcget_def rtcset_def Let_def)
qed

lemma rtc_field_rtcset: "\<lbrakk>0 \<le> x; x < 100; lo \<le> x; x \<le> hi\<rbrakk> \<Longrightarrow> rtc_field b (rtcset b x) lo hi = Some x"
  by (simp add: rtc_field_def rtcget_rtcset)

lemma and_80_bit: "(w :: u8) AND 0x80 = 0 \<longleftrightarrow> \<not> bit w 7"
  using and_shift_eq_bit [of 7 w] by (cases "bit w 7") simp_all

lemma rtcset_msb: "\<lbrakk>0 \<le> x; x < 80\<rbrakk> \<Longrightarrow> rtcset b x AND 0x80 = 0"
proof (cases "b AND RTCSB_BIN = 0")
  case False
  assume "0 \<le> x" "x < 80"
  then have "\<not> bit x 7" by (simp add: bit_iff_odd)
  then have "\<not> bit (word_of_int x :: u8) 7" by (simp add: bit_word_of_int_iff)
  with False show ?thesis by (simp add: rtcset_def and_80_bit)
qed (use bcd_table [of "nat x"] in \<open>simp add: rtcset_def\<close>)

lemma pm_bits:
  fixes r :: u8
  assumes "r AND 0x80 = 0"
  shows "(r OR 0x80) AND 0x80 \<noteq> 0" "(r OR 0x80) AND NOT 0x80 = r"
proof -
  show "(r OR 0x80) AND 0x80 \<noteq> 0" unfolding and_80_bit by (simp add: bit_or_iff)
  have "r AND NOT 0x80 = r"
    using assms by (metis (no_types) and.right_neutral bit.conj_disj_distrib bit.disj_cancel_right or.left_neutral)
  then show "(r OR 0x80) AND NOT 0x80 = r" by (simp add: bit.conj_disj_distrib2)
qed

lemma rtc_hour_roundtrip: "\<lbrakk>0 \<le> h; h \<le> 23\<rbrakk> \<Longrightarrow> rtc_to_hour b (hour_to_rtc b h) = Some h"
proof (cases "b AND RTCSB_24HR = 0")
  case True
  assume h: "0 \<le> h" "h \<le> 23"
  define x where "x = (if h = 0 \<or> h = 12 then 12 else h mod 12)"
  have x: "1 \<le> x" "x \<le> 12" "0 \<le> x" "x < 100" "x < 80" and hx: "h = (if x = 12 then 0 else x) + (if h \<ge> 12 then 12 else 0)"
    using h unfolding x_def by (cases "h < 12"; simp add: mod_pos_pos_trivial; presburger)+
  note m = rtcset_msb [OF x(3,5), of b]
  have "hour_to_rtc b h = (if h \<ge> 12 then rtcset b x OR 0x80 else rtcset b x)"
    using True by (simp add: hour_to_rtc_def x_def Let_def)
  then show ?thesis
    using True m pm_bits [OF m] x hx
    by (cases "12 \<le> h"; cases "x = 12") (simp_all add: rtc_to_hour_def Let_def rtcget_rtcset)
next
  case False
  then show "0 \<le> h \<Longrightarrow> h \<le> 23 \<Longrightarrow> ?thesis"
    by (simp add: rtc_to_hour_def hour_to_rtc_def Let_def rtc_field_rtcset)
qed

lemma wall_year:
  assumes "ct_ok ct" "clock_ct_to_ts ct = Some (uint (w :: u32), n)"
  shows "1900 \<le> ct_year ct" "ct_year ct \<le> 2106"
proof -
  show "1900 \<le> ct_year ct" using assms(1) by (simp add: ct_ok_def POSIX_BASE_YEAR_def)
  let ?s = "sum_months (ct_year ct) 1 (ct_mon ct) 0"
  have s: "0 \<le> ?s" using assms(1) by (intro sum_months_nonneg) (simp_all add: ct_ok_def)
  have ok: "1 \<le> ct_day ct" "0 \<le> ct_hour ct" "0 \<le> ct_min ct" "0 \<le> ct_sec ct" using assms(1) by (simp_all add: ct_ok_def)
  have l: "365 * (ct_year ct - 1970) \<le> sum_years 1970 (ct_year ct) 0"
    using sum_years_lower [of 1970 "ct_year ct"] assms(1) by (simp add: ct_ok_def POSIX_BASE_YEAR_def)
  have "(ct_days ct * 24 + ct_hour ct) * 60 * 60 + ct_min ct * 60 + ct_sec ct = uint w"
    using assms by (auto simp: clock_ct_to_ts_def ct_days_def Let_def split: if_splits)
  moreover have "ct_days ct = sum_years 1970 (ct_year ct) 0 + (?s + (ct_day ct - 1))"
    using sum_months_acc [of "ct_year ct" 1 "ct_mon ct" "sum_years POSIX_BASE_YEAR (ct_year ct) 0"]
    by (simp add: ct_days_def POSIX_BASE_YEAR_def)
  moreover have "uint w < 4294967296" using unsigned_less [of w, where 'a = int] by simp
  ultimately have "86400 * (365 * (ct_year ct - 1970)) < 4294967296"
    using s l ok by (simp add: algebra_simps)
  then show "ct_year ct \<le> 2106" by simp
qed

lemma rtc_encode_decode:
  assumes "ct_ok ct" "clock_ct_to_ts ct = Some (uint (w :: u32), n)"
    and "dev v = d(0 := rtcset b (ct_sec ct), 2 := rtcset b (ct_min ct), 4 := hour_to_rtc b (ct_hour ct),
        6 := wd, 7 := rtcset b (ct_day ct), 8 := rtcset b (ct_mon ct),
        9 := rtcset b (ct_year ct mod 100), RTC_CENTURY := rtcset b (ct_year ct div 100))" and "d 11 = b"
  shows "rtc_to_ct v = Some (ct\<lparr>ct_dow := - 1, ct_nsec := 0\<rparr>)"
proof -
  note y = wall_year [OF assms(1,2)]
  have c: "0 \<le> ct_year ct div 100" "ct_year ct div 100 < 100" "0 \<le> ct_year ct mod 100" "ct_year ct mod 100 < 100"
    using y by (simp_all add: pos_imp_zdiv_nonneg_iff)
  have day: "ct_day ct \<le> 31" using assms(1) days_in_month_bounds(2) [of "ct_mon ct" "ct_year ct"] by (simp add: ct_ok_def)
  have b: "reg_b v = b" using assms(3,4) by (simp add: reg_b_def RTC_CENTURY_def)
  have "ct_year ct div 100 * 100 + ct_year ct mod 100 = ct_year ct" by simp
  then show ?thesis
    using assms(1) c y day
    by (simp add: rtc_to_ct_def b assms(3) RTC_CENTURY_def rtc_field_rtcset rtc_hour_roundtrip rtcget_rtcset ct_ok_def Let_def)
qed

section \<open>When a time update returns\<close>

lemma secs_to_rtc_total:
  "\<exists>v1. secs_to_rtc k t f v = Some v1 \<and> reg_b v1 = reg_b v \<and> base_rtctime v1 = base_rtctime v"
  using ts_to_ct [of "uint (wall k)" "wall_nsec k"]
  by (auto simp: secs_to_rtc_def Let_def reg_b_def RTC_CENTURY_def)

lemma set_reg_c_keeps [simp]:
  "reg_b (vrtc_set_reg_c c v) = reg_b v" "base_rtctime (vrtc_set_reg_c c v) = base_rtctime v"
  by (simp_all add: vrtc_set_reg_c_def Let_def reg_b_def set_dev_def)

lemma alarm_check_total:
  "\<exists>v1. alarm_check k al v = Some v1 \<and> reg_b v1 = reg_b v \<and> base_rtctime v1 = base_rtctime v"
  using secs_to_rtc_total [of k "base_rtctime v" False v] by (auto simp: alarm_check_def)

lemma aintr_cong: "reg_b v1 = reg_b v \<Longrightarrow> aintr_enabled v1 = aintr_enabled v"
  by (simp add: aintr_enabled_def)

lemma update_turn_up:
  assumes "aintr_enabled v"
  obtains v1 where "update_turn k True t al v = Some v1" "aintr_enabled v1" "base_rtctime v1 = base_rtctime v + 1"
proof -
  let ?v = "v\<lparr>base_rtctime := base_rtctime v + 1\<rparr>"
  have a: "aintr_enabled ?v" using assms by (simp add: aintr_enabled_def reg_b_def)
  obtain v1 where v1: "alarm_check k al ?v = Some v1" "reg_b v1 = reg_b ?v" "base_rtctime v1 = base_rtctime ?v"
    using alarm_check_total by blast
  show ?thesis using that [of v1] v1 a assms aintr_cong [OF v1(2)] by (simp add: update_turn_def)
qed

lemma update_loop_returns:
  "\<lbrakk>aintr_enabled v; base_rtctime v < t\<rbrakk> \<Longrightarrow> \<exists>v1. update_loop k True t al v = Some v1"
proof (induction "nat (t - base_rtctime v)" arbitrary: v)
  case (Suc n)
  obtain v1 where v1: "update_turn k True t al v = Some v1" "aintr_enabled v1" "base_rtctime v1 = base_rtctime v + 1"
    using update_turn_up [OF Suc.prems(1)] .
  show ?case
  proof (cases "base_rtctime v1 = t")
    case False
    then have "n = nat (t - base_rtctime v1)" "base_rtctime v1 < t" using Suc v1(3) by linarith+
    with Suc.hyps(1) [of v1] v1 False show ?thesis by (subst update_loop.simps) simp
  qed (subst update_loop.simps, simp add: v1(1))
qed simp

lemma update_loop_diverges:
  assumes "update_loop k oldvalid t al v = Some r"
  shows "aintr_enabled v \<longrightarrow> oldvalid \<longrightarrow> base_rtctime v < t"
  using assms
proof (rule update_loop.raw_induct [where P = "\<lambda>k ov t al v r. aintr_enabled v \<longrightarrow> ov \<longrightarrow> base_rtctime v < t", rotated], goal_cases)
  case (1 f k ov t al v r)
  show ?case
  proof (intro impI)
    assume a: "aintr_enabled v" and o: ov
    obtain v1 where v1: "update_turn k True t al v = Some v1" "aintr_enabled v1" "base_rtctime v1 = base_rtctime v + 1"
      using update_turn_up [OF a] .
    with 1(2) o have "(if base_rtctime v1 \<noteq> t then f k ov t al v1 else Some v1) = Some r" by simp
    then show "base_rtctime v < t" using 1(1) [of k ov t al v1 r] o v1(2,3) by (auto split: if_splits)
  qed
qed

lemma update_loop_direct:
  assumes "\<not> (aintr_enabled v \<and> oldvalid)"
  shows "\<exists>v1. update_loop k oldvalid t al v = Some v1"
proof -
  obtain v1 where "alarm_check k al (v\<lparr>base_rtctime := t\<rparr>) = Some v1" "base_rtctime v1 = t"
    using alarm_check_total [of k al "v\<lparr>base_rtctime := t\<rparr>"] by auto
  then show ?thesis using assms by (subst update_loop.simps) (auto simp: Let_def update_turn_def)
qed

lemma time_update_iff:
  "(\<exists>r. vrtc_time_update k t b v = Some r) \<longleftrightarrow>
   t = base_rtctime v \<or> t = VRTC_BROKEN_TIME \<or> rtc_halted v \<or> \<not> aintr_enabled v
   \<or> base_rtctime v = VRTC_BROKEN_TIME \<or> base_rtctime v < t"
proof -
  define u where "u = update_loop k (base_rtctime v \<noteq> VRTC_BROKEN_TIME) t (dev v 1, dev v 3, dev v 5) (v\<lparr>base_uptime := b\<rparr>)"
  have c: "aintr_enabled (v\<lparr>base_uptime := b\<rparr>) = aintr_enabled v" "rtc_halted (v\<lparr>base_uptime := b\<rparr>) = rtc_halted v"
    by (simp_all add: aintr_enabled_def rtc_halted_def reg_b_def)
  have "(\<exists>r. u = Some r) \<longleftrightarrow> \<not> aintr_enabled v \<or> base_rtctime v = VRTC_BROKEN_TIME \<or> base_rtctime v < t"
  proof (cases "aintr_enabled v \<and> base_rtctime v \<noteq> VRTC_BROKEN_TIME")
    case True
    then show ?thesis
      using update_loop_returns [of "v\<lparr>base_uptime := b\<rparr>" t k "(dev v 1, dev v 3, dev v 5)"]
        update_loop_diverges [of k True t "(dev v 1, dev v 3, dev v 5)" "v\<lparr>base_uptime := b\<rparr>"]
      by (auto simp: u_def c)
  next
    case False
    then show ?thesis using update_loop_direct [of "v\<lparr>base_uptime := b\<rparr>"] by (auto simp: u_def c)
  qed
  then show ?thesis
    unfolding vrtc_time_update_def Let_def u_def [symmetric] by (auto simp: c bind_eq_Some_conv)
qed

text \<open>A clock that stands at one billion seconds, in binary 24-hour format, with the alarm enabled and the
  fields of 1 January 1970.\<close>

definition v0 :: vrtc where
  "v0 = \<lparr>rtc_active = True, rtc_pending = True, rtc_addr = RTC_CENTURY, base_uptime = 0, base_rtctime = 1000000000,
     dev = (\<lambda>_. 0)(7 := 1, 8 := 1, 9 := 70, 10 := 0x20, 11 := RTCSB_24HR OR RTCSB_BIN OR RTCSB_AINTR), rtc_pulses = 0\<rparr>"

section \<open>Properties\<close>



text \<open>
  In each of the four formats a guest can select (binary or decimal coded, 12 or 24
  hours) the date and time fields written by \<^verbatim>\<open>secs_to_rtc\<close> are read back by \<^verbatim>\<open>rtc_to_secs\<close> as the time
  that was written, which is the host's calendar time, not the argument.
\<close>

theorem rtc_fields_roundtrip:
  assumes "0 \<le> t" and "\<not> rtc_halted v \<or> force"
  shows "\<exists>v1. secs_to_rtc k t force v = Some v1 \<and> rtc_to_secs v1 = uint (wall k)"
proof -
  obtain ct where ct: "clock_ts_to_ct (uint (wall k)) (wall_nsec k) = Some ct" "ct_ok ct"
    "clock_ct_to_ts ct = Some (uint (wall k), wall_nsec k)"
    using ts_to_ct [of "uint (wall k)"] by fastforce
  obtain v1 where v1: "secs_to_rtc k t force v = Some v1" and d: "dev v1 = (dev v)(
      0 := rtcset (reg_b v) (ct_sec ct), 2 := rtcset (reg_b v) (ct_min ct), 4 := hour_to_rtc (reg_b v) (ct_hour ct),
      6 := rtcset (reg_b v) (ct_dow ct + 1), 7 := rtcset (reg_b v) (ct_day ct), 8 := rtcset (reg_b v) (ct_mon ct),
      9 := rtcset (reg_b v) (ct_year ct mod 100), RTC_CENTURY := rtcset (reg_b v) (ct_year ct div 100))"
    using assms by (auto simp: secs_to_rtc_def ct(1) Let_def)
  have ct1: "rtc_to_ct v1 = Some (ct\<lparr>ct_dow := - 1, ct_nsec := 0\<rparr>)"
    using rtc_encode_decode [OF ct(2,3) d] by (simp add: reg_b_def)
  have "clock_ct_to_ts (ct\<lparr>ct_dow := - 1, ct_nsec := 0\<rparr>) = Some (uint (wall k), 0)"
    using ct(3) by (simp add: clock_ct_to_ts_def Let_def split: if_splits)
  then have "rtc_to_secs v1 = uint (wall k)" by (simp add: rtc_to_secs_def ct1)
  with v1 show ?thesis by blast
qed

theorem rtc_fields_roundtrip_witness:
  "\<exists>v1. secs_to_rtc \<lparr>up = 0, wall = 1000000000, wall_nsec = 0\<rparr> 5 True v0 = Some v1 \<and> rtc_to_secs v1 = 1000000000"
  using rtc_fields_roundtrip [of 5 v0 True "\<lparr>up = 0, wall = 1000000000, wall_nsec = 0\<rparr>"] by simp


text \<open>
  A guest can make the emulation of the clock loop forever while it holds the device lock: with the
  clock running and the alarm interrupt enabled, a write of the century byte that makes the fields denote a
  time before the current one never returns.
\<close>

theorem century_write_hangs:
  assumes "\<not> rtc_halted v" and "aintr_enabled v" and "base_rtctime v \<noteq> VRTC_BROKEN_TIME"
    and "0 \<le> rtc_to_secs (set_dev RTC_CENTURY (ucast val) v)"
    and "rtc_to_secs (set_dev RTC_CENTURY (ucast val) v) < base_rtctime v"
  shows "data_write k RTC_CENTURY val v = None"
proof -
  let ?v = "set_dev RTC_CENTURY (ucast val) v"
  have b: "reg_b ?v = reg_b v" "base_rtctime ?v = base_rtctime v" by (simp_all add: reg_b_def set_dev_def RTC_CENTURY_def)
  have "\<not> rtc_halted ?v" "aintr_enabled ?v" using assms(1,2) b(1) by (simp_all add: rtc_halted_def aintr_enabled_def)
  then have "vrtc_time_update k (rtc_to_secs ?v) (up k) ?v = None"
    using time_update_iff [of k "rtc_to_secs ?v" "up k" ?v] assms(3-5) b
    by (cases "vrtc_time_update k (rtc_to_secs ?v) (up k) ?v") (auto simp: VRTC_BROKEN_TIME_def)
  then show ?thesis using \<open>\<not> rtc_halted ?v\<close> by (simp add: data_write_def Let_def RTC_CENTURY_def)
qed

lemma v0_century: "rtc_to_secs (set_dev RTC_CENTURY (ucast (19 :: u32)) v0) = 0"
  by (simp add: rtc_to_secs_def rtc_to_ct_def v0_def set_dev_def reg_b_def rtc_bits Let_def RTC_CENTURY_def rtc_field_def rtcget_def
      rtc_to_hour_def clock_ct_to_ts_def days_in_month_def month_days_def FEBRUARY_def POSIX_BASE_YEAR_def)

theorem century_write_hangs_witness: "data_write \<lparr>up = 0, wall = 0, wall_nsec = 0\<rparr> RTC_CENTURY 19 v0 = None"
  by (rule century_write_hangs, unfold v0_century)
     (simp_all add: v0_def rtc_halted_def aintr_enabled_def reg_b_def rtc_bits VRTC_BROKEN_TIME_def)

end
