(* ===== verification/Spec2Isabelle.thy ===== *)
theory Spec2Isabelle
  imports Hypercog Intr_path Virtio Vie_emul Uart Vatpit Vpmtmr Vrtc
begin

text \<open>
  A verification of HyperKit with the HyperCog layer.

  HyperKit is a hypervisor in one process. Each virtual CPU is a thread that runs the guest until an exit; exits are handled by the
  virtual machine monitor (\<^verbatim>\<open>src/src/lib/vmm\<close>), which holds the memory and the events of the machine and the platform devices, and by
  the device models (\<^verbatim>\<open>src/src/lib\<close>). HyperCog keeps knowledge about machines in a hypergraph and answers queries on it.

  \<^bold>\<open>Shared theories.\<close> \<^theory_text>\<open>Prelude\<close>: the integer types of the C sources as words, bit idioms, searches of a list, and the
  interfaces \<open>machine\<close> and \<open>partial_machine\<close>, which give every component its runs and the induction over them (the second one for
  components whose steps can abort). \<^theory_text>\<open>Libc\<close>: allocation, clock, strings and printing as HyperCog uses them, with arbitrary
  outcomes of allocations. \<^theory_text>\<open>Guestmem\<close>: guest memory as devices see it (\<^verbatim>\<open>vmm_api.c\<close>).

  \<^bold>\<open>HyperCog.\<close>
  \<^item> \<^theory_text>\<open>Atomspace\<close> (\<^verbatim>\<open>atomspace.c\<close>): the record \<open>atomspace\<close> with its array of atoms; every function of the file. Handles are unique and
    stay valid over every run, memory is owned and released once, queries return exactly the matches in order. The interface
    \<open>atom_store\<close> is what its clients rely on.
  \<^item> \<^theory_text>\<open>Hypergraphql\<close> (\<^verbatim>\<open>hypergraphql.c\<close>): server, query evaluation, resolvers that print into buffers of fixed size. The resolver of
    patterns can write past its buffer, which is proved.
  \<^item> \<^theory_text>\<open>Hypercog\<close> (\<^verbatim>\<open>hypercog.c\<close>): context, hooks, knowledge, over a store of objects with aliasing. No run of hooks uses freed
    memory or leaks, initialisation is all or nothing, knowledge reads back, and the hook for destruction marks the oldest atom whose name contains
    the one of the virtual CPU, which may be another machine.

  \<^bold>\<open>Interrupts.\<close>
  \<^item> \<^theory_text>\<open>Vatpic\<close> (\<^verbatim>\<open>vatpic.c\<close>): the two 8259A chips; invariant of runs, priorities, service of a request.
  \<^item> \<^theory_text>\<open>Vioapic\<close> (\<^verbatim>\<open>vioapic.c\<close>): redirection entries; a level-triggered interrupt is not lost.
  \<^item> \<^theory_text>\<open>Vlapic\<close>, \<^theory_text>\<open>Vmm_lapic\<close> (\<^verbatim>\<open>vlapic.c\<close>, \<^verbatim>\<open>vmm_lapic.c\<close>): one local APIC, and those of a machine with what they send to each
    other. A run aborts only at the two places named in the claim; nested interrupts refine a stack of priorities.
  \<^item> \<^theory_text>\<open>Intr_path\<close>: the calls of the I/O APIC and the local APICs into each other; the life of a level-triggered interrupt from the pin
    to the end of interrupt and again.

  \<^bold>\<open>Machine.\<close>
  \<^item> \<^theory_text>\<open>Vcpu\<close> (\<^verbatim>\<open>vmm.c\<close>): memory segments, registers, states of virtual CPUs, pending events. Segments never overlap, the interruption
    information is always well formed, the event injected at an entry is the one of the table of double faults.
  \<^item> \<^theory_text>\<open>Paging\<close> (\<^verbatim>\<open>vm_gla2gpa\<close>, \<^verbatim>\<open>vm_copy_setup\<close>): the walk of the guest's tables equals the walk of a processor and
    returns; copies read back.
  \<^item> \<^theory_text>\<open>Vie\<close> (\<^verbatim>\<open>vmm_decode_instruction\<close>): decoding is safe on all bytes and inverts encoding.
  \<^item> \<^theory_text>\<open>Vie_emul\<close> (\<^verbatim>\<open>vmm_emulate_instruction\<close>): every instruction of the emulator; comparisons set the flags of the two orders, a
    repeated store ends and writes every element once.

  \<^bold>\<open>Devices.\<close>
  \<^item> \<^theory_text>\<open>Virtio\<close> (\<^verbatim>\<open>virtio.c\<close>): the transport writes only to guest memory and negotiates only features offered, walks exactly the chain the guest made available, and
    decides on interrupts as the specification of event indices says. The device behind it is a parameter.
  \<^item> \<^theory_text>\<open>Uart\<close> (\<^verbatim>\<open>uart_emul.c\<close>): the ring buffer refines a bounded queue (interface \<open>bounded_queue\<close>, provided by the buffer and by a looped-back
    port); invariant of a port.
  \<^item> \<^theory_text>\<open>Callout\<close> (\<^verbatim>\<open>vmm_callout.c\<close>): binary time is 128-bit arithmetic; the queue of timers is sorted and holds exactly the pending ones.
  \<^item> \<^theory_text>\<open>Vatpit\<close>, \<^theory_text>\<open>Vpmtmr\<close>, \<^theory_text>\<open>Vrtc\<close> (\<^verbatim>\<open>vatpit.c\<close>, \<^verbatim>\<open>vpmtmr.c\<close>, \<^verbatim>\<open>vrtc.c\<close>): latched counts, the elapsed ticks, the calendar and when a
    time update returns.

  \<^bold>\<open>Conventions.\<close> Definitions have the names of the functions, records and macros they model; a part of a function has a name of its own. State is
  passed explicitly. A null pointer is \<open>None\<close>; error numbers are the type \<open>errno\<close>. An abort, a failed assertion or undefined behaviour is the value
  \<open>None\<close> or a fault, so that a theorem that gives a result excludes them. What a component asks of others is a log in its state, in
  order. An operation that holds a mutex for its whole body is one step.

  \<^bold>\<open>Loops.\<close> Loops whose end follows from their counters are total functions. \<open>vm_gla2gpa\<close>, \<open>count_pages\<close>, \<open>find_cr_loop\<close> and \<open>update_loop\<close> may
  not end and are partial; when they return is proved. The only fuel is that of \<open>stos_loop\<close>, which counts the exits of a repeated
  instruction; one more than the count register is enough.

  \<^bold>\<open>Not modelled.\<close> The processor interface (\<^verbatim>\<open>vmm/intel\<close>) and \<^verbatim>\<open>x86.c\<close>, which call the framework of the host and the CPUID instruction; the run
  loop and the rendezvous of virtual CPUs in \<^verbatim>\<open>vmm.c\<close>, which wait for threads (a rendezvous is one step in \<^theory_text>\<open>Intr_path\<close>); the HPET; the devices behind
  PCI (\<^verbatim>\<open>pci_*.c\<close>, \<^verbatim>\<open>block_if.c\<close>), which are mostly host input and output; \<^verbatim>\<open>mevent.c\<close>, a loop around \<^verbatim>\<open>kevent\<close>; the tables for the firmware and
  the loaders of kernels; task switches; the start of the program, and the bindings for Go and OCaml. Mutexes, statistics and traces are left out everywhere.
\<close>

end
